(* ===== verification/Go_Prelude.thy ===== *)
theory Go_Prelude
  imports Main "HOL-Library.Word"
begin

text \<open>
  Shared vocabulary of the development: Go's machine types, error values, results and panics,
  and the generic lemmas on bytes, words and filtered lists that the component theories use.

  A Go \<open>string\<close> is an immutable byte sequence: HOL's \<open>string\<close> (a list of 8-bit \<open>char\<close>) is
  exactly that. A \<open>[]byte\<close> is a list of 8-bit words; where the code tells a nil slice from a
  present one the model uses \<open>bytes option\<close>. \<open>int\<close>, \<open>int64\<close> and \<open>time.Duration\<close> are
  64-bit words read with \<open>sint\<close>, \<open>uint64\<close> is a 64-bit word read with \<open>unat\<close>.
\<close>

section \<open>Machine types\<close>

type_synonym bytes = "8 word list"
type_synonym int64 = "64 word"
type_synonym uint64 = "64 word"

named_theorems go_simps \<open>unfolding of results, panics and option chains\<close>
named_theorems inv_intros \<open>preservation of the components' invariants\<close>

abbreviation i64 :: "int \<Rightarrow> int64" where
  "i64 \<equiv> word_of_int"

definition min64 :: int where "min64 = - (2 ^ 63)"
definition max64 :: int where "max64 = 2 ^ 63 - 1"

lemmas bounds64 = min64_def max64_def

lemma sint64_bounds [simp]:
  "min64 \<le> sint (x :: int64)" "sint (x :: int64) \<le> max64"
  using sint_range_size [of x] by (simp_all add: word_size bounds64)

lemma sint_i64: "min64 \<le> x \<Longrightarrow> x \<le> max64 \<Longrightarrow> sint (i64 x) = x"
  by (simp add: sint_sbintrunc' bounds64 signed_take_bit_int_eq_self)

lemma sint_add64:
  assumes "min64 \<le> sint a + sint b" and "sint a + sint b \<le> max64"
  shows "sint ((a :: int64) + b) = sint a + sint b"
  using sint_i64 [OF assms] by simp

section \<open>Errors, results and panics\<close>

text \<open>
  One datatype names every sentinel error of the program. \<open>NewErr s\<close> is \<open>errors.New s\<close> at
  the place of use, \<open>LibErr s\<close> an error value that a library call returned, carrying its text.
\<close>

datatype err =
    NewErr string
  | LibErr string
  \<comment> \<open>httpclient/client.go\<close>
  | ErrBaseURLRequired | ErrAuthhmacRequired | ErrBodyRequired | ErrFailedToParseURL
  | ErrFailedToMarshalBody | ErrInternalServerError | ErrRequestFailed | ErrUnauthorized
  | ErrPermissionDenied | ErrNotFound | ErrModuleRequired | ErrProjectRequired
  | ErrInvalidResponseBody | ErrInvalidRequestNonce
  \<comment> \<open>broker/broker.go\<close>
  | ErrBrokerDisconnected | ErrBrokerDialFailed | ErrBrokerCertFailed
  \<comment> \<open>client/client.go\<close>
  | ErrClientNotConnected
  \<comment> \<open>message/context.go\<close>
  | ErrMessageContextNotFound
  \<comment> \<open>a nil pointer dereference of the Go runtime\<close>
  | NilDereference

type_synonym 'a result = "err + 'a"

text \<open>A call that may panic: it returns a value or unwinds with the panic's argument.\<close>

datatype 'a outcome = Returns 'a | Panics err

primrec bindE :: "'a result \<Rightarrow> ('a \<Rightarrow> 'b result) \<Rightarrow> 'b result" where
  "bindE (Inl e) f = Inl e"
| "bindE (Inr x) f = f x"

lemma bindE_Inr [go_simps]: "bindE r f = Inr y \<longleftrightarrow> (\<exists>x. r = Inr x \<and> f x = Inr y)"
  by (cases r) auto

lemma bindE_Inl [go_simps]: "bindE r f = Inl e \<longleftrightarrow> r = Inl e \<or> (\<exists>x. r = Inr x \<and> f x = Inl e)"
  by (cases r) auto

section \<open>Strings and bytes\<close>

text \<open>The conversion \<open>[]byte(s)\<close>: the bytes of a string, one per \<open>char\<close>.\<close>

definition string_bytes :: "string \<Rightarrow> bytes" where
  "string_bytes s = map (\<lambda>c. of_char c) s"

lemma of_char_nat_less: "(of_char c :: nat) < 256"
proof -
  have "of_char c = (of_char c mod 256 :: nat)" by (rule of_char_mod_256 [symmetric])
  also have "\<dots> < 256" by (rule mod_less_divisor) simp
  finally show ?thesis .
qed

lemma unat_of_char: "unat (of_char c :: 8 word) = (of_char c :: nat)"
proof -
  have "unat (of_nat (of_char c) :: 8 word) = (of_char c :: nat)"
    using of_char_nat_less [of c] by (simp add: unsigned_of_nat take_bit_nat_eq_self)
  then show ?thesis by (simp only: of_nat_of_char)
qed

lemma of_char_word8_inj: "(of_char c :: 8 word) = of_char d \<longleftrightarrow> c = d"
  by (metis unat_of_char of_char_eq_iff)

lemma string_bytes_inj [simp]: "string_bytes s = string_bytes t \<longleftrightarrow> s = t"
  unfolding string_bytes_def by (rule inj_map_eq_map) (simp add: inj_def of_char_word8_inj)

lemma length_string_bytes [simp]: "length (string_bytes s) = length s"
  by (simp add: string_bytes_def)

lemma string_bytes_append [simp]: "string_bytes (s @ t) = string_bytes s @ string_bytes t"
  by (simp add: string_bytes_def)

lemma string_bytes_Nil [simp]: "string_bytes [] = []"
  by (simp add: string_bytes_def)

section \<open>Lists split at a separator that one side does not contain\<close>

lemma append_sep_inj:
  assumes "c \<notin> set ys" and "c \<notin> set ys'" and "xs @ c # ys = xs' @ c # ys'"
  shows "xs = xs' \<and> ys = ys'"
  using assms(3,1,2)
proof (induction xs arbitrary: xs')
  case Nil
  then show ?case by (cases xs') auto
next
  case (Cons x xs)
  then show ?case by (cases xs') auto
qed

end
