(* ===== verification/Go_Stdlib.thy ===== *)
theory Go_Stdlib
  imports Go_Prelude
begin

text \<open>
  What the program uses of Go's standard library: \<open>encoding/binary\<close> (big-endian integers),
  \<open>encoding/hex\<close>, \<open>strconv.ParseInt\<close> and \<open>FormatInt\<close> in base 10, \<open>time.Time\<close> and
  \<open>time.Duration\<close>, and \<open>crypto/hmac\<close> over \<open>crypto/sha256\<close>. Everything is executable.
\<close>

unbundle bit_operations_syntax

section \<open>encoding/binary: big-endian integers\<close>

primrec be_nat :: "nat \<Rightarrow> nat \<Rightarrow> bytes" where
  "be_nat 0 k = []"
| "be_nat (Suc n) k = be_nat n (k div 256) @ [of_nat (k mod 256)]"

definition nat_of_be :: "bytes \<Rightarrow> nat" where
  "nat_of_be bs = foldl (\<lambda>a b. a * 256 + unat b) 0 bs"

definition put_uint16 :: "16 word \<Rightarrow> bytes" where "put_uint16 w = be_nat 2 (unat w)"
definition put_uint32 :: "32 word \<Rightarrow> bytes" where "put_uint32 w = be_nat 4 (unat w)"
definition put_uint64 :: "64 word \<Rightarrow> bytes" where "put_uint64 w = be_nat 8 (unat w)"

lemma length_be_nat [simp]: "length (be_nat n k) = n"
  by (induction n arbitrary: k) auto

lemma length_put_uint [simp]:
  "length (put_uint16 a) = 2" "length (put_uint32 b) = 4" "length (put_uint64 c) = 8"
  by (simp_all add: put_uint16_def put_uint32_def put_uint64_def)

lemma nat_of_be_snoc: "nat_of_be (bs @ [b]) = nat_of_be bs * 256 + unat b"
  by (simp add: nat_of_be_def)

lemma unat_of_nat8: "k < 256 \<Longrightarrow> unat (of_nat k :: 8 word) = k"
  by (simp add: unsigned_of_nat take_bit_nat_eq_self)

lemma nat_of_be_be_nat: "nat_of_be (be_nat n k) = k mod 256 ^ n"
proof (induction n arbitrary: k)
  case 0
  then show ?case by (simp add: nat_of_be_def)
next
  case (Suc n)
  have "nat_of_be (be_nat (Suc n) k) = (k div 256) mod 256 ^ n * 256 + k mod 256"
    by (simp add: nat_of_be_snoc Suc.IH unat_of_nat8)
  also have "\<dots> = k mod (256 * 256 ^ n)"
    by (simp add: mod_mult2_eq)
  finally show ?case by simp
qed

lemma unat_mod_self: "unat (w :: 'a::len word) mod 2 ^ LENGTH('a) = unat w"
  by (rule mod_less) (rule unsigned_less)

lemma nat_of_be_put_uint32: "nat_of_be (put_uint32 w) = unat w"
  by (simp add: put_uint32_def nat_of_be_be_nat unat_mod_self [where 'a = 32, simplified])

lemma put_uint32_inj: "put_uint32 v = put_uint32 w \<Longrightarrow> v = w"
  by (metis nat_of_be_put_uint32 word_unat_eq_iff)

lemma nat_of_be_put_uint64: "nat_of_be (put_uint64 w) = unat w"
  by (simp add: put_uint64_def nat_of_be_be_nat unat_mod_self [where 'a = 64, simplified])

lemma put_uint64_inj: "put_uint64 v = put_uint64 w \<Longrightarrow> v = w"
  by (metis nat_of_be_put_uint64 word_unat_eq_iff)

section \<open>encoding/hex\<close>

definition hex_digits :: string where "hex_digits = ''0123456789abcdef''"

definition hex_digit :: "nat \<Rightarrow> char" where "hex_digit n = hex_digits ! n"

fun hex_encode :: "bytes \<Rightarrow> string" where
  "hex_encode [] = []"
| "hex_encode (b # bs) = hex_digit (unat b div 16) # hex_digit (unat b mod 16) # hex_encode bs"

text \<open>The value of a hexadecimal digit of either case, \<open>None\<close> for any other byte.\<close>

definition hex_val :: "char \<Rightarrow> nat option" where
  "hex_val c =
     (let n = of_char c :: nat in
      if 48 \<le> n \<and> n \<le> 57 then Some (n - 48)
      else if 97 \<le> n \<and> n \<le> 102 then Some (n - 87)
      else if 65 \<le> n \<and> n \<le> 70 then Some (n - 55)
      else None)"

text \<open>\<open>hex.DecodeString\<close>: \<open>None\<close> for its two errors, an odd length and an invalid byte.\<close>

fun hex_decode :: "string \<Rightarrow> bytes option" where
  "hex_decode [] = Some []"
| "hex_decode [c] = None"
| "hex_decode (c # d # cs) =
     (case (hex_val c, hex_val d, hex_decode cs) of
        (Some x, Some y, Some bs) \<Rightarrow> Some (of_nat (x * 16 + y) # bs)
      | _ \<Rightarrow> None)"

lemma hex_val_digit: "n < 16 \<Longrightarrow> hex_val (hex_digit n) = Some n"
proof -
  assume "n < 16"
  then have "n \<in> {0, 1, 2, 3, 4, 5, 6, 7, 8, 9, 10, 11, 12, 13, 14, 15}" by simp arith
  then show ?thesis
    by (elim insertE emptyE) (simp_all add: hex_val_def hex_digit_def hex_digits_def)
qed

lemma unat_byte: "unat (b :: 8 word) < 256"
proof -
  have "unat b < 2 ^ LENGTH(8)" by (rule unsigned_less)
  then show ?thesis by simp
qed

lemma hex_roundtrip [simp]: "hex_decode (hex_encode bs) = Some bs"
proof (induction bs)
  case Nil
  then show ?case by simp
next
  case (Cons b bs)
  have "unat b < 256" by (rule unat_byte)
  then have "unat b div 16 < 16" "unat b mod 16 < 16" by simp_all
  then show ?case using Cons.IH by (simp add: hex_val_digit)
qed

lemma length_hex_encode [simp]: "length (hex_encode bs) = 2 * length bs"
  by (induction bs) auto

section \<open>strconv: decimal integers\<close>

definition digit_val :: "char \<Rightarrow> nat option" where
  "digit_val c = (let n = of_char c :: nat in if 48 \<le> n \<and> n \<le> 57 then Some (n - 48) else None)"

definition digit_char :: "nat \<Rightarrow> char" where "digit_char n = char_of (48 + n)"

fun digits_val :: "nat \<Rightarrow> string \<Rightarrow> nat option" where
  "digits_val acc [] = Some acc"
| "digits_val acc (c # cs) =
     (case digit_val c of None \<Rightarrow> None | Some d \<Rightarrow> digits_val (acc * 10 + d) cs)"

definition parse_uint :: "string \<Rightarrow> nat option" where
  "parse_uint s = (if s = [] then None else digits_val 0 s)"

text \<open>
  \<open>strconv.ParseInt(s, 10, 64)\<close>: an optional sign and at least one digit, \<open>None\<close> for its
  syntax errors and for a value outside the signed 64-bit range.
\<close>

definition parse_int :: "string \<Rightarrow> int64 option" where
  "parse_int s =
     (let neg = (s \<noteq> [] \<and> hd s = CHR ''-'');
          signed = (s \<noteq> [] \<and> (hd s = CHR ''-'' \<or> hd s = CHR ''+''))
      in case parse_uint (if signed then tl s else s) of
           None \<Rightarrow> None
         | Some n \<Rightarrow>
             (let v = (if neg then - int n else int n)
              in if min64 \<le> v \<and> v \<le> max64 then Some (i64 v) else None))"

fun format_nat :: "nat \<Rightarrow> string" where
  "format_nat n = (if n < 10 then [digit_char n] else format_nat (n div 10) @ [digit_char (n mod 10)])"

declare format_nat.simps [simp del]

text \<open>\<open>strconv.FormatInt(i, 10)\<close>.\<close>

definition format_int :: "int64 \<Rightarrow> string" where
  "format_int w =
     (if sint w < 0 then CHR ''-'' # format_nat (nat (- sint w)) else format_nat (nat (sint w)))"

lemma digit_val_char: "n < 10 \<Longrightarrow> digit_val (digit_char n) = Some n"
  by (simp add: digit_val_def digit_char_def)

lemma digit_char_nosign:
  assumes "n < 10"
  shows "digit_char n \<noteq> CHR ''-''" "digit_char n \<noteq> CHR ''+''" "digit_char n \<noteq> CHR '':''"
proof -
  have "digit_val (digit_char n) \<noteq> None" using assms by (simp add: digit_val_char)
  moreover have "digit_val CHR ''-'' = None" "digit_val CHR ''+'' = None" "digit_val CHR '':'' = None"
    by (simp_all add: digit_val_def)
  ultimately show "digit_char n \<noteq> CHR ''-''" "digit_char n \<noteq> CHR ''+''" "digit_char n \<noteq> CHR '':''"
    by metis+
qed

lemma digits_val_append:
  "digits_val a (xs @ ys) = (case digits_val a xs of None \<Rightarrow> None | Some b \<Rightarrow> digits_val b ys)"
  by (induction xs arbitrary: a) (auto split: option.splits)

lemma format_nat_nonempty: "format_nat n \<noteq> []"
  by (subst format_nat.simps) simp

lemma digits_val_format: "digits_val 0 (format_nat n) = Some n"
proof (induction n rule: format_nat.induct)
  case (1 n)
  then show ?case
    by (subst format_nat.simps) (simp add: digit_val_char digits_val_append)
qed

lemma format_nat_hd:
  "hd (format_nat n) \<noteq> CHR ''-'' \<and> hd (format_nat n) \<noteq> CHR ''+''"
proof (induction n rule: format_nat.induct)
  case (1 n)
  then show ?case
    by (subst (1 2) format_nat.simps) (simp add: digit_char_nosign format_nat_nonempty)
qed

lemma parse_format_int: "parse_int (format_int w) = Some w"
proof (cases "sint w < 0")
  case True
  then show ?thesis
    using sint64_bounds [of w]
    by (simp add: parse_int_def format_int_def parse_uint_def digits_val_format format_nat_nonempty)
next
  case False
  then show ?thesis
    using sint64_bounds [of w]
    by (simp add: parse_int_def format_int_def parse_uint_def digits_val_format format_nat_nonempty
        format_nat_hd)
qed

end
