(* ===== verification/Go_Time.thy ===== *)
theory Go_Time
  imports Go_Stdlib
begin

text \<open>
  \<open>time.Time\<close> and \<open>time.Duration\<close>. A time is a signed 64-bit count of seconds since year 1
  (the package's internal epoch) and nanoseconds below one second; a duration is a signed
  64-bit count of nanoseconds. \<open>time.Unix\<close> adds the epoch shift with wrap-around, and
  \<open>Sub\<close> saturates at the least and greatest duration, as the package documents.
\<close>

type_synonym duration = int64

record gotime =
  tsec :: int64
  tnsec :: nat

definition unix_to_internal :: int where "unix_to_internal = 62135596800"
definition nanos :: int where "nanos = 1000000000"

definition time_unix :: "int64 \<Rightarrow> gotime" where
  "time_unix ts = \<lparr>tsec = ts + i64 unix_to_internal, tnsec = 0\<rparr>"

text \<open>The method \<open>Unix()\<close>.\<close>

definition unix_of :: "gotime \<Rightarrow> int64" where
  "unix_of t = tsec t - i64 unix_to_internal"

definition total_nanos :: "gotime \<Rightarrow> int" where
  "total_nanos t = sint (tsec t) * nanos + int (tnsec t)"

definition saturate :: "int \<Rightarrow> duration" where
  "saturate x = (if x < min64 then i64 min64 else if max64 < x then i64 max64 else i64 x)"

definition time_sub :: "gotime \<Rightarrow> gotime \<Rightarrow> duration" where
  "time_sub t u = saturate (total_nanos t - total_nanos u)"

definition time_after :: "gotime \<Rightarrow> gotime \<Rightarrow> bool" where
  "time_after t u \<longleftrightarrow> total_nanos u < total_nanos t"

definition seconds :: "int \<Rightarrow> duration" where "seconds n = i64 (n * nanos)"

text \<open>
  What a wall clock returns: nanoseconds below one second and a date between 1970 and the
  242nd century, well inside the range where seconds since 1970 and since year 1 do not wrap.
\<close>

definition wall_clock :: "gotime \<Rightarrow> bool" where
  "wall_clock t \<longleftrightarrow>
     int (tnsec t) < nanos \<and> unix_to_internal < sint (tsec t) \<and> sint (tsec t) < 762135596800"

lemmas time_consts = unix_to_internal_def nanos_def bounds64

lemma sint_saturate:
  "sint (saturate x) = (if x < min64 then min64 else if max64 < x then max64 else x)"
  by (auto simp: saturate_def sint_i64 bounds64)

lemma sint_seconds: "\<bar>n\<bar> \<le> 9000000000 \<Longrightarrow> sint (seconds n) = n * nanos"
  unfolding seconds_def by (rule sint_i64) (auto simp: time_consts)

lemma sint_time_unix:
  assumes "0 \<le> sint ts" and "sint ts \<le> max64 - unix_to_internal"
  shows "sint (tsec (time_unix ts)) = sint ts + unix_to_internal"
proof -
  have "sint (i64 unix_to_internal) = unix_to_internal"
    by (rule sint_i64) (simp_all add: time_consts)
  then show ?thesis
    using assms by (simp add: time_unix_def sint_add64 time_consts)
qed

lemma time_unix_unix_of: "time_unix (unix_of t) = \<lparr>tsec = tsec t, tnsec = 0\<rparr>"
  by (simp add: time_unix_def unix_of_def)

lemma sint_unix_of:
  assumes "wall_clock t"
  shows "sint (unix_of t) = sint (tsec t) - unix_to_internal"
proof -
  have s: "sint (- i64 unix_to_internal) = - unix_to_internal"
    unfolding wi_hom_neg by (rule sint_i64) (simp_all add: time_consts)
  have "unix_of t = tsec t + (- i64 unix_to_internal)" by (simp add: unix_of_def)
  then show ?thesis
    using assms s sint_add64 [of "tsec t" "- i64 unix_to_internal"]
    by (simp add: wall_clock_def time_consts)
qed

lemma total_nanos_unix:
  assumes "0 \<le> sint ts" and "sint ts \<le> max64 - unix_to_internal"
  shows "total_nanos (time_unix ts) = (sint ts + unix_to_internal) * nanos"
  by (simp only: total_nanos_def sint_time_unix [OF assms]) (simp add: time_unix_def)

end
