(* ===== verification/Wire.thy ===== *)
theory Wire
  imports Go_Time
begin

text \<open>
  The wire format of src/proto/pubsub.pb.go: the \<open>Message\<close> struct and the \<open>PubSubScope\<close> enum
  with its name and value tables. Serialisation itself is the protobuf library's.

  \<open>Context\<close> is a slice the code compares with nil, hence an option; the code never tells a
  nil \<open>Payload\<close> from an empty one.
\<close>

datatype PubSubScope = NONE | SEGMENT | PROJECT | ROOT | SEGMENT_AND_ROOT | TO_ROOT

primrec PubSubScope_number :: "PubSubScope \<Rightarrow> nat" where
  "PubSubScope_number NONE = 0"
| "PubSubScope_number SEGMENT = 1"
| "PubSubScope_number PROJECT = 2"
| "PubSubScope_number ROOT = 3"
| "PubSubScope_number SEGMENT_AND_ROOT = 4"
| "PubSubScope_number TO_ROOT = 5"

definition PubSubScope_name :: "nat \<rightharpoonup> string" where
  "PubSubScope_name =
     [0 \<mapsto> ''NONE'', 1 \<mapsto> ''SEGMENT'', 2 \<mapsto> ''PROJECT'', 3 \<mapsto> ''ROOT'',
      4 \<mapsto> ''SEGMENT_AND_ROOT'', 5 \<mapsto> ''TO_ROOT'']"

definition PubSubScope_value :: "string \<rightharpoonup> nat" where
  "PubSubScope_value =
     [''NONE'' \<mapsto> 0, ''SEGMENT'' \<mapsto> 1, ''PROJECT'' \<mapsto> 2, ''ROOT'' \<mapsto> 3,
      ''SEGMENT_AND_ROOT'' \<mapsto> 4, ''TO_ROOT'' \<mapsto> 5]"

lemma scope_tables:
  "Option.bind (PubSubScope_name (PubSubScope_number s)) PubSubScope_value = Some (PubSubScope_number s)"
  by (cases s) (simp_all add: PubSubScope_name_def PubSubScope_value_def)

text \<open>Scopes are ordered by their numbers, as the enum's underlying integers are.\<close>

instantiation PubSubScope :: linorder
begin

definition less_eq_PubSubScope :: "PubSubScope \<Rightarrow> PubSubScope \<Rightarrow> bool" where
  "less_eq_PubSubScope s t \<longleftrightarrow> PubSubScope_number s \<le> PubSubScope_number t"

definition less_PubSubScope :: "PubSubScope \<Rightarrow> PubSubScope \<Rightarrow> bool" where
  "less_PubSubScope s t \<longleftrightarrow> PubSubScope_number s < PubSubScope_number t"

lemma PubSubScope_number_inj: "PubSubScope_number s = PubSubScope_number t \<longleftrightarrow> s = t"
  by (cases s; cases t) simp_all

instance
  by standard (auto simp: less_eq_PubSubScope_def less_PubSubScope_def PubSubScope_number_inj [symmetric])

end

text \<open>A protobuf timestamp: seconds and nanoseconds.\<close>

type_synonym pbtime = "int64 \<times> nat"

record Message =
  Id :: string
  Name :: string
  Segment :: string
  Project :: string
  Ack :: bool
  Sub :: bool
  SubId :: string
  SubPod :: string
  SubModule :: string
  SubBroker :: string
  SubProject :: string
  Scope :: PubSubScope
  Context :: "bytes option"
  Payload :: bytes
  Error :: string
  Timestamp :: "pbtime option"

text \<open>A message with every field at Go's zero value.\<close>

definition zero_message :: Message where
  "zero_message =
     \<lparr>Id = [], Name = [], Segment = [], Project = [], Ack = False, Sub = False, SubId = [],
      SubPod = [], SubModule = [], SubBroker = [], SubProject = [], Scope = NONE, Context = None,
      Payload = [], Error = [], Timestamp = None\<rparr>"

end
