(* ===== verification/Metadata.thy ===== *)
theory Metadata
  imports Wire
begin

text \<open>
  Contexts and what travels in them: package \<open>metadata\<close> (src/metadata/metadata.go), package
  \<open>message\<close> (src/message/context.go) and the helpers of the root package (src/project.go,
  src/segment.go, src/error.go).

  A \<open>context.Context\<close> is its chain of \<open>WithValue\<close> bindings, innermost first; keys of different
  Go types never collide, so the key carries its type as a constructor. A context holds a
  \<^emph>\<open>pointer\<close> to an \<open>MD\<close>, and the code writes through it, so \<open>MD\<close> structs live in an explicit
  store and two contexts may share one.
\<close>

section \<open>Contexts\<close>

datatype ctx_key = StrKey string | MetadataKey string | MessageKey string

text \<open>
  Values: a string, a pointer to an \<open>MD\<close>, a typed message context of the client's type
  parameter \<open>'c\<close>, or a value of another type (whose type assertions all fail).
\<close>

datatype 'c ctx_val = VString string | VMD nat | VCtx 'c | VOther nat

type_synonym 'c ctx = "(ctx_key \<times> 'c ctx_val) list"

definition Background :: "'c ctx" where "Background = []"

definition WithValue :: "'c ctx \<Rightarrow> ctx_key \<Rightarrow> 'c ctx_val \<Rightarrow> 'c ctx" where
  "WithValue ctx k v = (k, v) # ctx"

definition Value :: "'c ctx \<Rightarrow> ctx_key \<Rightarrow> 'c ctx_val option" where
  "Value ctx k = map_of ctx k"

lemma Value_WithValue [simp]:
  "Value (WithValue ctx k v) k' = (if k = k' then Some v else Value ctx k')"
  by (simp add: Value_def WithValue_def)

lemma Value_Background [simp]: "Value Background k = None"
  by (simp add: Value_def Background_def)

text \<open>Package \<open>pubsub\<close>: the project and segment identifiers, \<open>(value, ok)\<close> as in Go.\<close>

definition ctx_string :: "'c ctx \<Rightarrow> string \<Rightarrow> string \<times> bool" where
  "ctx_string ctx k = (case Value ctx (StrKey k) of Some (VString s) \<Rightarrow> (s, True) | _ \<Rightarrow> ([], False))"

definition Project_of :: "'c ctx \<Rightarrow> string \<times> bool" where
  "Project_of ctx = ctx_string ctx ''project''"

definition Segment_of :: "'c ctx \<Rightarrow> string \<times> bool" where
  "Segment_of ctx = ctx_string ctx ''segment''"

definition WithProject :: "'c ctx \<Rightarrow> string \<Rightarrow> 'c ctx" where
  "WithProject ctx project = WithValue ctx (StrKey ''project'') (VString project)"

section \<open>Package metadata\<close>

record MD =
  mdID :: string
  mdProject :: string
  mdSegment :: string
  mdSub :: bool
  mdSubId :: string
  mdSubPod :: string
  mdSubModule :: string
  mdSubBroker :: string
  mdSubProject :: string
  mdError :: "err option"

definition empty_MD :: MD where
  "empty_MD =
     \<lparr>mdID = [], mdProject = [], mdSegment = [], mdSub = False, mdSubId = [], mdSubPod = [],
      mdSubModule = [], mdSubBroker = [], mdSubProject = [], mdError = None\<rparr>"

text \<open>The store of \<open>MD\<close> structs: cells and the next free address.\<close>

record md_store =
  cell :: "nat \<Rightarrow> MD"
  fresh :: nat

definition md_write :: "nat \<Rightarrow> MD \<Rightarrow> md_store \<Rightarrow> md_store" where
  "md_write p md h = h\<lparr>cell := (cell h)(p := md)\<rparr>"

text \<open>A context is allocated when the pointer it holds, if any, is below the free address.\<close>

definition md_allocated :: "'c ctx \<Rightarrow> md_store \<Rightarrow> bool" where
  "md_allocated ctx h = (\<forall>k p. (k, VMD p) \<in> set ctx \<longrightarrow> p < fresh h)"

definition metadata_key :: ctx_key where "metadata_key = MetadataKey ''metadata''"

definition MetaFromContext :: "'c ctx \<Rightarrow> md_store \<Rightarrow> nat \<times> md_store" where
  "MetaFromContext ctx h =
     (case Value ctx metadata_key of
        Some (VMD p) \<Rightarrow> (p, h)
      | _ \<Rightarrow> (fresh h, h\<lparr>cell := (cell h)(fresh h := empty_MD), fresh := Suc (fresh h)\<rparr>))"

definition md_WithContext :: "nat \<Rightarrow> 'c ctx \<Rightarrow> 'c ctx" where
  "md_WithContext p ctx = WithValue ctx metadata_key (VMD p)"

definition FromRecv_MD :: "Message \<Rightarrow> MD \<Rightarrow> MD" where
  "FromRecv_MD msg md =
     (let md = md\<lparr>mdID := Id msg, mdProject := Project msg, mdSegment := Segment msg\<rparr>;
          md = (if Sub msg then
                  md\<lparr>mdSub := Sub msg, mdSubId := Id msg, mdSubPod := SubPod msg,
                     mdSubModule := SubModule msg, mdSubBroker := SubBroker msg,
                     mdSubProject := SubProject msg\<rparr>
                else md)
      in if Error msg \<noteq> [] then md\<lparr>mdError := Some (NewErr (Error msg))\<rparr> else md)"

definition FromRecv :: "'c ctx \<Rightarrow> Message \<Rightarrow> md_store \<Rightarrow> 'c ctx \<times> md_store" where
  "FromRecv ctx msg h =
     (let (p, h) = MetaFromContext ctx h;
          h = md_write p (FromRecv_MD msg (cell h p)) h
      in (md_WithContext p ctx, h))"

definition WithError :: "'c ctx \<Rightarrow> err option \<Rightarrow> md_store \<Rightarrow> 'c ctx \<times> md_store" where
  "WithError ctx e h =
     (let (p, h) = MetaFromContext ctx h;
          h = md_write p ((cell h p)\<lparr>mdError := e\<rparr>) h
      in (md_WithContext p ctx, h))"

text \<open>What a caller reads from a context: the fields behind its pointer.\<close>

definition meta :: "'c ctx \<Rightarrow> md_store \<Rightarrow> MD" where
  "meta ctx h = (let (p, h) = MetaFromContext ctx h in cell h p)"

section \<open>Package message\<close>

text \<open>
  The JSON codec of the client's type parameter and the protobuf timestamp constructor, which
  the program calls but does not contain.
\<close>

record 'c codec =
  marshal :: "'c \<Rightarrow> bytes result"
  unmarshal :: "bytes \<Rightarrow> 'c result"
  pb_timestamp :: "gotime \<Rightarrow> pbtime"

definition message_key :: ctx_key where "message_key = MessageKey ''message''"

definition message_Context :: "'c ctx \<Rightarrow> 'c result" where
  "message_Context ctx =
     (case Value ctx message_key of Some (VCtx c) \<Rightarrow> Inr c | _ \<Rightarrow> Inl ErrMessageContextNotFound)"

definition message_WithContext :: "'c ctx \<Rightarrow> 'c \<Rightarrow> 'c ctx" where
  "message_WithContext ctx c = WithValue ctx message_key (VCtx c)"

definition message_FromRecv :: "'c codec \<Rightarrow> 'c ctx \<Rightarrow> Message \<Rightarrow> 'c ctx" where
  "message_FromRecv cd ctx msg =
     (case Context msg of
        Some b \<Rightarrow> (case unmarshal cd b of
            Inl e \<Rightarrow> ctx
          | Inr c \<Rightarrow> message_WithContext ctx c)
      | None \<Rightarrow> ctx)"

section \<open>Reading back\<close>

lemmas ctx_defs = metadata_key_def message_key_def md_WithContext_def message_WithContext_def

lemma meta_store:
  "meta ctx h = (case Value ctx metadata_key of Some (VMD p) \<Rightarrow> cell h p | _ \<Rightarrow> empty_MD)"
  by (auto simp: meta_def MetaFromContext_def split: option.split ctx_val.split)

lemma meta_md_WithContext [simp]: "meta (md_WithContext p ctx) h = cell h p"
  by (simp add: meta_store md_WithContext_def)

lemma md_write_cell [simp]: "cell (md_write p md h) q = (if q = p then md else cell h q)"
  by (simp add: md_write_def)

lemma MetaFromContext_cases:
  obtains (present) p where "Value ctx metadata_key = Some (VMD p)" "MetaFromContext ctx h = (p, h)"
  | (absent) "\<nexists>p. Value ctx metadata_key = Some (VMD p)"
      "MetaFromContext ctx h =
        (fresh h, h\<lparr>cell := (cell h)(fresh h := empty_MD), fresh := Suc (fresh h)\<rparr>)"
proof (cases "\<exists>p. Value ctx metadata_key = Some (VMD p)")
  case True
  then show ?thesis using present by (auto simp: MetaFromContext_def)
next
  case False
  then show ?thesis using absent
    by (auto simp: MetaFromContext_def split: option.split ctx_val.split)
qed

lemma FromRecv_split:
  "FromRecv ctx msg h =
     (let (p, h) = MetaFromContext ctx h
      in (md_WithContext p ctx, md_write p (FromRecv_MD msg (cell h p)) h))"
  by (simp add: FromRecv_def Let_def case_prod_beta)

lemma meta_MetaFromContext: "MetaFromContext ctx h = (p, h') \<Longrightarrow> cell h' p = meta ctx h"
  by (simp add: meta_def)

lemma meta_FromRecv:
  assumes "FromRecv ctx msg h = (ctx', h')"
  shows "meta ctx' h' = FromRecv_MD msg (meta ctx h)"
proof -
  obtain p g where m: "MetaFromContext ctx h = (p, g)" by force
  have "ctx' = md_WithContext p ctx" "h' = md_write p (FromRecv_MD msg (cell g p)) g"
    using assms by (simp_all add: FromRecv_split m)
  then show ?thesis using meta_MetaFromContext [OF m] by simp
qed

lemma meta_WithError:
  assumes "WithError ctx e h = (ctx', h')"
  shows "meta ctx' h' = (meta ctx h)\<lparr>mdError := e\<rparr>"
proof -
  obtain p g where m: "MetaFromContext ctx h = (p, g)" by force
  have "ctx' = md_WithContext p ctx" "h' = md_write p ((cell g p)\<lparr>mdError := e\<rparr>) g"
    using assms by (simp_all add: WithError_def Let_def m)
  then show ?thesis using meta_MetaFromContext [OF m] by simp
qed

lemma FromRecv_ctx: "FromRecv ctx msg h = (ctx', h') \<Longrightarrow> \<exists>p. ctx' = md_WithContext p ctx"
  by (auto simp: FromRecv_split Let_def case_prod_beta)

lemma Value_FromRecv:
  "FromRecv ctx msg h = (ctx', h') \<Longrightarrow> k \<noteq> metadata_key \<Longrightarrow> Value ctx' k = Value ctx k"
  by (auto dest!: FromRecv_ctx simp: md_WithContext_def)

text \<open>Sharing: a context that holds the pointer the code writes through sees the write.\<close>

lemma FromRecv_shared:
  assumes "Value ctx metadata_key = Some (VMD p)" and "Value ctx0 metadata_key = Some (VMD p)"
    and "FromRecv ctx msg h = (ctx', h')"
  shows "meta ctx0 h' = FromRecv_MD msg (meta ctx0 h)"
proof -
  have "MetaFromContext ctx h = (p, h)" using assms(1) by (simp add: MetaFromContext_def)
  then have "h' = md_write p (FromRecv_MD msg (cell h p)) h" using assms(3) by (simp add: FromRecv_split)
  then show ?thesis using assms(2) by (simp add: meta_store)
qed

end
