(* ===== verification/Callback.thy ===== *)
theory Callback
  imports Wire
begin

text \<open>
  Package \<open>callback\<close> (src/callback/callback.go): response channels keyed by \<open>event:id\<close>.
  A channel is a number. Each operation holds the lock for its whole map access, so it is one
  atomic step; a delivery spawns a goroutine that is blocked in its send until the waiting
  caller receives, so the state carries the pending sends in the order they were spawned.
\<close>

record Callback =
  cb_list :: "string \<rightharpoonup> nat"
  cb_pending :: "(nat \<times> Message) list"

definition Callback_New :: Callback where
  "Callback_New = \<lparr>cb_list = Map.empty, cb_pending = []\<rparr>"

text \<open>\<open>fmt.Sprintf("%s:%s", event, id)\<close>.\<close>

definition cb_id :: "string \<Rightarrow> string \<Rightarrow> string" where
  "cb_id event i = event @ CHR '':'' # i"

definition Callback_Recv :: "Message \<Rightarrow> Callback \<Rightarrow> Callback" where
  "Callback_Recv msg c =
     (case cb_list c (cb_id (Name msg) (SubId msg)) of
        None \<Rightarrow> c
      | Some cb \<Rightarrow> c\<lparr>cb_pending := cb_pending c @ [(cb, msg)]\<rparr>)"

definition Callback_Register :: "string \<Rightarrow> string \<Rightarrow> nat \<Rightarrow> Callback \<Rightarrow> Callback" where
  "Callback_Register event i cb c = c\<lparr>cb_list := (cb_list c)(cb_id event i \<mapsto> cb)\<rparr>"

definition Callback_Unregister :: "string \<Rightarrow> string \<Rightarrow> Callback \<Rightarrow> Callback" where
  "Callback_Unregister event i c = c\<lparr>cb_list := (cb_list c)(cb_id event i := None)\<rparr>"

text \<open>The channel a response named \<open>event\<close> to request \<open>id\<close> is delivered to.\<close>

definition waiting :: "Callback \<Rightarrow> string \<Rightarrow> string \<Rightarrow> nat option" where
  "waiting c event i = cb_list c (cb_id event i)"

text \<open>Request identifiers are UUIDs: hexadecimal digits and dashes, no colon.\<close>

definition plain_id :: "string \<Rightarrow> bool" where
  "plain_id i \<longleftrightarrow> CHR '':'' \<notin> set i"

lemma cb_id_inj:
  "plain_id i \<Longrightarrow> plain_id i' \<Longrightarrow> cb_id event i = cb_id event' i' \<longleftrightarrow> event = event' \<and> i = i'"
  using append_sep_inj [of "CHR '':''" i i' event event'] by (auto simp: cb_id_def plain_id_def)

section \<open>The interface the publisher relies on\<close>

text \<open>
  A registry of waiting callers: a registration is seen under its own event and identifier and
  under no other, a removal removes only it, and a delivery goes to the registered channel
  without changing who waits.
\<close>

locale callback_registry =
  fixes register :: "string \<Rightarrow> string \<Rightarrow> nat \<Rightarrow> 's \<Rightarrow> 's"
    and unregister :: "string \<Rightarrow> string \<Rightarrow> 's \<Rightarrow> 's"
    and deliver :: "Message \<Rightarrow> 's \<Rightarrow> 's"
    and waits :: "'s \<Rightarrow> string \<Rightarrow> string \<Rightarrow> nat option"
    and pending :: "'s \<Rightarrow> (nat \<times> Message) list"
    and valid_id :: "string \<Rightarrow> bool"
  assumes waits_register: "valid_id i \<Longrightarrow> valid_id i' \<Longrightarrow>
      waits (register e i ch s) e' i' = (if e' = e \<and> i' = i then Some ch else waits s e' i')"
    and waits_unregister: "valid_id i \<Longrightarrow> valid_id i' \<Longrightarrow>
      waits (unregister e i s) e' i' = (if e' = e \<and> i' = i then None else waits s e' i')"
    and waits_deliver: "waits (deliver m s) e i = waits s e i"
    and pending_register: "pending (register e i ch s) = pending s"
    and pending_unregister: "pending (unregister e i s) = pending s"
    and pending_deliver: "pending (deliver m s) =
      pending s @ (case waits s (Name m) (SubId m) of None \<Rightarrow> [] | Some ch \<Rightarrow> [(ch, m)])"
begin

lemma deliver_registered:
  assumes "valid_id i" and "valid_id (SubId m)"
  shows "pending (deliver m (register e i ch s)) =
    (if Name m = e \<and> SubId m = i then pending s @ [(ch, m)] else pending (deliver m s))"
  using assms by (simp add: pending_deliver waits_register pending_register)

lemma deliver_unregistered:
  assumes "valid_id i" and "valid_id (SubId m)"
  shows "pending (deliver m (unregister e i s)) =
    (if Name m = e \<and> SubId m = i then pending s else pending (deliver m s))"
  using assms by (simp add: pending_deliver waits_unregister pending_unregister)

lemma delivers_keep_waits: "waits (fold deliver ms s) e i = waits s e i"
  by (induction ms arbitrary: s) (simp_all add: waits_deliver)

text \<open>All that reaches a channel used for one registration only is a response to it.\<close>

lemma delivered_to_channel:
  assumes "\<And>e' i'. waits s e' i' = Some ch \<Longrightarrow> e' = e \<and> i' = i"
    and "ch \<notin> fst ` set (pending s)"
    and "(ch, m) \<in> set (pending (fold deliver ms s))"
  shows "Name m = e \<and> SubId m = i \<and> m \<in> set ms"
  using assms
proof (induction ms rule: rev_induct)
  case Nil
  then show ?case by force
next
  case (snoc x ms)
  let ?s = "fold deliver ms s"
  have w: "waits ?s e' i' = waits s e' i'" for e' i' by (rule delivers_keep_waits)
  from snoc.prems(3) have "(ch, m) \<in> set (pending ?s) \<or>
      waits s (Name x) (SubId x) = Some ch \<and> m = x"
    by (auto simp: pending_deliver w split: option.splits)
  then show ?case using snoc.IH snoc.prems(1,2) by auto
qed

end

interpretation cb: callback_registry Callback_Register Callback_Unregister Callback_Recv waiting cb_pending plain_id
  by unfold_locales
    (auto simp: waiting_def Callback_Register_def Callback_Unregister_def Callback_Recv_def cb_id_inj split: option.splits)

section \<open>Properties\<close>

text \<open>
  A response is delivered to the caller that waits for it and to no other: after
  \<open>Callback_Register event id\<close> a message whose name is \<open>event\<close> and whose \<open>SubId\<close> is \<open>id\<close> goes to the
  registered channel, and any other message is handled as if nothing had been registered.
\<close>

lemma Recv_after_Register:
  assumes "plain_id i" and "plain_id (SubId msg)"
  shows "cb_pending (Callback_Recv msg (Callback_Register event i ch c)) =
    (if Name msg = event \<and> SubId msg = i then cb_pending c @ [(ch, msg)]
     else cb_pending (Callback_Recv msg c))"
  by (rule cb.deliver_registered [OF assms])

lemma Recv_after_Register_witness:
  "cb_pending (Callback_Recv (zero_message\<lparr>Name := ''res'', SubId := ''a-1''\<rparr>) (Callback_Register ''res'' ''a-1'' 7 Callback_New)) =
   [(7, zero_message\<lparr>Name := ''res'', SubId := ''a-1''\<rparr>)]"
  using Recv_after_Register [of "''a-1''" "zero_message\<lparr>Name := ''res'', SubId := ''a-1''\<rparr>" "''res''" 7 Callback_New]
  by (simp add: plain_id_def Callback_New_def)

text \<open>
  After \<open>Callback_Unregister\<close> a late response to that request is dropped, while every other
  response is delivered as before.
\<close>

lemma Recv_after_Unregister:
  assumes "plain_id i" and "plain_id (SubId msg)"
  shows "cb_pending (Callback_Recv msg (Callback_Unregister event i c)) =
    (if Name msg = event \<and> SubId msg = i then cb_pending c else cb_pending (Callback_Recv msg c))"
  by (rule cb.deliver_unregistered [OF assms])

lemma Recv_after_Unregister_witness:
  "cb_pending (Callback_Recv (zero_message\<lparr>Name := ''res'', SubId := ''a-1''\<rparr>)
     (Callback_Unregister ''res'' ''a-1'' (Callback_Register ''res'' ''a-1'' 7 Callback_New))) = []"
  using Recv_after_Unregister [of "''a-1''" "zero_message\<lparr>Name := ''res'', SubId := ''a-1''\<rparr>" "''res''"
      "Callback_Register ''res'' ''a-1'' 7 Callback_New"]
  by (simp add: plain_id_def Callback_New_def Callback_Register_def)

end
