(* ===== verification/Pub.thy ===== *)
theory Pub
  imports Metadata Callback
begin

text \<open>
  Package \<open>pub\<close> (src/pub/pub.go): one event to publish, its translation to a wire message, and
  publishing with and without waiting for a response.

  As in the code, the transport and the callback registry are functions the descriptor was
  given: they are arguments here, with the laws they must keep in the locale \<open>publisher_env\<close>.
  A \<open>Pub\<close> is passed by pointer, and \<open>Sub\<close> sets its \<open>subscribed\<close> flag before sending it.
\<close>

section \<open>The descriptor\<close>

record 'c Pub =
  pID :: string
  pPID :: string
  pName :: string
  pProject :: string
  pPayload :: bytes
  pContext :: "'c ctx"
  pTimestamp :: gotime
  pSubscribed :: bool

text \<open>The four routing fields a reply needs, all of them present or none used.\<close>

definition reply_routed :: "MD \<Rightarrow> bool" where
  "reply_routed md \<longleftrightarrow>
     mdSub md \<and> mdSubPod md \<noteq> [] \<and> mdSubModule md \<noteq> [] \<and> mdSubBroker md \<noteq> [] \<and> mdSubProject md \<noteq> []"

definition GetEvent :: "'c codec \<Rightarrow> 'c Pub \<Rightarrow> md_store \<Rightarrow> Message result" where
  "GetEvent cd p h =
     (let msg = zero_message\<lparr>Id := pID p, Name := pName p, Project := pProject p,
                  Payload := pPayload p, Sub := pSubscribed p,
                  Timestamp := Some (pb_timestamp cd (pTimestamp p))\<rparr>;
          md = meta (pContext p) h;
          msg = (if reply_routed md then
                   msg\<lparr>SubId := mdSubId md, Sub := True, SubPod := mdSubPod md,
                       SubModule := mdSubModule md, SubBroker := mdSubBroker md,
                       SubProject := mdSubProject md\<rparr>
                 else msg)
      in case message_Context (pContext p) of
           Inr msgContext \<Rightarrow> bindE (marshal cd msgContext) (\<lambda>b. Inr (msg\<lparr>Context := Some b\<rparr>))
         | Inl _ \<Rightarrow> Inr msg)"

section \<open>Publishing\<close>

text \<open>
  The three results of \<open>Sub\<close>: a context, a payload and an error, each possibly nil. The wait
  ends with a message on the channel or with the context's error.
\<close>

record 'c sub_result =
  rContext :: "'c ctx option"
  rPayload :: "bytes option"
  rErr :: "err option"

datatype wait_outcome = Received Message | Cancelled err

text \<open>What \<open>Sub\<close> does with the outcome of its \<open>select\<close>.\<close>

definition Sub_select ::
  "'c codec \<Rightarrow> 'c ctx \<Rightarrow> wait_outcome \<Rightarrow> md_store \<Rightarrow> 'c sub_result \<times> md_store" where
  "Sub_select cd ctx out h =
     (case out of
        Cancelled e \<Rightarrow> (\<lparr>rContext = None, rPayload = None, rErr = Some e\<rparr>, h)
      | Received msg \<Rightarrow>
          (let (ctx, h) = FromRecv ctx msg h
           in if Error msg \<noteq> [] then
                (\<lparr>rContext = Some ctx, rPayload = None, rErr = Some (NewErr (Error msg))\<rparr>, h)
              else (case Context msg of
                  Some b \<Rightarrow> (case unmarshal cd b of
                      Inl e \<Rightarrow> (\<lparr>rContext = Some ctx, rPayload = None, rErr = Some e\<rparr>, h)
                    | Inr c \<Rightarrow> (\<lparr>rContext = Some (message_WithContext ctx c),
                                rPayload = Some (Payload msg), rErr = None\<rparr>, h))
                | None \<Rightarrow> (\<lparr>rContext = Some ctx, rPayload = Some (Payload msg), rErr = None\<rparr>, h))))"

text \<open>
  \<open>Sub\<close>: register, send, wait, and unregister on every way out, a panic of the transport
  included; \<open>None\<close> if the transport never returns. \<open>w\<close> is the shared state of the transport and
  the registry; \<open>env\<close> is what the other goroutines do to it and to the \<open>MD\<close> store while the call
  waits, and \<open>await\<close> the outcome of the \<open>select\<close> in the state it leaves.
\<close>

type_synonym ('c, 'w) send_fun = "'c Pub \<Rightarrow> md_store \<Rightarrow> 'w \<Rightarrow> (err option outcome \<times> 'w) option"

definition Pub_Sub ::
  "'c codec \<Rightarrow> ('c, 'w) send_fun \<Rightarrow>
   (string \<Rightarrow> string \<Rightarrow> nat \<Rightarrow> 'w \<Rightarrow> 'w) \<Rightarrow> (string \<Rightarrow> string \<Rightarrow> 'w \<Rightarrow> 'w) \<Rightarrow>
   (md_store \<times> 'w \<Rightarrow> md_store \<times> 'w) \<Rightarrow> ('w \<Rightarrow> wait_outcome) \<Rightarrow>
   string \<Rightarrow> nat \<Rightarrow> 'c Pub \<Rightarrow> md_store \<Rightarrow> 'w \<Rightarrow> ('c sub_result outcome \<times> md_store \<times> 'w) option" where
  "Pub_Sub cd send register unregister env await event msgChan p h w =
     (let p = p\<lparr>pSubscribed := True\<rparr>;
          ctx = pContext p;
          w = register event (pID p) msgChan w
      in case send p h w of
           None \<Rightarrow> None
         | Some (Panics e, w) \<Rightarrow> Some (Panics e, h, unregister event (pID p) w)
         | Some (Returns (Some e), w) \<Rightarrow>
             Some (Returns \<lparr>rContext = None, rPayload = None, rErr = Some e\<rparr>, h,
                   unregister event (pID p) w)
         | Some (Returns None, w) \<Rightarrow>
             (let (h, w) = env (h, w);
                  (r, h) = Sub_select cd ctx (await w) h
              in Some (Returns r, h, unregister event (pID p) w)))"

definition Pub_Do :: "('c, 'w) send_fun \<Rightarrow> ('c, 'w) send_fun" where
  "Pub_Do send p h w = send p h w"

section \<open>Lemmas\<close>

lemma GetEvent_Inr:
  "GetEvent cd p h = Inr msg \<Longrightarrow>
   Id msg = pID p \<and> Name msg = pName p \<and> Project msg = pProject p \<and> Payload msg = pPayload p \<and>
   Error msg = [] \<and> Segment msg = [] \<and> Ack msg = False \<and> Scope msg = NONE \<and>
   Sub msg = (pSubscribed p \<or> reply_routed (meta (pContext p) h)) \<and>
   Context msg = (case message_Context (pContext p) of
       Inl _ \<Rightarrow> None | Inr c \<Rightarrow> (case marshal cd c of Inr b \<Rightarrow> Some b | Inl _ \<Rightarrow> None))"
  by (auto simp: GetEvent_def zero_message_def Let_def go_simps split: sum.splits if_splits)

lemma GetEvent_routing:
  "GetEvent cd p h = Inr msg \<Longrightarrow>
   (SubId msg, SubPod msg, SubModule msg, SubBroker msg, SubProject msg) =
     (if reply_routed (meta (pContext p) h)
      then (let md = meta (pContext p) h
            in (mdSubId md, mdSubPod md, mdSubModule md, mdSubBroker md, mdSubProject md))
      else ([], [], [], [], []))"
  by (auto simp: GetEvent_def zero_message_def Let_def go_simps split: sum.splits if_splits)

lemma GetEvent_fails:
  "GetEvent cd p h = Inl e \<longleftrightarrow> (\<exists>c. message_Context (pContext p) = Inr c \<and> marshal cd c = Inl e)"
  by (auto simp: GetEvent_def Let_def go_simps split: sum.splits if_splits)

lemma Sub_select_ctx:
  "fst (Sub_select cd ctx (Received msg) h) =
     (let ctx' = fst (FromRecv ctx msg h)
      in if Error msg \<noteq> [] then
           \<lparr>rContext = Some ctx', rPayload = None, rErr = Some (NewErr (Error msg))\<rparr>
         else (case Context msg of
             None \<Rightarrow> \<lparr>rContext = Some ctx', rPayload = Some (Payload msg), rErr = None\<rparr>
           | Some b \<Rightarrow> (case unmarshal cd b of
               Inl e \<Rightarrow> \<lparr>rContext = Some ctx', rPayload = None, rErr = Some e\<rparr>
             | Inr c \<Rightarrow> \<lparr>rContext = Some (message_WithContext ctx' c), rPayload = Some (Payload msg),
                         rErr = None\<rparr>)))"
  by (simp add: Sub_select_def Let_def case_prod_beta split: option.split sum.split)

lemma Sub_select_store: "snd (Sub_select cd ctx (Received msg) h) = snd (FromRecv ctx msg h)"
  by (simp add: Sub_select_def Let_def case_prod_beta split: option.split sum.split)

lemma meta_message_WithContext [simp]: "meta (message_WithContext ctx c) h = meta ctx h"
  by (simp add: meta_store ctx_defs)

lemma message_Context_WithContext [simp]:
  "message_Context (message_WithContext ctx c) = Inr c"
  "message_Context (md_WithContext q ctx) = message_Context ctx"
  by (simp_all add: message_Context_def ctx_defs)

lemma reply_routed_upd [simp]:
  "reply_routed (md\<lparr>mdError := e\<rparr>) = reply_routed md"
  "reply_routed (md\<lparr>mdError := e, mdID := i\<rparr>) = reply_routed md"
  by (simp_all add: reply_routed_def)

lemma GetEvent_cong:
  assumes "meta (pContext q) h' = (meta (pContext p) h)\<lparr>mdError := e, mdID := i\<rparr>"
    and "message_Context (pContext q) = message_Context (pContext p)"
    and "q = p\<lparr>pContext := pContext q\<rparr>"
  shows "GetEvent cd q h' = GetEvent cd p h"
proof -
  have f: "pID q = pID p" "pName q = pName p" "pProject q = pProject p" "pPayload q = pPayload p"
    "pSubscribed q = pSubscribed p" "pTimestamp q = pTimestamp p"
    by (subst assms(3), simp)+
  show ?thesis unfolding GetEvent_def Let_def f assms(1,2) by (simp split: sum.split)
qed

section \<open>What a publisher relies on\<close>

text \<open>
  The registry of waiting callers together with a transport that leaves the registrations alone.
\<close>

locale publisher_env = callback_registry +
  fixes send :: "('p, 'a) send_fun"
  assumes send_waits: "send p h s = Some (out, s') \<Longrightarrow> waits s' ev i = waits s ev i"
begin

lemma Pub_Sub_Some:
  assumes "Pub_Sub cd send register unregister env await event ch p h s = Some (r, h', s')"
  obtains out t where "send (p\<lparr>pSubscribed := True\<rparr>) h (register event (pID p) ch s) = Some (out, t)"
    and "s' = unregister event (pID p) (if out = Returns None then snd (env (h, t)) else t)"
  using assms
  by (auto simp: Pub_Sub_def Let_def case_prod_beta split: option.splits outcome.splits)

text \<open>Whatever happened, the caller's own registration is gone when \<open>Sub\<close> is left.\<close>

lemma Sub_unregisters:
  assumes "valid_id (pID p)"
    and "Pub_Sub cd send register unregister env await event ch p h s = Some (r, h', s')"
  shows "waits s' event (pID p) = None"
  by (rule Pub_Sub_Some [OF assms(2)]) (use assms(1) in \<open>simp add: waits_unregister\<close>)

text \<open>The other callers' registrations are left alone, up to what others do meanwhile.\<close>

lemma Sub_keeps_others:
  assumes "valid_id (pID p)" and "valid_id i" and "(e, i) \<noteq> (event, pID p)"
    and "\<And>h s. waits (snd (env (h, s))) e i = waits s e i"
    and "Pub_Sub cd send register unregister env await event ch p h s = Some (r, h', s')"
  shows "waits s' e i = waits s e i"
proof (rule Pub_Sub_Some [OF assms(5)])
  fix out t
  assume snd: "send (p\<lparr>pSubscribed := True\<rparr>) h (register event (pID p) ch s) = Some (out, t)"
    and s': "s' = unregister event (pID p) (if out = Returns None then snd (env (h, t)) else t)"
  have "waits t e i = waits s e i"
    using assms(1-3) by (auto simp: send_waits [OF snd] waits_register)
  moreover have "waits (unregister event (pID p) u) e i = waits u e i" for u
    using assms(1-3) by (auto simp: waits_unregister)
  ultimately show ?thesis using assms(4) by (simp add: s')
qed

text \<open>
  The caller is registered when its message is sent: \<open>Sub\<close> cannot tell the transport from one
  that does something else in every state without the registration.
\<close>

lemma Sub_registers_first:
  assumes "valid_id (pID p)"
  shows "Pub_Sub cd send register unregister env await event ch p h s =
    Pub_Sub cd (\<lambda>q g t. if waits t event (pID p) = Some ch then send q g t else other q g t)
      register unregister env await event ch p h s"
  using assms by (simp add: Pub_Sub_def Let_def waits_register)

end

section \<open>Properties\<close>

text \<open>
  What goes over the wire: \<open>GetEvent\<close> copies identity, name, project and payload, and never
  sets an error or a segment. The reply address is all or nothing: if the context's metadata has
  all four routing fields the message carries them and asks for delivery, otherwise none of them.
  A typed context present in the context is attached in its encoding, and \<open>GetEvent\<close> fails
  exactly if that encoding does.
\<close>

lemma GetEvent_message:
  "(case GetEvent cd p h of
      Inl e \<Rightarrow> \<exists>c. message_Context (pContext p) = Inr c \<and> marshal cd c = Inl e
    | Inr msg \<Rightarrow>
        Id msg = pID p \<and> Name msg = pName p \<and> Project msg = pProject p \<and> Payload msg = pPayload p \<and>
        Error msg = [] \<and> Segment msg = [] \<and>
        Sub msg = (pSubscribed p \<or> reply_routed (meta (pContext p) h)) \<and>
        (SubId msg, SubPod msg, SubModule msg, SubBroker msg, SubProject msg) =
          (if reply_routed (meta (pContext p) h)
           then (let md = meta (pContext p) h
                 in (mdSubId md, mdSubPod md, mdSubModule md, mdSubBroker md, mdSubProject md))
           else ([], [], [], [], [])) \<and>
        (case message_Context (pContext p) of
           Inl _ \<Rightarrow> Context msg = None
         | Inr c \<Rightarrow> (\<exists>b. marshal cd c = Inr b \<and> Context msg = Some b)))"
proof (cases "GetEvent cd p h")
  case (Inl e)
  then show ?thesis using GetEvent_fails [of cd p h e] by simp
next
  case (Inr msg)
  have "\<exists>b. marshal cd c = Inr b" if "message_Context (pContext p) = Inr c" for c
    using that Inr GetEvent_fails [of cd p h] by (cases "marshal cd c") auto
  then show ?thesis
    using GetEvent_Inr [OF Inr] GetEvent_routing [OF Inr] Inr by (auto split: sum.split)
qed

text \<open>
  The typed context survives the journey: if decoding inverts encoding, what the publisher
  put into its context is what a handler, and a caller waiting for a response, find in theirs,
  and that caller gets the payload and no error.
\<close>

lemma message_context_travels:
  assumes "\<And>c b. marshal cd c = Inr b \<Longrightarrow> unmarshal cd b = Inr c"
    and "message_Context (pContext p) = Inr c" and "GetEvent cd p h = Inr msg"
  shows "message_Context (message_FromRecv cd ctx msg) = Inr c \<and>
    (\<exists>ctx'. fst (Sub_select cd ctx (Received msg) h') =
       \<lparr>rContext = Some ctx', rPayload = Some (pPayload p), rErr = None\<rparr> \<and> message_Context ctx' = Inr c)"
proof -
  obtain b where "marshal cd c = Inr b"
    using assms(2,3) GetEvent_fails [of cd p h] by (cases "marshal cd c") auto
  then have "Context msg = Some b" "unmarshal cd b = Inr c" "Error msg = []" "Payload msg = pPayload p"
    using assms GetEvent_Inr [OF assms(3)] by auto
  then show ?thesis by (auto simp: message_FromRecv_def Sub_select_ctx Let_def)
qed

text \<open>A concrete codec: a number as that many bytes.\<close>

definition unary_codec :: "nat codec" where
  "unary_codec = \<lparr>marshal = (\<lambda>n. Inr (replicate n 1)), unmarshal = (\<lambda>b. Inr (length b)),
     pb_timestamp = (\<lambda>t. (unix_of t, tnsec t))\<rparr>"

definition demo_pub :: "nat ctx \<Rightarrow> nat Pub" where
  "demo_pub ctx = \<lparr>pID = ''a-1'', pPID = ''pod'', pName = ''req'', pProject = [], pPayload = [9],
     pContext = ctx, pTimestamp = \<lparr>tsec = i64 63900000000, tnsec = 5\<rparr>, pSubscribed = False\<rparr>"

definition empty_store :: md_store where
  "empty_store = \<lparr>cell = (\<lambda>p. empty_MD), fresh = 0\<rparr>"

lemma unary_codec: "marshal unary_codec c = Inr b \<Longrightarrow> unmarshal unary_codec b = Inr c"
  by (auto simp: unary_codec_def)

lemma message_context_travels_witness:
  "case GetEvent unary_codec (demo_pub (message_WithContext Background 3)) empty_store of
     Inl e \<Rightarrow> False
   | Inr msg \<Rightarrow> message_Context (message_FromRecv unary_codec Background msg) = Inr 3"
proof -
  let ?p = "demo_pub (message_WithContext Background 3)"
  have "\<exists>msg. GetEvent unary_codec ?p empty_store = Inr msg"
    using GetEvent_fails [of unary_codec ?p empty_store]
    by (cases "GetEvent unary_codec ?p empty_store") (auto simp: unary_codec_def)
  then obtain msg where msg: "GetEvent unary_codec ?p empty_store = Inr msg" ..
  have "message_Context (pContext ?p) = Inr 3" by (simp add: demo_pub_def)
  from message_context_travels [OF unary_codec this msg] msg show ?thesis by simp
qed

text \<open>
  Neither an error nor a project put into the context reaches the wire: the message after
  \<open>WithError\<close> and the message after \<open>WithProject\<close> are the ones without, although the context
  reads back both.
\<close>

lemma WithError_not_sent:
  "(case WithError ctx e h of (ctx', h') \<Rightarrow>
      mdError (meta ctx' h') = e \<and>
      GetEvent cd (p\<lparr>pContext := ctx'\<rparr>) h' = GetEvent cd (p\<lparr>pContext := ctx\<rparr>) h) \<and>
   Project_of (WithProject ctx s) = (s, True) \<and>
   GetEvent cd (p\<lparr>pContext := WithProject ctx s\<rparr>) h = GetEvent cd (p\<lparr>pContext := ctx\<rparr>) h"
proof -
  obtain ctx' h' where w: "WithError ctx e h = (ctx', h')" by force
  obtain q where c: "ctx' = md_WithContext q ctx"
    using w by (auto simp: WithError_def Let_def case_prod_beta)
  have "meta ctx' h' = (meta ctx h)\<lparr>mdError := e, mdID := mdID (meta ctx h)\<rparr>"
    using meta_WithError [OF w] by simp
  then have "GetEvent cd (p\<lparr>pContext := ctx'\<rparr>) h' = GetEvent cd (p\<lparr>pContext := ctx\<rparr>) h"
    by (intro GetEvent_cong [where e = e and i = "mdID (meta ctx h)"]) (simp_all add: c)
  moreover have "GetEvent cd (p\<lparr>pContext := WithProject ctx s\<rparr>) h = GetEvent cd (p\<lparr>pContext := ctx\<rparr>) h"
    by (intro GetEvent_cong [where e = "mdError (meta ctx h)" and i = "mdID (meta ctx h)"])
      (simp_all add: meta_store message_Context_def WithProject_def metadata_key_def message_key_def)
  ultimately show ?thesis
    using meta_WithError [OF w] by (simp add: w Project_of_def ctx_string_def WithProject_def)
qed

text \<open>
  C33. What \<open>Sub\<close> returns for a response. An error in it becomes the error result, without
  payload, and is also in the metadata of the context that is still returned. Without one the
  metadata's error is what it was before the call, whether or not the typed context decodes:
  so a caller that got no error never finds a new one there.
\<close>

theorem Sub_result_metadata:
  "case Sub_select cd ctx (Received msg) h of (r, h') \<Rightarrow>
     (\<exists>ctx'. rContext r = Some ctx' \<and> mdID (meta ctx' h') = Id msg \<and>
        mdProject (meta ctx' h') = Project msg \<and> mdSegment (meta ctx' h') = Segment msg \<and>
        mdError (meta ctx' h') =
          (if Error msg = [] then mdError (meta ctx h) else Some (NewErr (Error msg)))) \<and>
     (if Error msg \<noteq> [] then rErr r = Some (NewErr (Error msg)) \<and> rPayload r = None
      else if \<exists>b e. Context msg = Some b \<and> unmarshal cd b = Inl e then rErr r \<noteq> None \<and> rPayload r = None
      else rErr r = None \<and> rPayload r = Some (Payload msg))"
proof -
  obtain ctx' h' where f: "FromRecv ctx msg h = (ctx', h')" by force
  obtain r where s: "Sub_select cd ctx (Received msg) h = (r, h')"
    using Sub_select_store [of cd ctx msg h] f by (cases "Sub_select cd ctx (Received msg) h") simp
  note r = Sub_select_ctx [of cd ctx msg h, unfolded s f fst_conv Let_def]
  have m: "mdID (meta ctx' h') = Id msg" "mdProject (meta ctx' h') = Project msg"
    "mdSegment (meta ctx' h') = Segment msg"
    "mdError (meta ctx' h') = (if Error msg = [] then mdError (meta ctx h) else Some (NewErr (Error msg)))"
    by (simp_all add: meta_FromRecv [OF f] FromRecv_MD_def Let_def)
  show ?thesis
    by (cases "Context msg"; cases "unmarshal cd (the (Context msg))") (simp_all add: s r m)
qed

end
