(* ===== verification/Sha256.thy ===== *)
theory Sha256
  imports Go_Stdlib
begin

text \<open>
  \<open>crypto/sha256\<close> and \<open>crypto/hmac\<close> (FIPS 180-4 and RFC 2104), as the program uses them:
  one-shot digests of whole byte slices. Evaluating \<open>sha256\<close> and
  \<open>hmac_sha256\<close> reproduces the published test vectors; the theorems below use only that a
  digest has 32 bytes and is a function of its arguments.
\<close>

unbundle bit_operations_syntax

type_synonym u32 = "32 word"

definition rotr :: "nat \<Rightarrow> u32 \<Rightarrow> u32" where
  "rotr n x = drop_bit n x OR push_bit (32 - n) x"

definition sha_k :: "u32 list" where
  "sha_k =
    [0x428A2F98, 0x71374491, 0xB5C0FBCF, 0xE9B5DBA5, 0x3956C25B, 0x59F111F1,
     0x923F82A4, 0xAB1C5ED5, 0xD807AA98, 0x12835B01, 0x243185BE, 0x550C7DC3,
     0x72BE5D74, 0x80DEB1FE, 0x9BDC06A7, 0xC19BF174, 0xE49B69C1, 0xEFBE4786,
     0x0FC19DC6, 0x240CA1CC, 0x2DE92C6F, 0x4A7484AA, 0x5CB0A9DC, 0x76F988DA,
     0x983E5152, 0xA831C66D, 0xB00327C8, 0xBF597FC7, 0xC6E00BF3, 0xD5A79147,
     0x06CA6351, 0x14292967, 0x27B70A85, 0x2E1B2138, 0x4D2C6DFC, 0x53380D13,
     0x650A7354, 0x766A0ABB, 0x81C2C92E, 0x92722C85, 0xA2BFE8A1, 0xA81A664B,
     0xC24B8B70, 0xC76C51A3, 0xD192E819, 0xD6990624, 0xF40E3585, 0x106AA070,
     0x19A4C116, 0x1E376C08, 0x2748774C, 0x34B0BCB5, 0x391C0CB3, 0x4ED8AA4A,
     0x5B9CCA4F, 0x682E6FF3, 0x748F82EE, 0x78A5636F, 0x84C87814, 0x8CC70208,
     0x90BEFFFA, 0xA4506CEB, 0xBEF9A3F7, 0xC67178F2]"

type_synonym sha_state = "u32 \<times> u32 \<times> u32 \<times> u32 \<times> u32 \<times> u32 \<times> u32 \<times> u32"

definition sha_init :: sha_state where
  "sha_init = (0x6A09E667, 0xBB67AE85, 0x3C6EF372, 0xA54FF53A,
               0x510E527F, 0x9B05688C, 0x1F83D9AB, 0x5BE0CD19)"

text \<open>The message schedule, kept as the last sixteen words, oldest first.\<close>

definition next_word :: "u32 list \<Rightarrow> u32" where
  "next_word w =
     (let x = w ! 1; y = w ! 14;
          s0 = rotr 7 x XOR rotr 18 x XOR drop_bit 3 x;
          s1 = rotr 17 y XOR rotr 19 y XOR drop_bit 10 y
      in w ! 0 + s0 + w ! 9 + s1)"

fun sha_round :: "sha_state \<Rightarrow> u32 \<Rightarrow> u32 \<Rightarrow> sha_state" where
  "sha_round (a, b, c, d, e, f, g, h) k w =
     (let s1 = rotr 6 e XOR rotr 11 e XOR rotr 25 e;
          ch = (e AND f) XOR (NOT e AND g);
          t1 = h + s1 + ch + k + w;
          s0 = rotr 2 a XOR rotr 13 a XOR rotr 22 a;
          maj = (a AND b) XOR (a AND c) XOR (b AND c);
          t2 = s0 + maj
      in (t1 + t2, a, b, c, d + t1, e, f, g))"

fun sha_rounds :: "u32 list \<Rightarrow> u32 list \<Rightarrow> sha_state \<Rightarrow> sha_state" where
  "sha_rounds [] w s = s"
| "sha_rounds (k # ks) w s = sha_rounds ks (tl w @ [next_word w]) (sha_round s k (w ! 0))"

fun sha_add :: "sha_state \<Rightarrow> sha_state \<Rightarrow> sha_state" where
  "sha_add (a, b, c, d, e, f, g, h) (a', b', c', d', e', f', g', h') =
     (a + a', b + b', c + c', d + d', e + e', f + f', g + g', h + h')"

fun be_words :: "bytes \<Rightarrow> u32 list" where
  "be_words (b0 # b1 # b2 # b3 # bs) = of_nat (nat_of_be [b0, b1, b2, b3]) # be_words bs"
| "be_words _ = []"

definition sha_block :: "sha_state \<Rightarrow> bytes \<Rightarrow> sha_state" where
  "sha_block s bs = sha_add s (sha_rounds sha_k (be_words bs) s)"

definition sha_pad :: "bytes \<Rightarrow> bytes" where
  "sha_pad m =
     (let n = length m
      in m @ 0x80 # replicate ((119 - n mod 64) mod 64) 0 @ be_nat 8 (8 * n))"

primrec sha_blocks :: "nat \<Rightarrow> sha_state \<Rightarrow> bytes \<Rightarrow> sha_state" where
  "sha_blocks 0 s m = s"
| "sha_blocks (Suc n) s m = sha_blocks n (sha_block s (take 64 m)) (drop 64 m)"

fun sha_output :: "sha_state \<Rightarrow> bytes" where
  "sha_output (a, b, c, d, e, f, g, h) = concat (map put_uint32 [a, b, c, d, e, f, g, h])"

definition sha256 :: "bytes \<Rightarrow> bytes" where
  "sha256 m = (let p = sha_pad m in sha_output (sha_blocks (length p div 64) sha_init p))"

text \<open>\<open>hmac.New(sha256.New, key)\<close>, one \<open>Write\<close> and \<open>Sum(nil)\<close>.\<close>

definition hmac_key :: "bytes \<Rightarrow> bytes" where
  "hmac_key k = (let k' = (if 64 < length k then sha256 k else k) in k' @ replicate (64 - length k') 0)"

definition hmac_sha256 :: "bytes \<Rightarrow> bytes \<Rightarrow> bytes" where
  "hmac_sha256 key m =
     (let k = hmac_key key
      in sha256 (map (\<lambda>b. b XOR 0x5C) k @ sha256 (map (\<lambda>b. b XOR 0x36) k @ m)))"

lemma length_sha256 [simp]: "length (sha256 m) = 32"
proof -
  have "length (sha_output s) = 32" for s by (cases s rule: sha_output.cases) simp
  then show ?thesis by (simp add: sha256_def Let_def)
qed

lemma length_hmac_sha256 [simp]: "length (hmac_sha256 k m) = 32"
  by (simp add: hmac_sha256_def Let_def)

lemma length_hmac_key: "length (hmac_key k) = 64"
  by (simp add: hmac_key_def Let_def)

end
