(* ===== verification/Authhmac.thy ===== *)
theory Authhmac
  imports Go_Time Sha256
begin

text \<open>
  Package \<open>authhmac\<close> (src/authhmac/authhmac.go): signed request envelopes with a timestamp
  and a nonce. The clock and the random source are arguments; HMAC-SHA256, hex and decimal
  conversion are the executable library models.
\<close>

section \<open>Data\<close>

record Hmac =
  hSignature :: string
  hNonce :: string
  hTimestamp :: string

record Options =
  Skew :: duration
  TTL :: duration
  Secret :: string

record Authhmac =
  skew :: duration
  ttl :: duration
  secret :: string

definition NewAuth :: "Options \<Rightarrow> Authhmac" where
  "NewAuth opt = \<lparr>skew = Skew opt, ttl = TTL opt, secret = Secret opt\<rparr>"

section \<open>The signed payload\<close>

text \<open>\<open>copy(out[i:i+len(bs)], bs)\<close> and the \<open>Put\<close> functions overwrite a window of the slice.\<close>

definition write_at :: "nat \<Rightarrow> bytes \<Rightarrow> bytes \<Rightarrow> bytes" where
  "write_at i bs out = take i out @ bs @ drop (i + length bs) out"

definition buildPayload :: "bytes \<Rightarrow> int64 \<Rightarrow> string \<Rightarrow> bytes" where
  "buildPayload data ts nonce =
     (let nonceBytes = string_bytes nonce;
          total = 4 + length data + 8 + 2 + length nonceBytes;
          out = replicate total 0;
          i = 0;
          out = write_at i (put_uint32 (of_nat (length data))) out;
          i = i + 4;
          out = write_at i data out;
          i = i + length data;
          out = write_at i (put_uint64 ts) out;
          i = i + 8;
          out = write_at i (put_uint16 (of_nat (length nonceBytes))) out;
          i = i + 2
      in write_at i nonceBytes out)"

section \<open>Generation\<close>

definition generateSignature :: "string \<Rightarrow> bytes \<Rightarrow> string result" where
  "generateSignature sec payload = Inr (hex_encode (hmac_sha256 (string_bytes sec) payload))"

text \<open>\<open>rand n\<close> is the outcome of \<open>rand.Read\<close> on a buffer of \<open>n\<close> bytes.\<close>

definition generateNonce :: "(nat \<Rightarrow> bytes result) \<Rightarrow> int \<Rightarrow> string result" where
  "generateNonce rand sz =
     (let sz = (if sz \<le> 0 then 16 else sz)
      in bindE (rand (nat sz)) (\<lambda>buf. Inr (hex_encode buf)))"

definition Generate ::
  "Authhmac \<Rightarrow> gotime \<Rightarrow> (nat \<Rightarrow> bytes result) \<Rightarrow> bytes \<Rightarrow> Hmac result" where
  "Generate a now rand data =
     (let ts = unix_of now
      in bindE (generateNonce rand 16) (\<lambda>nonce.
         let payload = buildPayload data ts nonce
         in bindE (generateSignature (secret a) payload) (\<lambda>signature.
            Inr \<lparr>hSignature = signature, hNonce = nonce, hTimestamp = format_int ts\<rparr>)))"

section \<open>Validation\<close>

text \<open>
  The skew check: \<open>d < 0\<close> is replaced by its two's complement negation, which leaves the
  least duration as it is.
\<close>

definition check_skew :: "Authhmac \<Rightarrow> gotime \<Rightarrow> gotime \<Rightarrow> err option" where
  "check_skew a now createdAt =
     (if 0 < sint (skew a) then
        (let d = time_sub now createdAt;
             d = (if sint d < 0 then - d else d)
         in if sint (skew a) < sint d then Some (NewErr ''timestamp skew too large'') else None)
      else if time_after createdAt now then Some (NewErr ''timestamp in the future'')
      else None)"

definition check_ttl :: "Authhmac \<Rightarrow> gotime \<Rightarrow> gotime \<Rightarrow> err option" where
  "check_ttl a now createdAt =
     (if 0 < sint (ttl a) then
        (let age = time_sub now createdAt;
             age = (if sint age < 0 then 0 else age)
         in if sint (ttl a) < sint age then Some (NewErr ''request too old'') else None)
      else None)"

definition Validate :: "Authhmac \<Rightarrow> gotime \<Rightarrow> bytes \<Rightarrow> Hmac \<Rightarrow> err option" where
  "Validate a now data req =
     (case parse_int (hTimestamp req) of
        None \<Rightarrow> Some (NewErr ''invalid timestamp'')
      | Some ts \<Rightarrow>
          if sint ts \<le> 0 then Some (NewErr ''invalid timestamp'')
          else (let createdAt = time_unix ts in
            case check_skew a now createdAt of
              Some e \<Rightarrow> Some e
            | None \<Rightarrow>
                (case check_ttl a now createdAt of
                   Some e \<Rightarrow> Some e
                 | None \<Rightarrow>
                     (case hex_decode (hSignature req) of
                        None \<Rightarrow> Some (NewErr ''invalid signature'')
                      | Some sigRaw \<Rightarrow>
                          (let payload = buildPayload data ts (hNonce req);
                               expectedRaw = hmac_sha256 (string_bytes (secret a)) payload
                           in if expectedRaw \<noteq> sigRaw
                              then Some (NewErr ''invalid signature'') else None)))))"


section \<open>The payload format\<close>

lemma write_at_mid:
  "length xs = i \<Longrightarrow> length bs = k \<Longrightarrow>
   write_at i bs (xs @ replicate (k + m) z) = xs @ bs @ replicate m z"
  by (simp add: write_at_def)

lemma buildPayload_concat:
  "buildPayload data ts nonce =
     put_uint32 (of_nat (length data)) @ data @ put_uint64 ts @
     put_uint16 (of_nat (length (string_bytes nonce))) @ string_bytes nonce"
proof -
  define n where "n = length (string_bytes nonce)"
  define h where "h = put_uint32 (of_nat (length data))"
  define l where "l = put_uint16 (of_nat n)"
  have lens: "length h = 4" "length l = 2" by (simp_all add: h_def l_def)
  have 1: "write_at 0 h (replicate (4 + (length data + (8 + (2 + (n + 0))))) 0) =
      h @ replicate (length data + (8 + (2 + (n + 0)))) 0"
    using write_at_mid [of "[]" 0 h 4] lens(1) by (simp only: append_Nil list.size)
  have 2: "write_at 4 data (h @ replicate (length data + (8 + (2 + (n + 0)))) 0) =
      (h @ data) @ replicate (8 + (2 + (n + 0))) 0"
    by (subst write_at_mid) (simp_all add: lens)
  have 3: "write_at (4 + length data) (put_uint64 ts) ((h @ data) @ replicate (8 + (2 + (n + 0))) 0) =
      (h @ data @ put_uint64 ts) @ replicate (2 + (n + 0)) 0"
    by (subst write_at_mid) (simp_all add: lens)
  have 4: "write_at (4 + length data + 8) l ((h @ data @ put_uint64 ts) @ replicate (2 + (n + 0)) 0) =
      (h @ data @ put_uint64 ts @ l) @ replicate (n + 0) 0"
    by (subst write_at_mid) (simp_all add: lens)
  have 5: "write_at (4 + length data + 8 + 2) (string_bytes nonce)
        ((h @ data @ put_uint64 ts @ l) @ replicate (n + 0) 0) =
      (h @ data @ put_uint64 ts @ l @ string_bytes nonce) @ replicate 0 0"
    by (subst write_at_mid) (simp_all add: lens n_def)
  have t: "4 + length data + 8 + 2 + n = 4 + (length data + (8 + (2 + (n + 0))))" by simp
  show ?thesis
    unfolding buildPayload_def Let_def n_def [symmetric] t h_def [symmetric] l_def [symmetric]
    by (simp only: 1 2 3 4 5 add_0) simp
qed

lemma of_nat_word_inj:
  "m < 2 ^ LENGTH('a) \<Longrightarrow> n < 2 ^ LENGTH('a) \<Longrightarrow>
   (of_nat m :: 'a::len word) = of_nat n \<longleftrightarrow> m = n"
  by (metis unat_of_nat mod_less)

lemma buildPayload_inj_aux:
  assumes len: "length data < 2 ^ 32" "length data' < 2 ^ 32"
    and eq: "buildPayload data ts nonce = buildPayload data' ts' nonce'"
  shows "data = data' \<and> ts = ts' \<and> nonce = nonce'"
proof -
  have e: "put_uint32 (of_nat (length data)) = put_uint32 (of_nat (length data'))"
    and r: "data @ put_uint64 ts @ put_uint16 (of_nat (length (string_bytes nonce))) @ string_bytes nonce =
        data' @ put_uint64 ts' @ put_uint16 (of_nat (length (string_bytes nonce'))) @ string_bytes nonce'"
    using eq by (simp_all add: buildPayload_concat)
  from put_uint32_inj [OF e] have "length data = length data'"
    using len of_nat_word_inj [where 'a = 32, of "length data" "length data'"] by simp
  with r have d: "data = data'"
    and r2: "put_uint64 ts @ put_uint16 (of_nat (length (string_bytes nonce))) @ string_bytes nonce =
        put_uint64 ts' @ put_uint16 (of_nat (length (string_bytes nonce'))) @ string_bytes nonce'"
    by simp_all
  from r2 have t: "put_uint64 ts = put_uint64 ts'" and n: "string_bytes nonce = string_bytes nonce'"
    by simp_all
  from d t n show ?thesis by (simp add: put_uint64_inj)
qed

section \<open>The time checks over exact differences\<close>

text \<open>
  What the code of the two checks computes, over \<open>d\<close>, the exact difference in nanoseconds between the
  validation time and the timestamp. This is not what the checks are for: a difference saturates at the
  greatest duration, and the disjunct \<open>d \<le> min64\<close> is let through because negating the least duration
  overflows. For differences that fit a duration the two are one (C4); beyond, they are not (C40).
\<close>

definition skew_passed :: "Authhmac \<Rightarrow> int \<Rightarrow> bool" where
  "skew_passed a d \<longleftrightarrow>
     (if 0 < sint (skew a) then min \<bar>d\<bar> max64 \<le> sint (skew a) \<or> d \<le> min64 else 0 \<le> d)"

definition ttl_passed :: "Authhmac \<Rightarrow> int \<Rightarrow> bool" where
  "ttl_passed a d \<longleftrightarrow> (0 < sint (ttl a) \<longrightarrow> min d max64 \<le> sint (ttl a))"

lemma sint_neg64: "sint (d :: int64) \<noteq> min64 \<Longrightarrow> sint (- d) = - sint d"
proof -
  assume "sint d \<noteq> min64"
  with sint64_bounds [of d] have "min64 \<le> - sint d" "- sint d \<le> max64"
    by (simp_all add: bounds64)
  from sint_i64 [OF this] show ?thesis by simp
qed

lemma neg_min64: "sint (d :: int64) = min64 \<Longrightarrow> sint (- d) = min64"
proof -
  assume "sint d = min64"
  then have "i64 (sint d) = i64 min64" by simp
  then have "d = i64 min64" by simp
  then show ?thesis by (simp add: bounds64)
qed

lemma check_skew_None:
  "check_skew a now c = None \<longleftrightarrow> skew_passed a (total_nanos now - total_nanos c)"
proof -
  define d where "d = total_nanos now - total_nanos c"
  have n: "sint (- saturate d) = (if d \<le> min64 then min64 else if max64 < d then - max64 else - d)"
    using sint_neg64 [of "saturate d"] neg_min64 [of "saturate d"]
    by (auto simp: sint_saturate bounds64)
  have "check_skew a now c = None \<longleftrightarrow>
      (if 0 < sint (skew a)
       then sint (if sint (saturate d) < 0 then - saturate d else saturate d) \<le> sint (skew a)
       else 0 \<le> d)"
    by (auto simp: check_skew_def time_sub_def time_after_def Let_def d_def not_less)
  also have "\<dots> \<longleftrightarrow> skew_passed a d"
    using sint64_bounds [of "skew a"]
    by (auto simp: skew_passed_def n sint_saturate bounds64)
  finally show ?thesis by (simp add: d_def)
qed

lemma check_ttl_None:
  "check_ttl a now c = None \<longleftrightarrow> ttl_passed a (total_nanos now - total_nanos c)"
  using sint64_bounds [of "ttl a"]
  by (auto simp: check_ttl_def ttl_passed_def time_sub_def sint_saturate Let_def bounds64 not_less)

lemma Validate_None:
  "Validate a now data req = None \<longleftrightarrow>
     (\<exists>ts. parse_int (hTimestamp req) = Some ts \<and> 0 < sint ts \<and>
        skew_passed a (total_nanos now - total_nanos (time_unix ts)) \<and>
        ttl_passed a (total_nanos now - total_nanos (time_unix ts)) \<and>
        hex_decode (hSignature req) =
          Some (hmac_sha256 (string_bytes (secret a)) (buildPayload data ts (hNonce req))))"
  by (auto simp: Validate_def Let_def check_skew_None [symmetric] check_ttl_None [symmetric]
      not_le split: option.splits if_splits)

section \<open>What a generated envelope holds\<close>

lemma Generate_Inr:
  "Generate a now rand data = Inr req \<longleftrightarrow>
     (\<exists>buf. rand 16 = Inr buf \<and>
        req = \<lparr>hSignature = hex_encode (hmac_sha256 (string_bytes (secret a))
                 (buildPayload data (unix_of now) (hex_encode buf))),
               hNonce = hex_encode buf, hTimestamp = format_int (unix_of now)\<rparr>)"
  by (auto simp: Generate_def generateNonce_def generateSignature_def Let_def go_simps)

text \<open>
  The window in which an envelope made at \<open>t\<close> is accepted at \<open>t'\<close>: not earlier than \<open>t\<close>,
  and younger by at least one second (the timestamp's resolution) than either limit.
\<close>

definition in_window :: "Authhmac \<Rightarrow> gotime \<Rightarrow> gotime \<Rightarrow> bool" where
  "in_window a t t' \<longleftrightarrow>
     total_nanos t \<le> total_nanos t' \<and>
     (0 < sint (skew a) \<longrightarrow> total_nanos t' - total_nanos t + nanos \<le> sint (skew a)) \<and>
     (0 < sint (ttl a) \<longrightarrow> total_nanos t' - total_nanos t + nanos \<le> sint (ttl a))"

lemma total_nanos_truncated:
  assumes "wall_clock t"
  shows "total_nanos (time_unix (unix_of t)) \<le> total_nanos t"
    and "total_nanos t < total_nanos (time_unix (unix_of t)) + nanos"
  using assms by (simp_all add: total_nanos_def time_unix_unix_of wall_clock_def)

lemma Generate_Validate_complete:
  assumes "wall_clock t" and "in_window a t t'" and "Generate a t rand data = Inr req"
  shows "Validate a t' data req = None"
proof -
  let ?d = "total_nanos t' - total_nanos (time_unix (unix_of t))"
  have pos: "0 < sint (unix_of t)"
    using assms(1) by (simp add: sint_unix_of wall_clock_def)
  have d: "0 \<le> ?d" "?d < total_nanos t' - total_nanos t + nanos"
    using total_nanos_truncated [OF assms(1)] assms(2) by (simp_all add: in_window_def)
  have "skew_passed a ?d" "ttl_passed a ?d"
    using d assms(2) by (auto simp: skew_passed_def ttl_passed_def in_window_def)
  then show ?thesis
    using assms(3) pos by (auto simp: Validate_None Generate_Inr parse_format_int)
qed

lemma Validate_binds:
  assumes "Validate a t d h = None" and "Validate a t' d' h' = None"
    and "hSignature h = hSignature h'"
    and "length d < 2 ^ 32" and "length d' < 2 ^ 32"
  shows "(d = d' \<and> hNonce h = hNonce h' \<and> parse_int (hTimestamp h) = parse_int (hTimestamp h')) \<or>
    (\<exists>ts ts'. parse_int (hTimestamp h) = Some ts \<and> parse_int (hTimestamp h') = Some ts' \<and>
       buildPayload d ts (hNonce h) \<noteq> buildPayload d' ts' (hNonce h') \<and>
       hmac_sha256 (string_bytes (secret a)) (buildPayload d ts (hNonce h)) =
       hmac_sha256 (string_bytes (secret a)) (buildPayload d' ts' (hNonce h')))"
proof -
  obtain ts ts' where ts: "parse_int (hTimestamp h) = Some ts" "parse_int (hTimestamp h') = Some ts'"
    and eq: "hmac_sha256 (string_bytes (secret a)) (buildPayload d ts (hNonce h)) =
       hmac_sha256 (string_bytes (secret a)) (buildPayload d' ts' (hNonce h'))"
    using assms(1-3) by (auto simp: Validate_None)
  show ?thesis
  proof (cases "buildPayload d ts (hNonce h) = buildPayload d' ts' (hNonce h')")
    case True
    from buildPayload_inj_aux [OF assms(4,5) True] ts show ?thesis by simp
  next
    case False
    with ts eq show ?thesis by blast
  qed
qed

section \<open>What the clients of the package rely on\<close>

text \<open>
  Signed envelopes between two parties: what one side signs at a wall-clock time, the other
  accepts within the window, and an accepted envelope is accepted for its own data only up to
  \<open>collides\<close>, the scheme's way to fail.
\<close>

locale envelope_auth =
  fixes sign :: "gotime \<Rightarrow> (nat \<Rightarrow> bytes result) \<Rightarrow> bytes \<Rightarrow> 'h result"
    and check :: "gotime \<Rightarrow> bytes \<Rightarrow> 'h \<Rightarrow> err option"
    and wall :: "gotime \<Rightarrow> bool"
    and window :: "gotime \<Rightarrow> gotime \<Rightarrow> bool"
    and collides :: "bytes \<Rightarrow> bytes \<Rightarrow> 'h \<Rightarrow> bool"
  assumes sign_checked: "wall t \<Longrightarrow> window t t' \<Longrightarrow> sign t r d = Inr h \<Longrightarrow> check t' d h = None"
    and check_binds: "check t d h = None \<Longrightarrow> check t' d' h = None \<Longrightarrow>
      length d < 2 ^ 32 \<Longrightarrow> length d' < 2 ^ 32 \<Longrightarrow> d = d' \<or> collides d d' h"
begin

lemma exchange:
  assumes "wall t1" "window t1 t2" "sign t1 r1 q = Inr h1"
    and "wall t2" "window t2 t3" "sign t2 r2 b = Inr h2"
  shows "check t2 q h1 = None" and "check t3 b h2 = None"
  using assms by (auto intro: sign_checked)

lemma tampered_rejected:
  assumes "wall t" "window t t'" "sign t r d = Inr h" and "d' \<noteq> d" "\<not> collides d d' h"
    and "length d < 2 ^ 32" "length d' < 2 ^ 32"
  shows "check t'' d' h \<noteq> None"
  using check_binds [OF sign_checked [OF assms(1-3)]] assms(4-7) by blast

end

text \<open>Two different payloads with one HMAC, both under the envelope's timestamp and nonce.\<close>

definition hmac_collides :: "Authhmac \<Rightarrow> bytes \<Rightarrow> bytes \<Rightarrow> Hmac \<Rightarrow> bool" where
  "hmac_collides a d d' h \<longleftrightarrow>
     (\<exists>ts. parse_int (hTimestamp h) = Some ts \<and>
        buildPayload d ts (hNonce h) \<noteq> buildPayload d' ts (hNonce h) \<and>
        hmac_sha256 (string_bytes (secret a)) (buildPayload d ts (hNonce h)) =
        hmac_sha256 (string_bytes (secret a)) (buildPayload d' ts (hNonce h)))"

interpretation auth: envelope_auth "Generate a" "Validate a" wall_clock "in_window a" "hmac_collides a"
  for a
proof
  show "Validate a t' d h = None"
    if "wall_clock t" "in_window a t t'" "Generate a t r d = Inr h" for t t' r d h
    by (rule Generate_Validate_complete [OF that])
  show "d = d' \<or> hmac_collides a d d' h"
    if "Validate a t d h = None" "Validate a t' d' h = None" "length d < 2 ^ 32" "length d' < 2 ^ 32"
    for t t' d d' h
    using Validate_binds [OF that(1,2) refl that(3,4)] by (auto simp: hmac_collides_def)
qed

section \<open>Properties\<close>

text \<open>
  A concrete setting for the witnesses: the client's default limits, an authentic clock reading
  of the year 2025 and one ten seconds later, and a random source that returns zeros.
\<close>

definition demo_auth :: Authhmac where
  "demo_auth = NewAuth \<lparr>Skew = seconds 30, TTL = seconds 60, Secret = ''s3cret''\<rparr>"

definition demo_now :: gotime where "demo_now = \<lparr>tsec = i64 63900000000, tnsec = 5\<rparr>"
definition demo_later :: gotime where "demo_later = \<lparr>tsec = i64 63900000010, tnsec = 7\<rparr>"
definition demo_rand :: "nat \<Rightarrow> bytes result" where "demo_rand n = Inr (replicate n 0)"

lemma sint_demo [simp]:
  "sint (tsec demo_now) = 63900000000" "tnsec demo_now = 5"
  "sint (tsec demo_later) = 63900000010" "tnsec demo_later = 7"
  by (simp_all only: demo_now_def demo_later_def gotime.select_convs, simp_all add: sint_i64 bounds64)

lemma demo_limits [simp]:
  "sint (skew demo_auth) = 30000000000" "sint (ttl demo_auth) = 60000000000"
  by (simp_all add: demo_auth_def NewAuth_def sint_seconds nanos_def)

lemma demo_window: "wall_clock demo_now" "in_window demo_auth demo_now demo_later"
  by (simp_all add: wall_clock_def in_window_def total_nanos_def nanos_def unix_to_internal_def)

text \<open>
  The signed payload is the documented serialisation: the data's length as a 32-bit
  big-endian integer, the data, the timestamp as 64 bits, the nonce's length as 16 bits and the
  nonce, although the code assembles it by overwriting windows of one preallocated slice.
\<close>

lemma payload_format:
  "buildPayload data ts nonce =
     put_uint32 (of_nat (length data)) @ data @ put_uint64 ts @
     put_uint16 (of_nat (length nonce)) @ string_bytes nonce"
  using buildPayload_concat by simp

text \<open>
  C3. The payload determines what was signed: for data below 4 GiB, two payloads are equal only
  if data, timestamp and nonce are, so no two requests share a payload.
\<close>

theorem payload_injective:
  assumes "length data < 2 ^ 32" and "length data' < 2 ^ 32"
  shows "buildPayload data ts nonce = buildPayload data' ts' nonce' \<longleftrightarrow>
    data = data' \<and> ts = ts' \<and> nonce = nonce'"
  using buildPayload_inj_aux [OF assms] by blast

theorem payload_injective_witness:
  "buildPayload [1, 2] 7 ''ab'' \<noteq> buildPayload [1] 7 ''ab''"
  using payload_injective [of "[1, 2]" "[1]" 7 "''ab''" 7 "''ab''"] by simp

text \<open>
  C1. What \<open>Generate\<close> signs, \<open>Validate\<close> accepts: an envelope made at a wall-clock time is
  accepted for the same data at any later time that leaves one second to both limits (the
  timestamp is truncated to seconds), whatever the random source returned.
\<close>

theorem Generate_then_Validate:
  assumes "wall_clock t" and "in_window a t t'" and "Generate a t rand data = Inr req"
  shows "Validate a t' data req = None"
  by (rule Generate_Validate_complete [OF assms])

theorem Generate_then_Validate_witness:
  "case Generate demo_auth demo_now demo_rand [1, 2, 3] of
     Inr req \<Rightarrow> Validate demo_auth demo_later [1, 2, 3] req = None
   | Inl e \<Rightarrow> False"
proof -
  have "\<exists>req. Generate demo_auth demo_now demo_rand [1, 2, 3] = Inr req"
    by (simp add: Generate_Inr demo_rand_def)
  then obtain req where req: "Generate demo_auth demo_now demo_rand [1, 2, 3] = Inr req" ..
  show ?thesis
    using Generate_then_Validate [OF demo_window req] req by simp
qed

text \<open>
  C4. \<open>Validate\<close> accepts exactly the requests it is meant to accept, as long as the timestamp lies within
  292 years of the present, so that the difference fits a duration: those whose timestamp is a positive
  decimal 64-bit number, whose drift is at most the skew in either direction (without a skew: which is
  not in the future), whose age is at most the time to live, if there is one, and whose signature is a
  hexadecimal spelling of the HMAC-SHA256 of the payload under the shared secret. Every other request
  gets an error.
\<close>

theorem Validate_accepts_iff:
  assumes "\<And>ts. parse_int (hTimestamp req) = Some ts \<Longrightarrow> 0 < sint ts \<Longrightarrow>
    \<bar>total_nanos now - total_nanos (time_unix ts)\<bar> \<le> max64"
  shows "Validate a now data req = None \<longleftrightarrow>
     (\<exists>ts. parse_int (hTimestamp req) = Some ts \<and> 0 < sint ts \<and>
        (if 0 < sint (skew a) then \<bar>total_nanos now - total_nanos (time_unix ts)\<bar> \<le> sint (skew a)
         else total_nanos (time_unix ts) \<le> total_nanos now) \<and>
        (0 < sint (ttl a) \<longrightarrow> total_nanos now - total_nanos (time_unix ts) \<le> sint (ttl a)) \<and>
        hex_decode (hSignature req) =
          Some (hmac_sha256 (string_bytes (secret a)) (buildPayload data ts (hNonce req))))"
proof -
  have s: "skew_passed a d \<longleftrightarrow> (if 0 < sint (skew a) then \<bar>d\<bar> \<le> sint (skew a) else 0 \<le> d)"
    if "\<bar>d\<bar> \<le> max64" for d
    using that by (auto simp: skew_passed_def bounds64)
  have t: "ttl_passed a d \<longleftrightarrow> (0 < sint (ttl a) \<longrightarrow> d \<le> sint (ttl a))" if "\<bar>d\<bar> \<le> max64" for d
    using that by (auto simp: ttl_passed_def bounds64)
  show ?thesis
    unfolding Validate_None
  proof (intro ex_cong1 conj_cong refl)
    fix ts
    assume ts: "parse_int (hTimestamp req) = Some ts" "0 < sint ts"
    note d = assms [OF ts]
    show "skew_passed a (total_nanos now - total_nanos (time_unix ts)) =
        (if 0 < sint (skew a) then \<bar>total_nanos now - total_nanos (time_unix ts)\<bar> \<le> sint (skew a)
         else total_nanos (time_unix ts) \<le> total_nanos now)"
      unfolding s [OF d] by simp
    show "ttl_passed a (total_nanos now - total_nanos (time_unix ts)) =
        (0 < sint (ttl a) \<longrightarrow> total_nanos now - total_nanos (time_unix ts) \<le> sint (ttl a))"
      by (rule t [OF d])
  qed
qed

text \<open>
  C2. One signature binds one request: if two requests carry the same signature and both are
  accepted, then they agree in data, nonce and timestamp, or their two payloads are a concrete
  HMAC-SHA256 collision under the secret.
\<close>

theorem Validate_signature_binds:
  assumes "Validate a t d h = None" and "Validate a t' d' h' = None"
    and "hSignature h = hSignature h'"
    and "length d < 2 ^ 32" and "length d' < 2 ^ 32"
  shows "(d = d' \<and> hNonce h = hNonce h' \<and> parse_int (hTimestamp h) = parse_int (hTimestamp h')) \<or>
    (\<exists>ts ts'. parse_int (hTimestamp h) = Some ts \<and> parse_int (hTimestamp h') = Some ts' \<and>
       buildPayload d ts (hNonce h) \<noteq> buildPayload d' ts' (hNonce h') \<and>
       hmac_sha256 (string_bytes (secret a)) (buildPayload d ts (hNonce h)) =
       hmac_sha256 (string_bytes (secret a)) (buildPayload d' ts' (hNonce h')))"
  by (rule Validate_binds [OF assms])

text \<open>The envelope that \<open>Generate\<close> makes in the concrete setting.\<close>

definition demo_req :: "bytes \<Rightarrow> Hmac" where
  "demo_req d = (case Generate demo_auth demo_now demo_rand d of
     Inr req \<Rightarrow> req | Inl e \<Rightarrow> \<lparr>hSignature = [], hNonce = [], hTimestamp = []\<rparr>)"

lemma demo_req: "Generate demo_auth demo_now demo_rand d = Inr (demo_req d)"
proof -
  have "\<exists>req. Generate demo_auth demo_now demo_rand d = Inr req"
    by (simp add: Generate_Inr demo_rand_def)
  then show ?thesis by (auto simp: demo_req_def)
qed

lemma demo_req_valid: "Validate demo_auth demo_later d (demo_req d) = None"
  by (rule Generate_Validate_complete [OF demo_window demo_req])

theorem Validate_accepts_iff_witness:
  "Validate demo_auth demo_later [1] (demo_req [1]) = None \<and>
   parse_int (hTimestamp (demo_req [1])) = Some (unix_of demo_now) \<and>
   \<bar>total_nanos demo_later - total_nanos (time_unix (unix_of demo_now))\<bar> \<le> sint (skew demo_auth)"
proof -
  have ts: "parse_int (hTimestamp (demo_req [1])) = Some (unix_of demo_now)"
    using demo_req [of "[1]"] by (auto simp: Generate_Inr parse_format_int)
  have d: "total_nanos demo_later - total_nanos (time_unix (unix_of demo_now)) = 10000000007"
    by (simp add: total_nanos_def time_unix_unix_of demo_later_def demo_now_def sint_i64 time_consts)
  have "\<bar>total_nanos demo_later - total_nanos (time_unix t)\<bar> \<le> max64"
    if "parse_int (hTimestamp (demo_req [1])) = Some t" for t
    using that ts d by (simp add: bounds64)
  from Validate_accepts_iff [where req = "demo_req [1]" and now = demo_later and a = demo_auth and data = "[1]", OF this] demo_req_valid [of "[1]"] ts
  have "if 0 < sint (skew demo_auth)
      then \<bar>total_nanos demo_later - total_nanos (time_unix (unix_of demo_now))\<bar> \<le> sint (skew demo_auth)
      else total_nanos (time_unix (unix_of demo_now)) \<le> total_nanos demo_later" by auto
  moreover have "0 < sint (skew demo_auth)" by (simp add: demo_auth_def NewAuth_def sint_seconds nanos_def)
  ultimately show ?thesis using demo_req_valid ts by simp
qed

theorem Validate_signature_binds_witness:
  "Validate demo_auth demo_later [1, 2, 3] (demo_req [1, 2, 3]) = None \<and>
   hNonce (demo_req [1, 2, 3]) = hNonce (demo_req [1, 2, 3])"
  using Validate_signature_binds [OF demo_req_valid demo_req_valid refl, of "[1, 2, 3]"]
    demo_req_valid by auto

text \<open>
  C39. The skew limit does not bound the future: a correctly signed request whose timestamp lies
  more than 292 years ahead (9223372038 seconds) passes both time checks, because the saturated
  difference is the least duration and its negation overflows to itself.
\<close>

theorem Validate_accepts_far_future:
  assumes "wall_clock now"
    and "sint (unix_of now) + 9223372038 \<le> sint ts" and "sint ts \<le> max64 - unix_to_internal"
    and "0 < sint (skew a)"
  shows "Validate a now data
     \<lparr>hSignature = hex_encode (hmac_sha256 (string_bytes (secret a)) (buildPayload data ts nonce)),
      hNonce = nonce, hTimestamp = format_int ts\<rparr> = None"
proof -
  have pos: "0 < sint ts" and nn: "0 \<le> sint ts"
    using assms(1,2) by (simp_all add: sint_unix_of wall_clock_def)
  have "total_nanos now < (sint (unix_of now) + unix_to_internal + 1) * nanos"
    using assms(1) by (simp add: sint_unix_of [OF assms(1)] total_nanos_def wall_clock_def algebra_simps)
  then have d: "total_nanos now - total_nanos (time_unix ts) \<le> min64"
    unfolding total_nanos_unix [OF nn assms(3)]
    using assms(2) by (simp add: time_consts)
  then show ?thesis
    using assms(4) pos
    by (simp add: Validate_None parse_format_int skew_passed_def ttl_passed_def bounds64)
qed

theorem Validate_accepts_far_future_witness:
  "Validate demo_auth demo_now [1]
     \<lparr>hSignature = hex_encode (hmac_sha256 (string_bytes (secret demo_auth))
        (buildPayload [1] (i64 20000000000) ''n'')),
      hNonce = ''n'', hTimestamp = format_int (i64 20000000000)\<rparr> = None"
proof -
  have "sint (unix_of demo_now) = 1764403200"
    using sint_unix_of [OF demo_window(1)] by (simp add: unix_to_internal_def)
  moreover have "sint (i64 20000000000) = 20000000000"
    by (rule sint_i64) (simp_all add: bounds64)
  ultimately show ?thesis
    using Validate_accepts_far_future [OF demo_window(1), of "i64 20000000000" demo_auth "[1]" "''n''"]
    by (simp add: time_consts)
qed

end
