(* ===== verification/Backoff.thy ===== *)
theory Backoff
  imports Go_Prelude
begin

text \<open>
  The two retry delays: \<open>httpclient.Fibo\<close> (src/httpclient/utils.go) and \<open>broker.fibo\<close>
  (src/broker/utils.go), the least Fibonacci number above the attempt, capped. Both run the same
  loop over 64-bit \<open>int\<close>s, whose addition wraps; the loop is a partial function, \<open>None\<close> where
  it does not end. The locale \<open>backoff\<close> states what the retry loops rely on.
\<close>

section \<open>The code\<close>

partial_function (option) fib_loop :: "int64 \<Rightarrow> int64 \<Rightarrow> int64 \<Rightarrow> int64 option" where
  "fib_loop attempt a b =
     (if sint b \<le> sint attempt then fib_loop attempt b (a + b) else Some b)"

definition Fibo :: "int64 \<Rightarrow> int64 option" where
  "Fibo attempt =
     (let attempt = (if sint attempt < 0 then 0 else attempt)
      in map_option (\<lambda>b. if 16 < sint b then 16 else b) (fib_loop attempt 1 1))"

definition durationMax :: int64 where "durationMax = 24"

definition fibo :: "int64 \<Rightarrow> int64 option" where
  "fibo attempt =
     (let attempt = (if sint attempt < 0 then 0 else attempt)
      in map_option (\<lambda>b. if sint durationMax < sint b then durationMax else b) (fib_loop attempt 1 1))"

section \<open>Fibonacci numbers\<close>

fun fib :: "nat \<Rightarrow> nat" where
  "fib 0 = 1"
| "fib (Suc 0) = 1"
| "fib (Suc (Suc n)) = fib n + fib (Suc n)"

lemma fib_pos: "0 < fib n"
  by (induction n rule: fib.induct) auto

lemma fib_le_Suc: "fib n \<le> fib (Suc n)"
  by (cases n) auto

lemma fib_mono: "m \<le> n \<Longrightarrow> fib m \<le> fib n"
  by (rule lift_Suc_mono_le [of fib, OF fib_le_Suc])

definition least_fib_above :: "int \<Rightarrow> nat \<Rightarrow> bool" where
  "least_fib_above n r \<longleftrightarrow>
     r \<in> range fib \<and> n < int r \<and> (\<forall>i. n < int (fib i) \<longrightarrow> r \<le> fib i)"

text \<open>
  The loop from two consecutive Fibonacci numbers: below \<open>2 ^ 62\<close> no addition overflows, each
  turn raises \<open>b\<close>, and it stops at the first Fibonacci number above the attempt.
\<close>

lemma fib_loop_finds:
  assumes "sint attempt < 2 ^ 62" and "sint a = int (fib k)" and "sint b = int (fib (Suc k))"
    and "\<And>i. sint attempt < int (fib i) \<Longrightarrow> fib (Suc k) \<le> fib i"
  shows "\<exists>r w. fib_loop attempt a b = Some w \<and> sint w = int r \<and> least_fib_above (sint attempt) r"
  using assms(2-4)
proof (induction "nat (sint attempt + 1 - sint b)" arbitrary: a b k rule: less_induct)
  case less
  show ?case
  proof (cases "sint b \<le> sint attempt")
    case False
    then show ?thesis
      using less.prems by (subst fib_loop.simps) (auto simp: least_fib_above_def)
  next
    case True
    have pos: "0 < sint a" and le: "sint a \<le> sint b"
      using less.prems(1,2) fib_pos [of k] fib_le_Suc [of k] by simp_all
    have sum: "sint (a + b) = sint a + sint b"
      by (rule sint_add64) (use True pos le assms(1) in \<open>simp_all add: bounds64\<close>)
    have next_least: "fib (Suc (Suc k)) \<le> fib i" if "sint attempt < int (fib i)" for i
    proof (rule fib_mono, rule ccontr)
      assume "\<not> Suc (Suc k) \<le> i"
      then have "fib i \<le> fib (Suc k)" by (intro fib_mono) simp
      with that True less.prems(2) show False by simp
    qed
    have "\<exists>r w. fib_loop attempt b (a + b) = Some w \<and> sint w = int r \<and> least_fib_above (sint attempt) r"
    proof (rule less.hyps)
      show "nat (sint attempt + 1 - sint (a + b)) < nat (sint attempt + 1 - sint b)"
        using True pos sum by simp
      show "sint b = int (fib (Suc k))" by fact
      show "sint (a + b) = int (fib (Suc (Suc k)))" using sum less.prems by simp
    qed (rule next_least)
    with True show ?thesis by (subst fib_loop.simps) simp
  qed
qed

lemma fib_loop_start:
  assumes "sint attempt < 2 ^ 62"
  shows "\<exists>r w. fib_loop attempt 1 1 = Some w \<and> sint w = int r \<and> least_fib_above (sint attempt) r"
proof (rule fib_loop_finds [OF assms, of 1 0 1])
  fix i show "fib (Suc 0) \<le> fib i" using fib_pos [of i] by simp
qed simp_all

text \<open>From \<open>b\<close> alone: the loop never returns a value that does not exceed the attempt.\<close>

lemma fib_loop_above: "fib_loop attempt a b = Some r \<Longrightarrow> sint attempt < sint r"
proof (rule fib_loop.raw_induct [where P = "\<lambda>attempt a b r. sint attempt < sint r"])
  fix f attempt a b r
  assume "\<And>attempt a b r. f attempt a b = Some r \<Longrightarrow> sint attempt < sint r"
    and "(if sint b \<le> sint attempt then f attempt b (a + b) else Some b) = Some r"
  then show "sint attempt < sint r" by (auto split: if_splits)
qed

section \<open>What the retry loops rely on\<close>

text \<open>
  \<open>delay n\<close> is the next delay after \<open>n\<close>: it always exists, is at least one and at most the
  cap, grows while it is below the cap and then stays there.
\<close>

locale backoff =
  fixes delay :: "int64 \<Rightarrow> int64 option" and cap :: int
  assumes delay_total: "sint n < 2 ^ 62 \<Longrightarrow> \<exists>d. delay n = Some d"
    and delay_pos: "sint n < 2 ^ 62 \<Longrightarrow> delay n = Some d \<Longrightarrow> 1 \<le> sint d"
    and delay_cap: "sint n < 2 ^ 62 \<Longrightarrow> delay n = Some d \<Longrightarrow> sint d \<le> cap"
    and delay_grows: "sint n < cap \<Longrightarrow> delay n = Some d \<Longrightarrow> sint n < sint d"
    and delay_stays: "sint n < 2 ^ 62 \<Longrightarrow> cap \<le> sint n \<Longrightarrow> delay n = Some d \<Longrightarrow> sint d = cap"
    and cap_range: "1 \<le> cap" "cap < 2 ^ 62"

primrec iterate_delay :: "(int64 \<Rightarrow> int64 option) \<Rightarrow> nat \<Rightarrow> int64 \<Rightarrow> int64 option" where
  "iterate_delay delay 0 d = Some d"
| "iterate_delay delay (Suc k) d = Option.bind (iterate_delay delay k d) delay"

primrec total_delay :: "(int64 \<Rightarrow> int64 option) \<Rightarrow> nat \<Rightarrow> int option" where
  "total_delay delay 0 = Some 0"
| "total_delay delay (Suc k) =
     (case (total_delay delay k, delay (of_nat (Suc k))) of
        (Some t, Some d) \<Rightarrow> Some (t + sint d) | _ \<Rightarrow> None)"

context backoff begin

lemma iterate_in_range:
  assumes "0 \<le> sint d" and "sint d \<le> cap"
  shows "\<exists>e. iterate_delay delay k d = Some e \<and> sint d \<le> sint e \<and> sint e \<le> cap \<and>
    (sint e = cap \<or> sint d + int k \<le> sint e)"
proof (induction k)
  case 0
  then show ?case using assms by simp
next
  case (Suc k)
  then obtain e where e: "iterate_delay delay k d = Some e" "sint d \<le> sint e" "sint e \<le> cap"
    "sint e = cap \<or> sint d + int k \<le> sint e" by blast
  have r: "sint e < 2 ^ 62" using e(3) cap_range(2) by simp
  then obtain f where f: "delay e = Some f" using delay_total by blast
  have "sint f \<le> cap" by (rule delay_cap [OF r f])
  moreover have "sint e < cap \<Longrightarrow> sint e < sint f" by (rule delay_grows [OF _ f])
  moreover have "cap \<le> sint e \<Longrightarrow> sint f = cap" by (rule delay_stays [OF r _ f])
  ultimately have "sint f = cap \<or> sint e < sint f \<and> sint f \<le> cap" by linarith
  with e(2-4) have "sint d \<le> sint f \<and> sint f \<le> cap \<and> (sint f = cap \<or> sint d + int (Suc k) \<le> sint f)"
    by auto
  with e(1) f show ?case by simp
qed

lemma iterate_reaches_cap:
  assumes "0 \<le> sint d" and "sint d \<le> cap" and "cap \<le> int k"
  shows "\<exists>e. iterate_delay delay k d = Some e \<and> sint e = cap"
  using iterate_in_range [OF assms(1,2), of k] assms(1,3) by auto

lemma total_delay_bounds:
  assumes "k < 2 ^ 61"
  shows "\<exists>t. total_delay delay k = Some t \<and> int k \<le> t \<and> t \<le> int k * cap"
  using assms
proof (induction k)
  case 0
  then show ?case by simp
next
  case (Suc k)
  then obtain t where t: "total_delay delay k = Some t" "int k \<le> t" "t \<le> int k * cap" by auto
  have "sint (of_nat (Suc k) :: int64) = int (Suc k)"
    using sint_i64 [of "int (Suc k)"] Suc.prems by (simp add: bounds64)
  then have r: "sint (of_nat (Suc k) :: int64) < 2 ^ 62" using Suc.prems by simp
  then obtain d where d: "delay (of_nat (Suc k)) = Some d" using delay_total by blast
  from delay_pos [OF r d] delay_cap [OF r d] t d show ?case by (simp add: algebra_simps)
qed

end

section \<open>Both delays provide it\<close>

lemma capped_delay:
  assumes attempt: "sint attempt < 2 ^ 62" and cap: "1 \<le> sint cap"
  shows "\<exists>r w. map_option (\<lambda>b. if sint cap < sint b then cap else b)
      (fib_loop (if sint attempt < 0 then 0 else attempt) 1 1) = Some w \<and>
    least_fib_above (max 0 (sint attempt)) r \<and> sint w = min (sint cap) (int r)"
proof -
  let ?n = "if sint attempt < 0 then 0 else attempt"
  have n: "sint ?n = max 0 (sint attempt)" by simp
  then have "sint ?n < 2 ^ 62" using attempt by simp
  from fib_loop_start [OF this] obtain r w where
    "fib_loop ?n 1 1 = Some w" "sint w = int r" "least_fib_above (sint ?n) r" by blast
  then show ?thesis unfolding n by auto
qed

lemma Fibo_least:
  "sint n < 2 ^ 62 \<Longrightarrow>
   \<exists>r w. Fibo n = Some w \<and> least_fib_above (max 0 (sint n)) r \<and> sint w = min 16 (int r)"
  using capped_delay [of n 16] by (simp add: Fibo_def Let_def)

lemma sint_durationMax [simp]: "sint durationMax = 24"
  by (simp add: durationMax_def)

lemma fibo_least:
  "sint n < 2 ^ 62 \<Longrightarrow>
   \<exists>r w. fibo n = Some w \<and> least_fib_above (max 0 (sint n)) r \<and> sint w = min 24 (int r)"
  unfolding fibo_def Let_def sint_durationMax [symmetric]
  by (rule capped_delay) simp_all

lemma backoff_from_least:
  assumes least: "\<And>n. sint n < 2 ^ 62 \<Longrightarrow>
      \<exists>r w. delay n = Some w \<and> least_fib_above (max 0 (sint n)) r \<and> sint w = min cap (int r)"
    and cap: "1 \<le> cap" "cap < 2 ^ 62"
  shows "backoff delay cap"
proof
  show "\<exists>d. delay n = Some d" if "sint n < 2 ^ 62" for n using least [OF that] by blast
  show "1 \<le> sint d" if "sint n < 2 ^ 62" "delay n = Some d" for n d
    using least [OF that(1)] that(2) cap by (auto simp: least_fib_above_def)
  show "sint d \<le> cap" if "sint n < 2 ^ 62" "delay n = Some d" for n d
    using least [OF that(1)] that(2) by auto
  show "sint n < sint d" if "sint n < cap" "delay n = Some d" for n d
    using least [of n] that cap by (auto simp: least_fib_above_def)
  show "sint d = cap" if "sint n < 2 ^ 62" "cap \<le> sint n" "delay n = Some d" for n d
    using least [OF that(1)] that(2,3) by (auto simp: least_fib_above_def)
qed (use cap in simp_all)

interpretation http_backoff: backoff Fibo 16
  by (rule backoff_from_least [OF Fibo_least]) simp_all

interpretation broker_backoff: backoff fibo 24
  by (rule backoff_from_least [OF fibo_least]) simp_all

section \<open>Properties\<close>

text \<open>
  C34. \<open>Fibo\<close> and \<open>fibo\<close> always return below \<open>2 ^ 62\<close>, and their result is the least
  Fibonacci number above the attempt (above zero for a negative one), capped at 16 and at 24.
\<close>

theorem fibo_least_capped:
  assumes "sint attempt < 2 ^ 62"
  shows "\<exists>r d e. least_fib_above (max 0 (sint attempt)) r \<and>
    Fibo attempt = Some d \<and> sint d = min 16 (int r) \<and>
    fibo attempt = Some e \<and> sint e = min 24 (int r)"
proof -
  obtain r d where d: "Fibo attempt = Some d" "least_fib_above (max 0 (sint attempt)) r"
    "sint d = min 16 (int r)" using Fibo_least [OF assms] by blast
  obtain q e where e: "fibo attempt = Some e" "least_fib_above (max 0 (sint attempt)) q"
    "sint e = min 24 (int q)" using fibo_least [OF assms] by blast
  have "r = q" using d(2) e(2) by (auto simp: least_fib_above_def intro: antisym)
  with d e show ?thesis by blast
qed

theorem fibo_least_capped_witness:
  "\<exists>r d e. least_fib_above 13 r \<and> Fibo 13 = Some d \<and> sint d = min 16 (int r) \<and>
    fibo 13 = Some e \<and> sint e = min 24 (int r)"
  using fibo_least_capped [of 13] by simp

text \<open>
  At the largest \<open>int\<close> no value exceeds the attempt, and the loop of \<open>Fibo\<close> and \<open>fibo\<close>
  never ends.
\<close>

lemma fibo_diverges_at_max: "Fibo (i64 max64) = None \<and> fibo (i64 max64) = None"
proof -
  have m: "sint (i64 max64) = max64" by (rule sint_i64) (simp_all add: bounds64)
  have "fib_loop (i64 max64) a b = None" for a b
  proof (cases "fib_loop (i64 max64) a b")
    case (Some r)
    from fib_loop_above [OF this] have "max64 < sint r" unfolding m .
    with sint64_bounds(2) [of r] show ?thesis by linarith
  qed
  moreover have "\<not> max64 < 0" by (simp add: bounds64)
  ultimately show ?thesis by (simp add: Fibo_def fibo_def Let_def m)
qed

end
