(* ===== verification/Broker.thy ===== *)
theory Broker
  imports Pub Authhmac Backoff
begin

text \<open>
  Package \<open>broker\<close>, one connection: the struct and its operations (src/broker/broker.go), the
  certificate path (src/broker/file.go) and the authenticating interceptor
  (src/broker/interceptor.go). Theory \<open>Broker_Lifecycle\<close> runs them as the goroutines of
  \<open>Start\<close> do.

  A cancellable context is the number of the \<open>Start\<close> call that created it, and so is the stream
  that call opens; \<open>bCancelled\<close> are the contexts cancelled so far. The gRPC library, the file
  system and the functions the client installs are arguments.
\<close>

section \<open>The struct\<close>

record Broker =
  bID :: string
  bHost :: string
  bPort :: int64
  bInsecure :: bool
  duration :: int64
  bContext :: "nat option"
  bCancel :: "nat option"
  connected :: bool
  resetDone :: bool
  stream :: "nat option"
  overstayCount :: int
  certPath :: string
  bStarts :: nat
  bCancelled :: "nat set"

text \<open>A broker as decoded from the server's response: identity and address, all else zero.\<close>

definition new_broker :: "string \<Rightarrow> string \<Rightarrow> int64 \<Rightarrow> bool \<Rightarrow> Broker" where
  "new_broker i host port ins =
     \<lparr>bID = i, bHost = host, bPort = port, bInsecure = ins, duration = 0, bContext = None,
      bCancel = None, connected = False, resetDone = False, stream = None, overstayCount = 0,
      certPath = [], bStarts = 0, bCancelled = {}\<rparr>"

definition overstayAttempts :: int where "overstayAttempts = 2"

definition SetCertPath :: "string \<Rightarrow> Broker \<Rightarrow> Broker" where
  "SetCertPath crt b = b\<lparr>certPath := crt\<rparr>"

definition cancel_ctx :: "nat option \<Rightarrow> Broker \<Rightarrow> Broker" where
  "cancel_ctx c b = (case c of None \<Rightarrow> b | Some k \<Rightarrow> b\<lparr>bCancelled := insert k (bCancelled b)\<rparr>)"

definition Broker_Done :: "Broker \<Rightarrow> Broker" where
  "Broker_Done b = cancel_ctx (bCancel b) b"

section \<open>Sending\<close>

definition Broker_Send ::
  "'c codec \<Rightarrow> (nat \<Rightarrow> Message \<Rightarrow> err option) \<Rightarrow> 'c Pub \<Rightarrow> md_store \<Rightarrow> Broker \<Rightarrow> err option outcome" where
  "Broker_Send cd stream_send p h b =
     (if \<not> connected b then Returns (Some ErrBrokerDisconnected)
      else case GetEvent cd p h of
          Inl e \<Rightarrow> Returns (Some e)
        | Inr msg \<Rightarrow> (case stream b of
              None \<Rightarrow> Panics NilDereference
            | Some s \<Rightarrow> Returns (stream_send s msg)))"

section \<open>Starting a connection\<close>

text \<open>The locked prologue of \<open>Start\<close>: cancel the previous context, install a new one.\<close>

definition Start_begin :: "Broker \<Rightarrow> nat \<times> Broker" where
  "Start_begin b =
     (let b = cancel_ctx (bCancel b) b; ctx = bStarts b
      in (ctx, b\<lparr>bStarts := Suc ctx, bContext := Some ctx, bCancel := Some ctx\<rparr>))"

text \<open>The epilogue of \<open>Start\<close>, before \<open>DisconnectFunc\<close>.\<close>

definition Start_end :: "Broker \<Rightarrow> Broker" where
  "Start_end b = b\<lparr>connected := False, stream := None\<rparr>"

section \<open>Incoming messages\<close>

definition handleRecv :: "'c codec \<Rightarrow> Message \<Rightarrow> md_store \<Rightarrow> ('c ctx \<times> Message) \<times> md_store" where
  "handleRecv cd msg h =
     (let (ctx, h) = FromRecv Background msg h;
          ctx = message_FromRecv cd ctx msg
      in ((ctx, msg), h))"

text \<open>\<open>"_.ready"\<close> on the stream of \<open>Start\<close> call \<open>s\<close>, before \<open>ConnectFunc\<close>.\<close>

definition on_ready :: "nat \<Rightarrow> Broker \<Rightarrow> Broker" where
  "on_ready s b = b\<lparr>duration := 0, overstayCount := 0, connected := True, stream := Some s\<rparr>"

text \<open>
  \<open>"_.reset"\<close>: mark the broker done and acknowledge on the broker's current stream (the stream
  is given, with the message, before \<open>ResetFunc\<close> is called); a nil stream panics.
\<close>

definition reset_success :: "string \<Rightarrow> pbtime \<Rightarrow> Message" where
  "reset_success uuid now =
     zero_message\<lparr>Id := uuid, Name := ''_.reset.success'', Timestamp := Some now\<rparr>"

definition initResetProcess ::
  "string \<Rightarrow> pbtime \<Rightarrow> Broker \<Rightarrow> Broker \<times> (nat \<times> Message) outcome" where
  "initResetProcess uuid now b =
     (let b = b\<lparr>resetDone := True\<rparr>
      in (b, case stream b of
               None \<Rightarrow> Panics NilDereference
             | Some s \<Rightarrow> Returns (s, reset_success uuid now)))"

section \<open>Reconnecting\<close>

datatype restart_result =
    GaveUp                   \<comment> \<open>the attempt limit is exceeded\<close>
  | Delegated                \<comment> \<open>\<open>OwerstayingFunc\<close> took over\<close>
  | Skipped                  \<comment> \<open>no context, a cancelled one, or the broker is done\<close>
  | WaitFor int64 nat        \<comment> \<open>sleep that many seconds or until the context ends, then \<open>Start\<close>\<close>
  | Diverges                 \<comment> \<open>\<open>fibo\<close> does not return\<close>

definition restart_tail :: "Broker \<Rightarrow> Broker \<times> restart_result" where
  "restart_tail b =
     (case bContext b of
        None \<Rightarrow> (b, Skipped)
      | Some ctx \<Rightarrow>
          if ctx \<in> bCancelled b \<or> resetDone b then (b, Skipped)
          else (case fibo (duration b) of
              None \<Rightarrow> (b, Diverges)
            | Some d \<Rightarrow> (b\<lparr>duration := d\<rparr>, WaitFor d ctx)))"

text \<open>\<open>over\<close> is what \<open>OwerstayingFunc\<close> returns if it is called.\<close>

definition restart :: "bool \<Rightarrow> Broker \<Rightarrow> Broker \<times> restart_result" where
  "restart over b =
     (if duration b = durationMax then
        (let b = b\<lparr>overstayCount := overstayCount b + 1\<rparr>
         in if overstayAttempts < overstayCount b then (b, GaveUp)
            else if over then (b, Delegated)
            else restart_tail b)
      else restart_tail b)"

text \<open>gRPC status codes, the ones the code tells apart.\<close>

datatype code = InvalidArgument | Unauthenticated | Unavailable | OtherCode nat

definition handleError :: "code \<Rightarrow> bool \<Rightarrow> Broker \<Rightarrow> Broker \<times> restart_result option" where
  "handleError c over b =
     (case c of
        InvalidArgument \<Rightarrow> (b, None)
      | Unauthenticated \<Rightarrow> (b, None)
      | Unavailable \<Rightarrow> (let (b, r) = restart over b in (b, Some r))
      | OtherCode n \<Rightarrow> (let (b, r) = restart over b in (b, Some r)))"

section \<open>Certificate path\<close>

text \<open>\<open>filepath.Clean\<close> and \<open>filepath.Join\<close> on slash-separated paths.\<close>

fun split_slash :: "string \<Rightarrow> string \<Rightarrow> string list" where
  "split_slash acc [] = [acc]"
| "split_slash acc (c # cs) =
     (if c = CHR ''/'' then acc # split_slash [] cs else split_slash (acc @ [c]) cs)"

fun clean_parts :: "bool \<Rightarrow> string list \<Rightarrow> string list \<Rightarrow> string list" where
  "clean_parts rooted acc [] = rev acc"
| "clean_parts rooted acc (s # ss) =
     (if s = [] \<or> s = ''.'' then clean_parts rooted acc ss
      else if s = ''..'' then
        (if acc \<noteq> [] \<and> hd acc \<noteq> ''..'' then clean_parts rooted (tl acc) ss
         else if rooted then clean_parts rooted acc ss
         else clean_parts rooted (''..'' # acc) ss)
      else clean_parts rooted (s # acc) ss)"

fun join_slash :: "string list \<Rightarrow> string" where
  "join_slash [] = []"
| "join_slash [s] = s"
| "join_slash (s # ss) = s @ CHR ''/'' # join_slash ss"

definition IsAbs :: "string \<Rightarrow> bool" where
  "IsAbs s \<longleftrightarrow> s \<noteq> [] \<and> hd s = CHR ''/''"

definition Clean :: "string \<Rightarrow> string" where
  "Clean s =
     (let body = join_slash (clean_parts (IsAbs s) [] (split_slash [] s));
          out = (if IsAbs s then CHR ''/'' # body else body)
      in if out = [] then ''.'' else out)"

definition Join :: "string \<Rightarrow> string \<Rightarrow> string" where
  "Join a b =
     (if a = [] \<and> b = [] then []
      else if a = [] then Clean b
      else if b = [] then Clean a
      else Clean (a @ CHR ''/'' # b))"

definition Path :: "string result \<Rightarrow> string \<Rightarrow> string outcome" where
  "Path getwd rel =
     (if IsAbs rel then Returns rel
      else case getwd of
          Inl e \<Rightarrow> Panics ErrBrokerCertFailed
        | Inr wd \<Rightarrow> Returns (Join wd rel))"

section \<open>Dialling\<close>

text \<open>Transport credentials: a CA file with the server name, or the system store (TLS 1.2 up).\<close>

datatype creds = CAFile string string | SystemTLS string

definition Broker_client ::
  "string result \<Rightarrow> (string \<Rightarrow> string \<Rightarrow> err option) \<Rightarrow> (string \<Rightarrow> creds \<Rightarrow> err option) \<Rightarrow>
   Broker \<Rightarrow> (string \<times> creds) result outcome" where
  "Broker_client getwd load_ca grpc_new b =
     (let url = bHost b @ CHR '':'' # format_int (bPort b);
          dial = (\<lambda>creds. case grpc_new url creds of
                    Some e \<Rightarrow> Inl ErrBrokerDialFailed
                  | None \<Rightarrow> Inr (url, creds))
      in if bInsecure b then
           (case Path getwd (certPath b) of
              Panics e \<Rightarrow> Panics e
            | Returns caFile \<Rightarrow>
                (case load_ca caFile (bHost b) of
                   Some e \<Rightarrow> Returns (Inl e)
                 | None \<Rightarrow> Returns (dial (CAFile caFile (bHost b)))))
         else Returns (dial (SystemTLS (bHost b))))"

section \<open>The interceptor\<close>

definition AuthInterceptor ::
  "Authhmac \<Rightarrow> string \<Rightarrow> string \<Rightarrow> string \<Rightarrow> gotime \<Rightarrow> (nat \<Rightarrow> bytes result) \<Rightarrow>
   ((string \<times> string) list \<Rightarrow> 's result) \<Rightarrow> 's result" where
  "AuthInterceptor auth project module pid now rand streamer =
     bindE (Generate auth now rand (string_bytes (module @ project))) (\<lambda>hmac.
       streamer
         [(''X-Module'', module), (''X-Project'', project), (''X-Pod-ID'', pid),
          (''X-Signature'', hSignature hmac), (''X-Timestamp'', hTimestamp hmac),
          (''X-Nonce'', hNonce hmac)])"

section \<open>Lemmas\<close>

lemmas broker_defs = cancel_ctx_def Broker_Done_def Start_begin_def Start_end_def on_ready_def
  initResetProcess_def SetCertPath_def

lemma fibo_values:
  "fibo 0 = Some 1" "fibo 1 = Some 2" "fibo 2 = Some 3" "fibo 3 = Some 5" "fibo 5 = Some 8"
  "fibo 8 = Some 13" "fibo 13 = Some 21" "fibo 21 = Some 24" "fibo 24 = Some 24"
  by (simp_all add: fibo_def durationMax_def fib_loop.simps)

text \<open>
  The connection attempts of a broker that never becomes ready and whose \<open>OwerstayingFunc\<close>
  declines: each wait runs to its end and is followed by a new \<open>Start\<close>, which fails again.
\<close>

fun failed_attempts :: "nat \<Rightarrow> Broker \<Rightarrow> restart_result list" where
  "failed_attempts 0 b = []"
| "failed_attempts (Suc n) b =
     (let (b, r) = restart False b
      in r # (case r of WaitFor d ctx \<Rightarrow> failed_attempts n (snd (Start_begin b)) | _ \<Rightarrow> []))"

definition started :: "Broker \<Rightarrow> bool" where
  "started b \<longleftrightarrow>
     (\<exists>n. bStarts b = Suc n \<and> bContext b = Some n \<and> bCancel b = Some n \<and> n \<notin> bCancelled b) \<and>
     (\<forall>c \<in> bCancelled b. c < bStarts b) \<and> \<not> resetDone b"

lemma started_Start_begin:
  assumes "started b" and "bStarts b' = bStarts b" and "bCancel b' = bCancel b"
    and "bCancelled b' = bCancelled b" and "resetDone b' = resetDone b"
  shows "started (snd (Start_begin b'))"
proof -
  obtain n where n: "bStarts b = Suc n" "bCancel b = Some n" and lt: "\<And>c. c \<in> bCancelled b \<Longrightarrow> c < Suc n"
    and "\<not> resetDone b" using assms(1) by (auto simp: started_def)
  moreover have "Suc n \<notin> bCancelled b" using lt by blast
  moreover have "\<And>c. c \<in> bCancelled b \<Longrightarrow> c < Suc (Suc n)" using lt less_SucI by blast
  ultimately show ?thesis using assms(2-5) by (auto simp: started_def broker_defs Let_def)
qed

lemma restart_tail_started:
  assumes "started b" and "fibo (duration b) = Some d"
  shows "\<exists>ctx. restart_tail b = (b\<lparr>duration := d\<rparr>, WaitFor d ctx)"
  using assms by (auto simp: restart_tail_def started_def)

lemma restart_wait:
  assumes "started b" and "duration b \<noteq> durationMax" and "fibo (duration b) = Some d"
  shows "\<exists>ctx. restart over b = (b\<lparr>duration := d\<rparr>, WaitFor d ctx)"
  using restart_tail_started [OF assms(1,3)] assms(2) by (simp add: restart_def)

lemma restart_wait_max:
  assumes "started b" and "duration b = durationMax" and "overstayCount b < overstayAttempts"
  shows "\<exists>ctx. restart False b =
    (b\<lparr>duration := 24, overstayCount := overstayCount b + 1\<rparr>, WaitFor 24 ctx)"
proof -
  let ?b = "b\<lparr>overstayCount := overstayCount b + 1\<rparr>"
  have "started ?b" using assms(1) by (simp add: started_def)
  moreover have "fibo (duration ?b) = Some 24"
    using assms(2) fibo_values(9) by (simp add: durationMax_def)
  ultimately obtain ctx where "restart_tail ?b = (?b\<lparr>duration := 24\<rparr>, WaitFor 24 ctx)"
    using restart_tail_started by blast
  then show ?thesis using assms(2,3) by (simp add: restart_def Let_def)
qed

lemma restart_gives_up:
  assumes "duration b = durationMax" and "overstayAttempts \<le> overstayCount b"
  shows "\<exists>b'. restart over b = (b', GaveUp)"
  using assms by (simp add: restart_def Let_def)

primrec wait_secs :: "restart_result \<Rightarrow> int option" where
  "wait_secs GaveUp = None"
| "wait_secs Delegated = None"
| "wait_secs Skipped = None"
| "wait_secs (WaitFor d ctx) = Some (sint d)"
| "wait_secs Diverges = None"

lemma Start_begin_fields [simp]:
  "duration (snd (Start_begin b)) = duration b"
  "overstayCount (snd (Start_begin b)) = overstayCount b"
  by (simp_all add: Start_begin_def cancel_ctx_def Let_def split: option.split)

primrec delay_chain :: "int64 \<Rightarrow> int64 list \<Rightarrow> bool" where
  "delay_chain x [] = True"
| "delay_chain x (d # ds) = (x \<noteq> durationMax \<and> fibo x = Some d \<and> delay_chain d ds)"

lemma attempts_chain:
  assumes "delay_chain x ds" and "started b" and "duration b = x"
    and "\<And>b'. started b' \<Longrightarrow> duration b' = last (x # ds) \<Longrightarrow> overstayCount b' = overstayCount b \<Longrightarrow>
      map wait_secs (failed_attempts n b') = ws"
  shows "map wait_secs (failed_attempts (length ds + n) b) = map (\<lambda>d. Some (sint d)) ds @ ws"
  using assms
proof (induction ds arbitrary: x b)
  case Nil
  then show ?case by simp
next
  case (Cons d ds)
  obtain ctx where r: "restart False b = (b\<lparr>duration := d\<rparr>, WaitFor d ctx)"
    using restart_wait [OF Cons.prems(2)] Cons.prems(1,3) by force
  let ?b = "snd (Start_begin (b\<lparr>duration := d\<rparr>))"
  have "map wait_secs (failed_attempts (length ds + n) ?b) = map (\<lambda>d. Some (sint d)) ds @ ws"
    using Cons.prems(1,4) by (intro Cons.IH [of d]) (auto intro: started_Start_begin [OF Cons.prems(2)])
  then show ?case using r by simp
qed

lemma attempts_wait_max:
  assumes "started b" and "duration b = durationMax" and "overstayCount b < overstayAttempts"
    and "\<And>b'. started b' \<Longrightarrow> duration b' = durationMax \<Longrightarrow> overstayCount b' = overstayCount b + 1 \<Longrightarrow>
      map wait_secs (failed_attempts n b') = ws"
  shows "map wait_secs (failed_attempts (Suc n) b) = Some 24 # ws"
proof -
  obtain ctx where r: "restart False b =
      (b\<lparr>duration := 24, overstayCount := overstayCount b + 1\<rparr>, WaitFor 24 ctx)"
    using restart_wait_max [OF assms(1-3)] by blast
  have "map wait_secs (failed_attempts n (snd (Start_begin
      (b\<lparr>duration := 24, overstayCount := overstayCount b + 1\<rparr>)))) = ws"
    by (rule assms(4)) (auto intro: started_Start_begin [OF assms(1)] simp: durationMax_def)
  then show ?thesis using r by simp
qed

lemma attempts_give_up:
  assumes "duration b = durationMax" and "overstayAttempts \<le> overstayCount b"
  shows "map wait_secs (failed_attempts (Suc n) b) = [None]"
  using restart_gives_up [OF assms, of False] by auto

lemma clean_parts_rooted:
  "set acc \<inter> {[], ''.'', ''..''} = {} \<Longrightarrow> set (clean_parts True acc ss) \<inter> {[], ''.'', ''..''} = {}"
  by (induction True acc ss rule: clean_parts.induct) (auto dest: list.set_sel(2))

lemma Clean_rooted:
  "IsAbs s \<Longrightarrow> \<exists>ps. Clean s = CHR ''/'' # join_slash ps \<and> set ps \<inter> {[], ''.'', ''..''} = {}"
  using clean_parts_rooted [of "[]" "split_slash [] s"] by (auto simp: Clean_def)

section \<open>Properties\<close>

text \<open>
  C19. A connection that keeps failing is retried after 1, 2, 3, 5, 8, 13, 21, 24, 24 and 24
  seconds and then given up for good: the eleventh failure ends the retries, however many more
  were allowed.
\<close>

theorem reconnect_schedule:
  assumes "started b" and "duration b = 0" and "overstayCount b = 0"
  shows "map wait_secs (failed_attempts (11 + n) b) =
    map Some [1, 2, 3, 5, 8, 13, 21, 24, 24, 24] @ [None]"
proof -
  let ?ds = "[1, 2, 3, 5, 8, 13, 21, 24] :: int64 list"
  have max: "map wait_secs (failed_attempts (Suc (Suc (Suc n))) b') = [Some 24, Some 24, None]"
    if "started b'" "duration b' = durationMax" "overstayCount b' = 0" for b'
    using that
    by (intro attempts_wait_max attempts_give_up) (auto simp: overstayAttempts_def)
  have chain: "delay_chain 0 ?ds" by (simp add: fibo_values durationMax_def)
  have "map wait_secs (failed_attempts (length ?ds + Suc (Suc (Suc n))) b) =
      map (\<lambda>d. Some (sint d)) ?ds @ [Some 24, Some 24, None]"
    by (rule attempts_chain [OF chain assms(1,2)], rule max) (simp_all add: durationMax_def assms(3))
  moreover have eq: "11 + n = length ?ds + Suc (Suc (Suc n))" by simp
  ultimately show ?thesis unfolding eq by (simp del: failed_attempts.simps)
qed

text \<open>A broker in its first connection attempt.\<close>

definition demo_broker :: Broker where
  "demo_broker = snd (Start_begin (new_broker ''b1'' ''host'' 443 False))"

lemma demo_broker: "started demo_broker" "duration demo_broker = 0" "overstayCount demo_broker = 0"
  by (simp_all add: demo_broker_def new_broker_def started_def broker_defs Let_def)

theorem reconnect_schedule_witness:
  "map wait_secs (failed_attempts 11 demo_broker) =
    map Some [1, 2, 3, 5, 8, 13, 21, 24, 24, 24] @ [None]"
  using reconnect_schedule [OF demo_broker, of 0] by simp

text \<open>
  \<open>Path\<close> returns an absolute path as it is and makes any other one absolute: below the
  working directory, with no empty, \<open>.\<close> or \<open>..\<close> component left; it panics exactly when the
  path is relative and the working directory is unknown.
\<close>

lemma Path_absolute:
  assumes "\<And>wd. getwd = Inr wd \<Longrightarrow> IsAbs wd"
  shows "case Path getwd rel of
      Panics e \<Rightarrow> e = ErrBrokerCertFailed \<and> \<not> IsAbs rel \<and> (\<exists>e. getwd = Inl e)
    | Returns p \<Rightarrow> IsAbs p \<and>
        (p = rel \<or> (\<exists>ps. p = CHR ''/'' # join_slash ps \<and> set ps \<inter> {[], ''.'', ''..''} = {}))"
proof (cases getwd)
  case (Inl e)
  then show ?thesis by (simp add: Path_def)
next
  case (Inr wd)
  then have "IsAbs wd" by (rule assms)
  then have "wd \<noteq> []" "IsAbs (wd @ CHR ''/'' # rel)" by (auto simp: IsAbs_def)
  with \<open>IsAbs wd\<close> have "\<exists>ps. Join wd rel = CHR ''/'' # join_slash ps \<and> set ps \<inter> {[], ''.'', ''..''} = {}"
    using Clean_rooted by (auto simp: Join_def)
  with Inr show ?thesis by (auto simp: Path_def IsAbs_def)
qed

lemma Path_absolute_witness:
  "Path (Inr ''/srv'') ''../ca/./x.pem'' = Returns ''/ca/x.pem'' \<and> IsAbs ''/ca/x.pem''"
proof -
  have p: "Path (Inr ''/srv'') ''../ca/./x.pem'' = Returns ''/ca/x.pem''"
    by (simp add: Path_def IsAbs_def Join_def Clean_def)
  with Path_absolute [of "Inr ''/srv''" "''../ca/./x.pem''"] show ?thesis
    by (simp add: IsAbs_def)
qed

text \<open>
  The interceptor authenticates every stream: when it calls the streamer, the headers carry
  the module, project and pod, and the signature, timestamp and nonce form an envelope that a
  server with the same secret accepts for the module and project names within the window.
\<close>

lemma AuthInterceptor_signs:
  assumes "wall_clock t" and "in_window a t t'" and "rand 16 = Inr buf"
  shows "\<exists>req. AuthInterceptor a project module pid t rand streamer =
      streamer [(''X-Module'', module), (''X-Project'', project), (''X-Pod-ID'', pid),
        (''X-Signature'', hSignature req), (''X-Timestamp'', hTimestamp req), (''X-Nonce'', hNonce req)] \<and>
    Validate a t' (string_bytes (module @ project)) req = None"
proof -
  obtain req where req: "Generate a t rand (string_bytes (module @ project)) = Inr req"
    using assms(3) by (auto simp: Generate_Inr)
  show ?thesis
    using Generate_Validate_complete [OF assms(1,2) req] req by (auto simp: AuthInterceptor_def)
qed

lemma AuthInterceptor_signs_witness:
  "\<exists>req. AuthInterceptor demo_auth ''shop'' ''cart'' ''pod-1'' demo_now demo_rand Inr =
      Inr [(''X-Module'', ''cart''), (''X-Project'', ''shop''), (''X-Pod-ID'', ''pod-1''),
        (''X-Signature'', hSignature req), (''X-Timestamp'', hTimestamp req), (''X-Nonce'', hNonce req)] \<and>
    Validate demo_auth demo_later (string_bytes ''cartshop'') req = None"
  using AuthInterceptor_signs [OF demo_window, of demo_rand "replicate 16 0" "''shop''" "''cart''" "''pod-1''" Inr]
  by (simp add: demo_rand_def)

text \<open>
  The signature does not tell module and project apart: two pairs with the same
  concatenation are signed identically, so the envelope of one is accepted for the other.
\<close>

lemma AuthInterceptor_ambiguous:
  assumes "module @ project = module' @ project'"
  shows "AuthInterceptor a project module pid t rand (\<lambda>hs. Inr (map_of hs ''X-Signature'')) =
      AuthInterceptor a project' module' pid t rand (\<lambda>hs. Inr (map_of hs ''X-Signature'')) \<and>
    Validate a t' (string_bytes (module @ project)) req =
      Validate a t' (string_bytes (module' @ project')) req"
  using assms by (simp add: AuthInterceptor_def)

lemma AuthInterceptor_ambiguous_witness:
  "AuthInterceptor demo_auth ''art'' ''c'' ''pod-1'' demo_now demo_rand (\<lambda>hs. Inr (map_of hs ''X-Signature'')) =
   AuthInterceptor demo_auth ''t'' ''car'' ''pod-1'' demo_now demo_rand (\<lambda>hs. Inr (map_of hs ''X-Signature''))"
  using AuthInterceptor_ambiguous [of "''c''" "''art''" "''car''" "''t''"] by simp

end
