(* ===== verification/Broker_Store.thy ===== *)
theory Broker_Store
  imports Broker "HOL-Library.Char_ord" "HOL-Library.List_Lexorder"
begin

text \<open>
  The store of all known brokers (src/broker/store.go). It maps an identifier to a \<^emph>\<open>pointer\<close> to
  a \<open>Broker\<close>; the structs live in a memory that the store shares with the client's list of online
  brokers. Each operation holds the lock from start to end and is one atomic step.
\<close>

type_synonym broker_mem = "nat \<Rightarrow> Broker"

record BrokerStore =
  brokers :: "string \<rightharpoonup> nat"

definition BrokerStore_New :: BrokerStore where
  "BrokerStore_New = \<lparr>brokers = Map.empty\<rparr>"

definition BrokerStore_Get :: "string \<Rightarrow> BrokerStore \<Rightarrow> nat option" where
  "BrokerStore_Get i s = brokers s i"

definition BrokerStore_Set :: "nat \<Rightarrow> broker_mem \<Rightarrow> BrokerStore \<Rightarrow> BrokerStore" where
  "BrokerStore_Set b mem s = s\<lparr>brokers := (brokers s)(bID (mem b) \<mapsto> b)\<rparr>"

text \<open>
  \<open>Done\<close> ranges over the map, in the order \<open>ks\<close> the runtime happens to choose; an entry that was
  deleted before it is reached is not visited.
\<close>

fun BrokerStore_Done :: "string list \<Rightarrow> broker_mem \<Rightarrow> BrokerStore \<Rightarrow> broker_mem \<times> BrokerStore" where
  "BrokerStore_Done [] mem s = (mem, s)"
| "BrokerStore_Done (k # ks) mem s =
     (case brokers s k of
        None \<Rightarrow> BrokerStore_Done ks mem s
      | Some b \<Rightarrow>
          BrokerStore_Done ks (mem(b := Broker_Done (mem b)))
            (s\<lparr>brokers := (brokers s)(bID (mem b) := None)\<rparr>))"

text \<open>
  \<open>String\<close> is what \<open>fmt\<close> prints for a map: the entries in the order of their keys, however the range
  \<open>ks\<close> visits them, and a pointer as its address.
\<close>

fun print_entries :: "(nat \<Rightarrow> string) \<Rightarrow> (string \<times> nat) list \<Rightarrow> string" where
  "print_entries addr [] = []"
| "print_entries addr [(k, b)] = k @ '':'' @ addr b"
| "print_entries addr ((k, b) # es) = k @ '':'' @ addr b @ '' '' @ print_entries addr es"

definition BrokerStore_String :: "(nat \<Rightarrow> string) \<Rightarrow> string list \<Rightarrow> BrokerStore \<Rightarrow> string" where
  "BrokerStore_String addr ks s =
     ''map['' @ print_entries addr
       (map (\<lambda>k. (k, the (brokers s k))) (sort (filter (\<lambda>k. brokers s k \<noteq> None) ks))) @ '']''"

text \<open>The print does not depend on the iteration order.\<close>

lemma BrokerStore_String_order:
  assumes "distinct ks" and "distinct ks'" and "set ks = set ks'"
  shows "BrokerStore_String addr ks s = BrokerStore_String addr ks' s"
proof -
  have "sort (filter P ks) = sort (filter P ks')" for P
    using assms by (intro sorted_distinct_set_unique) simp_all
  then show ?thesis by (simp add: BrokerStore_String_def)
qed

text \<open>Every broker is stored under its own identifier.\<close>

definition bstore_inv :: "broker_mem \<Rightarrow> BrokerStore \<Rightarrow> bool" where
  "bstore_inv mem s \<longleftrightarrow> (\<forall>k b. brokers s k = Some b \<longrightarrow> bID (mem b) = k)"

lemma bID_Done [simp]: "bID (Broker_Done b) = bID b"
  by (simp add: broker_defs split: option.split)

lemma Broker_Done_idem [simp]: "Broker_Done (Broker_Done b) = Broker_Done b"
  by (simp add: broker_defs split: option.split)

lemma bstore_inv_New [inv_intros]: "bstore_inv mem BrokerStore_New"
  by (simp add: bstore_inv_def BrokerStore_New_def)

lemma bstore_inv_Set [inv_intros]: "bstore_inv mem s \<Longrightarrow> bstore_inv mem (BrokerStore_Set b mem s)"
  by (simp add: bstore_inv_def BrokerStore_Set_def)

lemma bstore_inv_removed:
  assumes "bstore_inv mem s" and "brokers s k = Some b"
  shows "((brokers s)(k := None)) j = Some x \<longleftrightarrow> x \<noteq> b \<and> brokers s j = Some x"
  using assms unfolding bstore_inv_def by auto

lemma bstore_inv_visit:
  "bstore_inv mem s \<Longrightarrow> bstore_inv (mem(b := Broker_Done (mem b))) (s\<lparr>brokers := (brokers s)(k := None)\<rparr>)"
  by (auto simp: bstore_inv_def)

text \<open>
  Whatever the order, \<open>Done\<close> cancels exactly the stored brokers among the keys visited and
  removes those keys.
\<close>

lemma BrokerStore_Done_spec:
  assumes "bstore_inv mem s"
  shows "BrokerStore_Done ks mem s =
    ((\<lambda>b. if \<exists>k \<in> set ks. brokers s k = Some b then Broker_Done (mem b) else mem b),
     s\<lparr>brokers := (\<lambda>k. if k \<in> set ks then None else brokers s k)\<rparr>)"
  using assms
proof (induction ks arbitrary: mem s)
  case (Cons k ks)
  show ?case
  proof (cases "brokers s k")
    case None
    have "(\<lambda>j. if j \<in> set ks then None else brokers s j) =
        (\<lambda>j. if j \<in> set (k # ks) then None else brokers s j)" using None by (auto simp: fun_eq_iff)
    with None Cons show ?thesis by simp
  next
    case (Some b)
    let ?mem = "mem(b := Broker_Done (mem b))"
    have k: "bID (mem b) = k" using Cons.prems Some by (simp add: bstore_inv_def)
    have keys: "(\<lambda>j. if j \<in> set ks then None else ((brokers s)(k := None)) j) =
        (\<lambda>j. if j \<in> set (k # ks) then None else brokers s j)" by (auto simp: fun_eq_iff)
    have mem: "(\<lambda>x. if \<exists>j \<in> set ks. ((brokers s)(k := None)) j = Some x then Broker_Done (?mem x) else ?mem x) =
        (\<lambda>x. if \<exists>j \<in> set (k # ks). brokers s j = Some x then Broker_Done (mem x) else mem x)"
      unfolding bstore_inv_removed [OF Cons.prems Some] using Some by (auto simp: fun_eq_iff)
    have "BrokerStore_Done (k # ks) mem s = BrokerStore_Done ks ?mem (s\<lparr>brokers := (brokers s)(k := None)\<rparr>)"
      using Some k by simp
    also note Cons.IH [OF bstore_inv_visit [OF Cons.prems, of b k]]
    finally show ?thesis by (simp add: keys mem del: fun_upd_apply cong: if_cong)
  qed
qed simp

section \<open>What the client relies on\<close>

text \<open>
  A directory of brokers: a lookup finds what was stored last under the identifier, and closing
  the directory leaves nothing to be found, with every broker in it told to stop.
\<close>

locale broker_directory =
  fixes get :: "string \<Rightarrow> 's \<Rightarrow> nat option"
    and put :: "nat \<Rightarrow> 'm \<Rightarrow> 's \<Rightarrow> 's"
    and close :: "string list \<Rightarrow> 'm \<Rightarrow> 's \<Rightarrow> 'm \<times> 's"
    and ident :: "'m \<Rightarrow> nat \<Rightarrow> string"
    and stopped :: "'m \<Rightarrow> nat \<Rightarrow> bool"
    and ok :: "'m \<Rightarrow> 's \<Rightarrow> bool"
  assumes get_put: "get i (put b m s) = (if ident m b = i then Some b else get i s)"
    and ok_put: "ok m s \<Longrightarrow> ok m (put b m s)"
    and ok_ident: "ok m s \<Longrightarrow> get i s = Some b \<Longrightarrow> ident m b = i"
    and close_empty: "ok m s \<Longrightarrow> {i. get i s \<noteq> None} \<subseteq> set ks \<Longrightarrow> get i (snd (close ks m s)) = None"
    and close_stops: "ok m s \<Longrightarrow> get i s = Some b \<Longrightarrow> i \<in> set ks \<Longrightarrow> stopped (fst (close ks m s)) b"
    and ok_close: "ok m s \<Longrightarrow> ok (fst (close ks m s)) (snd (close ks m s))"
begin

lemma get_puts:
  assumes "distinct (map (ident m) bs)"
  shows "get i (fold (\<lambda>b. put b m) bs s) =
    (case find (\<lambda>b. ident m b = i) bs of Some b \<Rightarrow> Some b | None \<Rightarrow> get i s)"
  using assms
proof (induction bs arbitrary: s)
  case Nil
  then show ?case by simp
next
  case (Cons b bs)
  have "ident m b = i \<Longrightarrow> find (\<lambda>b. ident m b = i) bs = None"
    using Cons.prems by (auto simp: find_None_iff) (metis imageI)
  then show ?case using Cons by (auto simp: get_put split: option.split)
qed

lemma ok_puts: "ok m s \<Longrightarrow> ok m (fold (\<lambda>b. put b m) bs s)"
  by (induction bs arbitrary: s) (auto intro: ok_put)

end

definition done_called :: "broker_mem \<Rightarrow> nat \<Rightarrow> bool" where
  "done_called mem b \<longleftrightarrow> (\<forall>c. bCancel (mem b) = Some c \<longrightarrow> c \<in> bCancelled (mem b))"

lemma done_called_Done: "done_called (\<lambda>b. if P b then Broker_Done (mem b) else mem b) b \<longleftrightarrow>
    P b \<or> done_called mem b"
  by (auto simp: done_called_def broker_defs split: option.split)

interpretation directory: broker_directory BrokerStore_Get BrokerStore_Set BrokerStore_Done
    "\<lambda>m b. bID (m b)" done_called bstore_inv
proof
  fix i b k and m :: broker_mem and s :: BrokerStore and ks
  show "BrokerStore_Get i (BrokerStore_Set b m s) = (if bID (m b) = i then Some b else BrokerStore_Get i s)"
    by (simp add: BrokerStore_Get_def BrokerStore_Set_def)
  assume ok: "bstore_inv m s"
  then show "bstore_inv m (BrokerStore_Set b m s)" by (rule inv_intros)
  show "BrokerStore_Get i s = Some b \<Longrightarrow> bID (m b) = i"
    using ok by (simp add: BrokerStore_Get_def bstore_inv_def)
  show "BrokerStore_Get i (snd (BrokerStore_Done ks m s)) = None"
    if "{i. BrokerStore_Get i s \<noteq> None} \<subseteq> set ks"
    using that by (auto simp: BrokerStore_Get_def BrokerStore_Done_spec [OF ok])
  show "done_called (fst (BrokerStore_Done ks m s)) b"
    if "BrokerStore_Get i s = Some b" "i \<in> set ks"
    using that by (auto simp: BrokerStore_Get_def BrokerStore_Done_spec [OF ok] done_called_Done)
  show "bstore_inv (fst (BrokerStore_Done ks m s)) (snd (BrokerStore_Done ks m s))"
    using ok by (auto simp: BrokerStore_Done_spec [OF ok] bstore_inv_def)
qed

section \<open>Properties\<close>

text \<open>
  \<open>Done\<close> shuts the store down whatever the iteration order of the map: if the order covers
  the stored identifiers, the store is empty afterwards, each stored broker had its context
  cancelled, and every other broker is untouched.
\<close>

lemma BrokerStore_Done_clears:
  assumes "bstore_inv mem s" and "dom (brokers s) \<subseteq> set ks"
  shows "BrokerStore_Done ks mem s =
    ((\<lambda>b. if b \<in> ran (brokers s) then Broker_Done (mem b) else mem b), BrokerStore_New)"
proof -
  have "(\<exists>k \<in> set ks. brokers s k = Some b) \<longleftrightarrow> b \<in> ran (brokers s)" for b
    using assms(2) by (auto simp: ran_def)
  moreover have "(\<lambda>k. if k \<in> set ks then None else brokers s k) = Map.empty"
    using assms(2) by (auto simp: fun_eq_iff)
  ultimately show ?thesis
    using BrokerStore_Done_spec [OF assms(1), of ks] by (simp add: BrokerStore_New_def)
qed

lemma BrokerStore_Done_clears_witness:
  "snd (BrokerStore_Done [''b'', ''a'', ''b''] (\<lambda>p. new_broker (if p = 0 then ''a'' else ''b'') ''h'' 1 False)
     \<lparr>brokers = [''a'' \<mapsto> 0, ''b'' \<mapsto> 1]\<rparr>) = BrokerStore_New"
proof -
  let ?mem = "\<lambda>p. new_broker (if p = 0 then ''a'' else ''b'') ''h'' 1 False"
  let ?s = "\<lparr>brokers = [''a'' \<mapsto> 0, ''b'' \<mapsto> 1]\<rparr>"
  have "bstore_inv ?mem ?s" by (simp add: bstore_inv_def new_broker_def)
  moreover have "dom (brokers ?s) \<subseteq> set [''b'', ''a'', ''b'']" by auto
  ultimately show ?thesis by (simp only: BrokerStore_Done_clears snd_conv)
qed

end
