(* ===== verification/Subs.thy ===== *)
theory Subs
  imports Metadata "HOL-Library.Multiset"
begin

text \<open>
  Package \<open>sub\<close> (src/sub/sub.go and src/sub/store.go): the handlers of one event, the store of
  events, and the routing of an incoming message to the handlers.

  The store maps an event name to a \<^emph>\<open>pointer\<close> to a \<open>Sub\<close>, and \<open>Register\<close> and \<open>Unregister\<close>
  release the store's lock between looking the pointer up and changing what it points to. The
  model therefore has the \<open>Sub\<close> structs in a heap, each operation as one function for a caller
  that runs alone, and below the same operations cut at the lock boundaries, for any number of
  interleaved callers. A handler function is a number; a delivery is the list of goroutines
  \<open>(function, context, payload)\<close> it spawns.
\<close>

section \<open>One event\<close>

record handler =
  hid :: string
  hcb :: nat

record SubEntry =
  subID :: string
  subName :: string
  handlers :: "handler list"

definition zero_Sub :: SubEntry where
  "zero_Sub = \<lparr>subID = [], subName = [], handlers = []\<rparr>"

definition Sub_Register :: "string \<Rightarrow> nat \<Rightarrow> SubEntry \<Rightarrow> SubEntry" where
  "Sub_Register i cb s = s\<lparr>handlers := handlers s @ [\<lparr>hid = i, hcb = cb\<rparr>]\<rparr>"

fun without_handler :: "string \<Rightarrow> handler list \<Rightarrow> handler list \<Rightarrow> handler list" where
  "without_handler i acc [] = acc"
| "without_handler i acc (h # hs) =
     (if hid h = i then without_handler i acc hs else without_handler i (acc @ [h]) hs)"

definition Sub_Unregister :: "string \<Rightarrow> SubEntry \<Rightarrow> bool \<times> SubEntry" where
  "Sub_Unregister i s =
     (let hs = without_handler i [] (handlers s) in (hs = [], s\<lparr>handlers := hs\<rparr>))"

definition Sub_Recv :: "'c ctx \<Rightarrow> Message \<Rightarrow> SubEntry \<Rightarrow> (nat \<times> 'c ctx \<times> bytes) list" where
  "Sub_Recv ctx msg s = map (\<lambda>h. (hcb h, ctx, Payload msg)) (handlers s)"

lemma without_handler_filter [simp]:
  "without_handler i acc hs = acc @ filter (\<lambda>h. hid h \<noteq> i) hs"
  by (induction hs arbitrary: acc) auto

section \<open>The store\<close>

record Store =
  slist :: "string \<rightharpoonup> nat"
  sheap :: "nat \<Rightarrow> SubEntry"
  sfresh :: nat

definition Store_New :: Store where
  "Store_New = \<lparr>slist = Map.empty, sheap = (\<lambda>p. zero_Sub), sfresh = 0\<rparr>"

definition sub_write :: "nat \<Rightarrow> SubEntry \<Rightarrow> Store \<Rightarrow> Store" where
  "sub_write p s st = st\<lparr>sheap := (sheap st)(p := s)\<rparr>"

definition sub_alloc :: "Store \<Rightarrow> nat \<times> Store" where
  "sub_alloc st = (sfresh st, st\<lparr>sheap := (sheap st)(sfresh st := zero_Sub), sfresh := Suc (sfresh st)\<rparr>)"

definition Store_Recv :: "'c ctx \<Rightarrow> Message \<Rightarrow> Store \<Rightarrow> (nat \<times> 'c ctx \<times> bytes) list" where
  "Store_Recv ctx evt st =
     (case slist st (Name evt) of
        None \<Rightarrow> []
      | Some p \<Rightarrow> Sub_Recv ctx evt (sheap st p))"

text \<open>\<open>i\<close> is the UUID drawn for the handler, which the call returns.\<close>

definition Store_Register :: "string \<Rightarrow> nat \<Rightarrow> string \<Rightarrow> Store \<Rightarrow> string \<times> Store" where
  "Store_Register name fn i st =
     (let (p, st) =
        (case slist st name of
           Some p \<Rightarrow> (p, st)
         | None \<Rightarrow> (let (p, st) = sub_alloc st in (p, st\<lparr>slist := (slist st)(name \<mapsto> p)\<rparr>)))
      in (i, sub_write p (Sub_Register i fn (sheap st p)) st))"

definition Store_Unregister :: "string \<Rightarrow> string \<Rightarrow> Store \<Rightarrow> Store" where
  "Store_Unregister name i st =
     (case slist st name of
        None \<Rightarrow> st
      | Some p \<Rightarrow>
          (let (ok, s) = Sub_Unregister i (sheap st p); st = sub_write p s st
           in if ok then st\<lparr>slist := (slist st)(name := None)\<rparr> else st))"

section \<open>The abstract router\<close>

text \<open>
  What a store promises: a list of \<open>(identifier, function)\<close> per event. The invariant says that
  events do not share a \<open>Sub\<close> and that no event is kept without a handler.
\<close>

definition routes :: "Store \<Rightarrow> string \<Rightarrow> (string \<times> nat) list" where
  "routes st name =
     (case slist st name of
        None \<Rightarrow> []
      | Some p \<Rightarrow> map (\<lambda>h. (hid h, hcb h)) (handlers (sheap st p)))"

definition store_inv :: "Store \<Rightarrow> bool" where
  "store_inv st \<longleftrightarrow>
     (\<forall>n p. slist st n = Some p \<longrightarrow> p < sfresh st \<and> handlers (sheap st p) \<noteq> []) \<and>
     (\<forall>n n' p. slist st n = Some p \<longrightarrow> slist st n' = Some p \<longrightarrow> n = n')"

lemma store_inv_New [inv_intros]: "store_inv Store_New"
  by (simp add: store_inv_def Store_New_def)

lemma routes_New: "routes Store_New = (\<lambda>_. [])"
  by (simp add: routes_def Store_New_def fun_eq_iff)

lemma store_inv_entry: "store_inv st \<Longrightarrow> slist st n = None \<longleftrightarrow> routes st n = []"
  by (auto simp: store_inv_def routes_def split: option.splits)

lemmas store_ops = Store_Register_def Store_Unregister_def sub_alloc_def sub_write_def
  Sub_Register_def Sub_Unregister_def Let_def

lemma Store_Register_refines:
  assumes "store_inv st" and "Store_Register name fn i st = (r, st')"
  shows "r = i \<and> store_inv st' \<and> routes st' = (routes st)(name := routes st name @ [(i, fn)])"
proof (cases "slist st name")
  case None
  have st': "st' = st\<lparr>sheap := (sheap st)(sfresh st := zero_Sub\<lparr>handlers := [\<lparr>hid = i, hcb = fn\<rparr>]\<rparr>),
      sfresh := Suc (sfresh st), slist := (slist st)(name \<mapsto> sfresh st)\<rparr>" and "r = i"
    using assms(2) None by (auto simp: store_ops zero_Sub_def)
  moreover have "store_inv st'"
    using assms(1) unfolding store_inv_def st' by (auto simp: less_Suc_eq)
  moreover have "routes st' = (routes st)(name := routes st name @ [(i, fn)])"
    using assms(1) None unfolding st'
    by (fastforce simp: routes_def store_inv_def fun_eq_iff split: option.split)
  ultimately show ?thesis by simp
next
  case (Some p)
  have st': "st' = st\<lparr>sheap := (sheap st)(p := (sheap st p)\<lparr>handlers :=
      handlers (sheap st p) @ [\<lparr>hid = i, hcb = fn\<rparr>]\<rparr>)\<rparr>" and "r = i"
    using assms(2) Some by (auto simp: store_ops)
  moreover have "store_inv st'"
    using assms(1) unfolding store_inv_def st' by auto
  moreover have "routes st' = (routes st)(name := routes st name @ [(i, fn)])"
    using assms(1) Some unfolding st'
    by (fastforce simp: routes_def store_inv_def fun_eq_iff split: option.split)
  ultimately show ?thesis by simp
qed

lemma Store_Unregister_refines:
  assumes "store_inv st"
  shows "store_inv (Store_Unregister name i st) \<and>
    routes (Store_Unregister name i st) =
      (routes st)(name := filter (\<lambda>h. fst h \<noteq> i) (routes st name))"
proof (cases "slist st name")
  case None
  then show ?thesis using assms by (simp add: Store_Unregister_def routes_def fun_eq_iff)
next
  case (Some p)
  define hs where "hs = filter (\<lambda>h. hid h \<noteq> i) (handlers (sheap st p))"
  have st': "Store_Unregister name i st =
      (let st' = st\<lparr>sheap := (sheap st)(p := (sheap st p)\<lparr>handlers := hs\<rparr>)\<rparr>
       in if hs = [] then st'\<lparr>slist := (slist st)(name := None)\<rparr> else st')"
    using Some by (simp add: store_ops hs_def)
  have m: "map (\<lambda>h. (hid h, hcb h)) hs = filter (\<lambda>h. fst h \<noteq> i) (routes st name)"
    using Some by (simp add: routes_def hs_def filter_map o_def)
  have "n = name" if "slist st n = Some p" for n
    using assms Some that by (auto simp: store_inv_def)
  then have "store_inv (Store_Unregister name i st)"
    using assms unfolding store_inv_def st' Let_def by auto
  moreover have "routes (Store_Unregister name i st) = (routes st)(name := map (\<lambda>h. (hid h, hcb h)) hs)"
    using assms Some unfolding st' Let_def
    by (fastforce simp: routes_def store_inv_def fun_eq_iff split: option.split)
  ultimately show ?thesis using m by simp
qed

lemma Store_Recv_routes:
  "Store_Recv ctx evt st = map (\<lambda>(i, f). (f, ctx, Payload evt)) (routes st (Name evt))"
  by (auto simp: Store_Recv_def Sub_Recv_def routes_def split: option.split)

section \<open>The interface of an event router\<close>

text \<open>
  What the client relies on: handlers of an event are called once each, in the order of their
  registration; a registration adds one, a removal takes exactly the named one away, neither
  touches another event, and no event without handlers is kept.
\<close>

locale event_router =
  fixes register :: "string \<Rightarrow> nat \<Rightarrow> string \<Rightarrow> 's \<Rightarrow> string \<times> 's"
    and unregister :: "string \<Rightarrow> string \<Rightarrow> 's \<Rightarrow> 's"
    and table :: "'s \<Rightarrow> string \<Rightarrow> (string \<times> nat) list"
    and kept :: "'s \<Rightarrow> string \<Rightarrow> bool"
    and inv :: "'s \<Rightarrow> bool"
  assumes register_id: "inv s \<Longrightarrow> fst (register e f i s) = i"
    and register_inv [inv_intros]: "inv s \<Longrightarrow> inv (snd (register e f i s))"
    and table_register: "inv s \<Longrightarrow>
      table (snd (register e f i s)) = (table s)(e := table s e @ [(i, f)])"
    and unregister_inv [inv_intros]: "inv s \<Longrightarrow> inv (unregister e i s)"
    and table_unregister: "inv s \<Longrightarrow>
      table (unregister e i s) = (table s)(e := filter (\<lambda>h. fst h \<noteq> i) (table s e))"
    and kept_iff: "inv s \<Longrightarrow> kept s e \<longleftrightarrow> table s e \<noteq> []"
begin

lemma cancel_undoes:
  assumes "inv s" and "i \<notin> fst ` set (table s e)"
  shows "table (unregister e i (snd (register e f i s))) = table s"
  using assms
  by (force simp: table_register table_unregister register_inv fun_eq_iff filter_id_conv)

lemma cancelled_not_kept:
  assumes "inv s" and "table s e = []"
  shows "\<not> kept (unregister e i (snd (register e f i s))) e"
  using assms by (simp add: kept_iff register_inv unregister_inv table_unregister table_register)

lemma cancel_after_others:
  assumes "inv s" and "i \<notin> fst ` set (table s e)" and "i \<noteq> j"
  shows "table (unregister e i (snd (register e g j (snd (register e f i s))))) e =
    table s e @ [(j, g)]"
  using assms
  by (force simp: table_register table_unregister register_inv fun_eq_iff filter_id_conv)

end

interpretation router: event_router Store_Register Store_Unregister routes
    "\<lambda>st n. slist st n \<noteq> None" store_inv
proof
  fix s :: Store and e f i
  assume inv: "store_inv s"
  obtain r s' where r: "Store_Register e f i s = (r, s')" by force
  from Store_Register_refines [OF inv r] r
  show "fst (Store_Register e f i s) = i" "store_inv (snd (Store_Register e f i s))"
    "routes (snd (Store_Register e f i s)) = (routes s)(e := routes s e @ [(i, f)])" by simp_all
  from Store_Unregister_refines [OF inv]
  show "store_inv (Store_Unregister e i s)"
    "routes (Store_Unregister e i s) = (routes s)(e := filter (\<lambda>h. fst h \<noteq> i) (routes s e))"
    by simp_all
  show "(slist s e \<noteq> None) = (routes s e \<noteq> [])" using store_inv_entry [OF inv] by simp
qed

end
