(* ===== verification/Client.thy ===== *)
theory Client
  imports Broker_Store Callback Subs
begin

text \<open>
  The client (src/client/client.go), without the calls that take it online: its struct, the list
  of online brokers that the brokers' callbacks maintain, receiving, subscribing, and the choice of
  the next broker. Theory \<open>Client_Send\<close> has publishing, \<open>Client_Start\<close> has \<open>Start\<close>, \<open>reset\<close> and
  \<open>owerstaying\<close>.

  Brokers are pointers into a memory of \<open>Broker\<close> structs; \<open>clFresh\<close> is its first free address.
  Every operation here holds the client's lock throughout and is one atomic step. A channel made
  by \<open>Start\<close> is a number.
\<close>

section \<open>State\<close>

record Client =
  clProject :: string
  clModule :: string
  clPID :: string
  clSubs :: "string list"
  clPubs :: "string list"
  AuthSkew :: int64
  AuthTTL :: int64
  clSecret :: string
  clHost :: string
  Certs :: "string \<rightharpoonup> string"
  Callbacks :: Callback
  SubsStore :: Store
  clBrokers :: "BrokerStore option"
  currentSend :: uint64
  onlineBrokers :: "nat list"
  online :: bool
  resetProcess :: bool
  overstayProcess :: bool
  stopResetProcess :: nat
  clMem :: broker_mem
  clFresh :: nat

section \<open>The online list\<close>

fun set_loop :: "broker_mem \<Rightarrow> nat \<Rightarrow> nat list \<Rightarrow> nat list \<Rightarrow> nat list" where
  "set_loop mem bk acc [] = acc"
| "set_loop mem bk acc (s # ss) =
     (if bID (mem s) \<noteq> bID (mem bk) then set_loop mem bk (acc @ [bk]) ss else set_loop mem bk acc ss)"

definition Client_set :: "nat \<Rightarrow> Client \<Rightarrow> Client" where
  "Client_set bk c =
     (let nxt = set_loop (clMem c) bk [] (onlineBrokers c) @ [bk]
      in c\<lparr>onlineBrokers := nxt, online := True, overstayProcess := False, currentSend := 0\<rparr>)"

fun delete_loop :: "broker_mem \<Rightarrow> string \<Rightarrow> nat list \<Rightarrow> nat list \<Rightarrow> nat list" where
  "delete_loop mem i acc [] = acc"
| "delete_loop mem i acc (b # bs) =
     (if bID (mem b) \<noteq> i then delete_loop mem i (acc @ [b]) bs else delete_loop mem i acc bs)"

definition Client_delete :: "string \<Rightarrow> Client \<Rightarrow> Client" where
  "Client_delete i c =
     (let nxt = delete_loop (clMem c) i [] (onlineBrokers c)
      in c\<lparr>onlineBrokers := nxt, online := 0 < length nxt, currentSend := 0\<rparr>)"

definition Client_connect :: "string \<Rightarrow> Client \<Rightarrow> Client outcome" where
  "Client_connect i c =
     (case clBrokers c of
        None \<Rightarrow> Panics NilDereference
      | Some s \<Rightarrow> (case BrokerStore_Get i s of
            None \<Rightarrow> Returns c
          | Some bk \<Rightarrow> Returns (Client_set bk c)))"

text \<open>
  \<open>disconnect\<close>; the first result says whether it goes on to signal the reset goroutine, on the
  channel \<open>stopResetProcess\<close> and holding the read lock until the signal is received.
\<close>

definition Client_disconnect :: "string \<Rightarrow> Client \<Rightarrow> bool \<times> Client" where
  "Client_disconnect i c =
     (let c = Client_delete i c
      in if resetProcess c \<and> online c \<or> \<not> resetProcess c then (False, c) else (True, c))"

definition nextBroker :: "Client \<Rightarrow> nat result \<times> Client" where
  "nextBroker c =
     (if \<not> online c then (Inl ErrClientNotConnected, c)
      else
        (let n = of_nat (length (onlineBrokers c)) :: uint64
         in if n = 0 then (Inl ErrClientNotConnected, c)
            else
              (let s = currentSend c + 1; idx = (s - 1) mod n
               in (Inr (onlineBrokers c ! unat idx), c\<lparr>currentSend := s\<rparr>))))"

section \<open>Receiving and subscribing\<close>

definition Client_recv :: "'c ctx \<Rightarrow> Message \<Rightarrow> Client \<Rightarrow> (nat \<times> 'c ctx \<times> bytes) list \<times> Client" where
  "Client_recv ctx msg c =
     (Store_Recv ctx msg (SubsStore c), c\<lparr>Callbacks := Callback_Recv msg (Callbacks c)\<rparr>)"

definition Client_Sub :: "string \<Rightarrow> nat \<Rightarrow> string \<Rightarrow> Client \<Rightarrow> string \<times> Client" where
  "Client_Sub name fn uuid c =
     (let (i, st) = Store_Register name fn uuid (SubsStore c) in (i, c\<lparr>SubsStore := st\<rparr>))"

text \<open>What the goroutine of \<open>Sub\<close> does once the subscription's context is done.\<close>

definition Client_Sub_cancelled :: "string \<Rightarrow> string \<Rightarrow> Client \<Rightarrow> Client" where
  "Client_Sub_cancelled name i c = c\<lparr>SubsStore := Store_Unregister name i (SubsStore c)\<rparr>"

section \<open>Lemmas\<close>

lemma set_loop_eq [simp]:
  "set_loop mem bk acc ss = acc @ map (\<lambda>_. bk) (filter (\<lambda>s. bID (mem s) \<noteq> bID (mem bk)) ss)"
  by (induction ss arbitrary: acc) auto

lemma delete_loop_eq [simp]:
  "delete_loop mem i acc bs = acc @ filter (\<lambda>b. bID (mem b) \<noteq> i) bs"
  by (induction bs arbitrary: acc) auto

text \<open>The identifiers in the online list.\<close>

definition online_ids :: "Client \<Rightarrow> string set" where
  "online_ids c = (\<lambda>b. bID (clMem c b)) ` set (onlineBrokers c)"

definition knows :: "Client \<Rightarrow> string \<Rightarrow> bool" where
  "knows c i \<longleftrightarrow> (\<exists>s b. clBrokers c = Some s \<and> BrokerStore_Get i s = Some b)"

definition client_inv :: "Client \<Rightarrow> bool" where
  "client_inv c \<longleftrightarrow>
     (online c \<longleftrightarrow> onlineBrokers c \<noteq> []) \<and>
     (\<forall>s. clBrokers c = Some s \<longrightarrow> bstore_inv (clMem c) s)"

lemma Client_set_fields [simp]:
  "onlineBrokers (Client_set bk c) =
     map (\<lambda>_. bk) (filter (\<lambda>s. bID (clMem c s) \<noteq> bID (clMem c bk)) (onlineBrokers c)) @ [bk]"
  "online (Client_set bk c)" "clMem (Client_set bk c) = clMem c"
  "clBrokers (Client_set bk c) = clBrokers c" "resetProcess (Client_set bk c) = resetProcess c"
  "currentSend (Client_set bk c) = 0" "\<not> overstayProcess (Client_set bk c)"
  by (simp_all add: Client_set_def Let_def)

lemma Client_delete_fields [simp]:
  "onlineBrokers (Client_delete i c) = filter (\<lambda>b. bID (clMem c b) \<noteq> i) (onlineBrokers c)"
  "online (Client_delete i c) = (filter (\<lambda>b. bID (clMem c b) \<noteq> i) (onlineBrokers c) \<noteq> [])"
  "clMem (Client_delete i c) = clMem c" "clBrokers (Client_delete i c) = clBrokers c"
  "resetProcess (Client_delete i c) = resetProcess c" "currentSend (Client_delete i c) = 0"
  "overstayProcess (Client_delete i c) = overstayProcess c"
  by (simp_all add: Client_delete_def Let_def)

lemma Client_disconnect_split:
  "Client_disconnect i c = (resetProcess c \<and> \<not> online (Client_delete i c), Client_delete i c)"
  by (auto simp: Client_disconnect_def Let_def)

text \<open>The callbacks as state changes, the way the brokers call them.\<close>

definition connect_callback :: "string \<Rightarrow> Client \<Rightarrow> Client" where
  "connect_callback i c = (case Client_connect i c of Returns c' \<Rightarrow> c' | Panics e \<Rightarrow> c)"

definition disconnect_callback :: "string \<Rightarrow> Client \<Rightarrow> Client" where
  "disconnect_callback i c = snd (Client_disconnect i c)"

lemma connect_known:
  assumes "knows c i" and "client_inv c"
  obtains b where "Client_connect i c = Returns (Client_set b c)" and "bID (clMem c b) = i"
proof -
  from assms(1) obtain s b where s: "clBrokers c = Some s" "BrokerStore_Get i s = Some b"
    by (auto simp: knows_def)
  with assms(2) have "bID (clMem c b) = i" by (intro directory.ok_ident) (simp_all add: client_inv_def)
  with s that show ?thesis by (simp add: Client_connect_def)
qed

lemma connect_unknown: "\<not> knows c i \<Longrightarrow> connect_callback i c = c"
  by (auto simp: knows_def connect_callback_def Client_connect_def split: option.split)

lemma knows_callback [simp]:
  "knows (connect_callback i c) j = knows c j" "knows (disconnect_callback i c) j = knows c j"
  by (auto simp: knows_def connect_callback_def Client_connect_def disconnect_callback_def
      Client_disconnect_split split: option.split)

lemma client_inv_callback [inv_intros]:
  "client_inv c \<Longrightarrow> client_inv (connect_callback i c)"
  "client_inv c \<Longrightarrow> client_inv (disconnect_callback i c)"
  by (auto simp: client_inv_def connect_callback_def Client_connect_def disconnect_callback_def
      Client_disconnect_split split: option.split)

section \<open>What the brokers rely on\<close>

text \<open>
  The callbacks a broker is given: a broker whose disconnection was reported is not routed to
  until it reports a connection again, and the client is online exactly while some broker is.
\<close>

datatype link_event = Up string | Down string

primrec link_step :: "(string \<Rightarrow> 's \<Rightarrow> 's) \<Rightarrow> (string \<Rightarrow> 's \<Rightarrow> 's) \<Rightarrow> link_event \<Rightarrow> 's \<Rightarrow> 's" where
  "link_step up down (Up i) s = up i s"
| "link_step up down (Down i) s = down i s"

locale broker_callbacks =
  fixes up :: "string \<Rightarrow> 's \<Rightarrow> 's" and down :: "string \<Rightarrow> 's \<Rightarrow> 's"
    and ids :: "'s \<Rightarrow> string set" and is_online :: "'s \<Rightarrow> bool"
    and known :: "'s \<Rightarrow> string \<Rightarrow> bool" and inv :: "'s \<Rightarrow> bool"
  assumes up_ids: "inv s \<Longrightarrow> ids (up i s) \<subseteq> insert i (ids s)"
    and up_member: "inv s \<Longrightarrow> known s i \<Longrightarrow> i \<in> ids (up i s)"
    and down_ids: "ids (down i s) = ids s - {i}"
    and online_ids: "inv s \<Longrightarrow> is_online s \<longleftrightarrow> ids s \<noteq> {}"
    and known_up: "known (up i s) j = known s j" and known_down: "known (down i s) j = known s j"
    and inv_up: "inv s \<Longrightarrow> inv (up i s)" and inv_down: "inv s \<Longrightarrow> inv (down i s)"
begin

lemma inv_run: "inv s \<Longrightarrow> inv (fold (link_step up down) evs s)"
proof (induction evs arbitrary: s)
  case (Cons ev evs)
  then show ?case by (cases ev) (simp_all add: inv_up inv_down)
qed simp

lemma known_run: "known (fold (link_step up down) evs s) i = known s i"
proof (induction evs arbitrary: s)
  case (Cons ev evs)
  then show ?case by (cases ev) (simp_all add: known_up known_down)
qed simp

lemma absent_run:
  assumes "inv s" and "i \<notin> ids s" and "Up i \<notin> set evs"
  shows "i \<notin> ids (fold (link_step up down) evs s)"
  using assms
proof (induction evs arbitrary: s)
  case Nil
  then show ?case by simp
next
  case (Cons ev evs)
  have "inv (link_step up down ev s)" "i \<notin> ids (link_step up down ev s)"
    using Cons.prems up_ids by (cases ev; auto simp: inv_up inv_down down_ids)+
  then show ?case using Cons by simp
qed

lemma down_until_up:
  "inv s \<Longrightarrow> Up i \<notin> set evs \<Longrightarrow> i \<notin> ids (fold (link_step up down) evs (down i s))"
  by (rule absent_run) (simp_all add: inv_down down_ids)

lemma online_after_up: "inv s \<Longrightarrow> known s i \<Longrightarrow> is_online (up i s)"
  using online_ids [OF inv_up] up_member by blast

end

interpretation link: broker_callbacks connect_callback disconnect_callback online_ids online knows client_inv
proof
  fix c i
  show "online_ids (disconnect_callback i c) = online_ids c - {i}"
    by (auto simp: online_ids_def disconnect_callback_def Client_disconnect_split)
  assume inv: "client_inv c"
  then show "online c \<longleftrightarrow> online_ids c \<noteq> {}" by (simp add: client_inv_def online_ids_def)
  show "i \<in> online_ids (connect_callback i c)" if "knows c i"
    by (rule connect_known [OF that inv]) (auto simp: online_ids_def connect_callback_def)
  show "online_ids (connect_callback i c) \<subseteq> insert i (online_ids c)"
  proof (cases "knows c i")
    case True
    show ?thesis
      by (rule connect_known [OF True inv]) (auto simp: online_ids_def connect_callback_def)
  qed (use connect_unknown in auto)
qed (auto intro: inv_intros)

section \<open>Properties\<close>

text \<open>
  C21. Whatever connections and disconnections the brokers report, the client is online exactly
  while its list of brokers is non-empty, and a broker whose disconnection was reported stays out
  of the list until it reports a connection.
\<close>

theorem offline_broker_not_routed:
  assumes "client_inv c" and "Up i \<notin> set evs"
  shows "let c' = fold (link_step connect_callback disconnect_callback) evs (disconnect_callback i c)
    in (online c' \<longleftrightarrow> onlineBrokers c' \<noteq> []) \<and> (\<forall>b \<in> set (onlineBrokers c'). bID (clMem c' b) \<noteq> i)"
proof -
  let ?c = "fold (link_step connect_callback disconnect_callback) evs (disconnect_callback i c)"
  have "client_inv ?c" using assms(1) by (intro link.inv_run inv_intros)
  then have "online ?c \<longleftrightarrow> onlineBrokers ?c \<noteq> []" by (simp add: client_inv_def)
  moreover have "\<forall>b \<in> set (onlineBrokers ?c). bID (clMem ?c b) \<noteq> i"
    using link.down_until_up [OF assms] by (metis imageI online_ids_def)
  ultimately show ?thesis by (simp only: Let_def)
qed

text \<open>
  A concrete client: two brokers \<open>a\<close> and \<open>b\<close> at addresses 0 and 1, both known, none online.
\<close>

definition demo_cli :: Client where
  "demo_cli =
     \<lparr>clProject = ''root'', clModule = ''m'', clPID = ''pod'', clSubs = [], clPubs = [],
      AuthSkew = 0, AuthTTL = 0, clSecret = ''s'', clHost = ''h'', Certs = Map.empty,
      Callbacks = Callback_New, SubsStore = Store_New,
      clBrokers = Some \<lparr>brokers = [''a'' \<mapsto> 0, ''b'' \<mapsto> 1]\<rparr>,
      currentSend = 0, onlineBrokers = [], online = False, resetProcess = False,
      overstayProcess = False, stopResetProcess = 0,
      clMem = (\<lambda>p. on_ready 0 (new_broker (if p = 0 then ''a'' else ''b'') ''h'' 1 False)), clFresh = 2\<rparr>"

lemma demo_cli_inv: "client_inv demo_cli"
  by (simp add: client_inv_def demo_cli_def bstore_inv_def on_ready_def new_broker_def)

lemma demo_cli_knows: "knows demo_cli ''a''" "knows demo_cli ''b''"
  by (simp_all add: knows_def demo_cli_def BrokerStore_Get_def)

theorem offline_broker_not_routed_witness:
  "''a'' \<notin> online_ids (fold (link_step connect_callback disconnect_callback) [Up ''b'']
     (disconnect_callback ''a'' demo_cli))"
  using offline_broker_not_routed [OF demo_cli_inv, of "''a''" "[Up ''b'']"]
  by (auto simp: Let_def online_ids_def)

text \<open>
  C22. Connecting a broker forgets the others: after a known broker's \<open>connect\<close> every entry of the
  online list is that broker (the loop appends it once for every other entry it meant to keep), so
  \<open>disconnect\<close> of that broker alone takes the client offline, however many are connected.
\<close>

theorem connect_forgets_others:
  assumes "client_inv c" and "knows c i"
  shows "\<exists>bk. Client_connect i c = Returns (connect_callback i c) \<and> bID (clMem c bk) = i \<and>
    onlineBrokers (connect_callback i c) =
      replicate (Suc (length (filter (\<lambda>b. bID (clMem c b) \<noteq> i) (onlineBrokers c)))) bk \<and>
    \<not> online (snd (Client_disconnect i (connect_callback i c)))"
proof (rule connect_known [OF assms(2,1)])
  fix b
  assume b: "Client_connect i c = Returns (Client_set b c)" "bID (clMem c b) = i"
  then have cb: "connect_callback i c = Client_set b c" by (simp add: connect_callback_def)
  have "onlineBrokers (Client_set b c) =
      replicate (Suc (length (filter (\<lambda>s. bID (clMem c s) \<noteq> i) (onlineBrokers c)))) b"
    by (simp add: b(2) map_replicate_const replicate_append_same)
  then show ?thesis
    using b by (auto simp: cb Client_disconnect_split simp del: replicate_Suc)
qed

theorem connect_forgets_others_witness:
  "onlineBrokers (connect_callback ''b'' (connect_callback ''a'' demo_cli)) = [1, 1] \<and>
   \<not> online (snd (Client_disconnect ''b'' (connect_callback ''b'' (connect_callback ''a'' demo_cli))))"
proof -
  let ?c = "connect_callback ''a'' demo_cli"
  have c: "?c = Client_set 0 demo_cli" "connect_callback ''b'' ?c = Client_set 1 ?c"
    by (simp_all add: connect_callback_def Client_connect_def BrokerStore_Get_def demo_cli_def)
  have "client_inv ?c" by (intro inv_intros demo_cli_inv)
  moreover have "knows ?c ''b''" by (simp add: demo_cli_knows)
  ultimately have "\<not> online (snd (Client_disconnect ''b'' (connect_callback ''b'' ?c)))"
    using connect_forgets_others by blast
  moreover have "onlineBrokers (connect_callback ''b'' ?c) = [1, 1]"
    by (subst c(2), subst c(1)) (simp add: demo_cli_def on_ready_def new_broker_def)
  ultimately show ?thesis by simp
qed

text \<open>
  \<open>disconnect\<close> goes on to signal the reset goroutine exactly when a reset is in progress and
  no broker is left online.
\<close>

lemma disconnect_signals:
  "fst (Client_disconnect i c) \<longleftrightarrow>
     resetProcess c \<and> (\<forall>b \<in> set (onlineBrokers c). bID (clMem c b) = i)"
  by (auto simp: Client_disconnect_split filter_empty_conv)

end
