(* ===== verification/Httpclient.thy ===== *)
theory Httpclient
  imports Authhmac
begin

text \<open>
  Package \<open>httpclient\<close>: signed requests to the control server (src/httpclient/client.go,
  request.go, options.go, response.go). The URL parser, the JSON encoder and the network are
  arguments; \<open>u.String()\<close> of a parsed URL is what the parser returns.
\<close>

section \<open>Options and the client\<close>

record HttpOptions =
  optBaseURL :: string
  optModule :: string
  optProject :: string
  optAuth :: "Authhmac option"

record HttpClient =
  baseURL :: string
  hcModule :: string
  hcProject :: string
  hcAuth :: Authhmac

definition validate :: "HttpOptions \<Rightarrow> unit outcome" where
  "validate opts =
     (if optBaseURL opts = [] then Panics ErrBaseURLRequired
      else if optAuth opts = None then Panics ErrAuthhmacRequired
      else if optModule opts = [] then Panics ErrModuleRequired
      else if optProject opts = [] then Panics ErrProjectRequired
      else Returns ())"

definition HttpClient_New :: "HttpOptions \<Rightarrow> HttpClient outcome" where
  "HttpClient_New opts =
     (case validate opts of
        Panics e \<Rightarrow> Panics e
      | Returns _ \<Rightarrow> (case optAuth opts of
            None \<Rightarrow> Panics NilDereference
          | Some a \<Rightarrow> Returns \<lparr>baseURL = optBaseURL opts, hcModule = optModule opts,
                                hcProject = optProject opts, hcAuth = a\<rparr>))"

section \<open>Requests\<close>

record request =
  rqProject :: string
  rqModule :: string
  rqUrl :: string
  rqMethod :: string
  rqBody :: bytes
  rqHmac :: Hmac

definition Create ::
  "(string \<Rightarrow> string result) \<Rightarrow> ('d \<Rightarrow> bytes result) \<Rightarrow> gotime \<Rightarrow> (nat \<Rightarrow> bytes result) \<Rightarrow>
   HttpClient \<Rightarrow> string \<Rightarrow> string \<Rightarrow> 'd \<Rightarrow> request result" where
  "Create url_parse json now rand c method uri data =
     (case url_parse (baseURL c @ uri) of
        Inl e \<Rightarrow> Inl ErrFailedToParseURL
      | Inr u \<Rightarrow>
          (case json data of
             Inl e \<Rightarrow> Inl ErrFailedToMarshalBody
           | Inr body \<Rightarrow>
               (case Generate (hcAuth c) now rand body of
                  Inl e \<Rightarrow> Inl e
                | Inr hmac \<Rightarrow>
                    Inr \<lparr>rqProject = hcProject c, rqModule = hcModule c, rqUrl = u, rqMethod = method,
                         rqBody = body, rqHmac = hmac\<rparr>)))"

definition ValidateHmac :: "HttpClient \<Rightarrow> gotime \<Rightarrow> bytes \<Rightarrow> Hmac \<Rightarrow> err option" where
  "ValidateHmac c now body hmac = Validate (hcAuth c) now body hmac"

definition GetNonce :: "request \<Rightarrow> string" where
  "GetNonce r = hNonce (rqHmac r)"

text \<open>What goes over the network, and what comes back; reading the body may fail.\<close>

record http_request =
  hqMethod :: string
  hqUrl :: string
  hqHeader :: "(string \<times> string) list"
  hqBody :: bytes

record http_response =
  StatusCode :: int
  hrHeader :: "string \<Rightarrow> string"
  hrBody :: "bytes result"

definition request_headers :: "request \<Rightarrow> (string \<times> string) list" where
  "request_headers r =
     [(''Content-Type'', ''application/json''),
      (''X-Signature'', hSignature (rqHmac r)), (''X-Timestamp'', hTimestamp (rqHmac r)),
      (''X-Nonce'', hNonce (rqHmac r)), (''X-Project'', rqProject r), (''X-Module'', rqModule r)]"

text \<open>
  \<open>Do\<close>, with \<open>new_request\<close> the error of \<open>http.NewRequestWithContext\<close> if it fails. The last
  check, unreachable in the code, is kept.
\<close>

definition Do ::
  "(string \<Rightarrow> string \<Rightarrow> err option) \<Rightarrow> (http_request \<Rightarrow> http_response result) \<Rightarrow>
   request \<Rightarrow> http_response result" where
  "Do new_request network r =
     (case new_request (rqMethod r) (rqUrl r) of
        Some e \<Rightarrow> Inl ErrInternalServerError
      | None \<Rightarrow>
          (case network \<lparr>hqMethod = rqMethod r, hqUrl = rqUrl r, hqHeader = request_headers r,
                          hqBody = rqBody r\<rparr> of
             Inl e \<Rightarrow> Inl ErrRequestFailed
           | Inr resp \<Rightarrow>
               if StatusCode resp \<noteq> 200 then
                 (if StatusCode resp = 401 then Inl ErrUnauthorized
                  else if StatusCode resp = 403 then Inl ErrPermissionDenied
                  else if StatusCode resp = 404 then Inl ErrNotFound
                  else Inl ErrInternalServerError)
               else if StatusCode resp < 200 \<or> 300 \<le> StatusCode resp then Inl ErrRequestFailed
               else Inr resp))"

section \<open>Responses\<close>

record 'd Response =
  rsData :: 'd
  rsRequestNonce :: string
  rsError :: "string option"
  rsSuccess :: bool

definition CompareRequestNonce :: "'d Response \<Rightarrow> string \<Rightarrow> bool" where
  "CompareRequestNonce r nonce \<longleftrightarrow> rsRequestNonce r = nonce"

lemma Create_Inr:
  "Create url_parse json now rand c method uri data = Inr r \<longleftrightarrow>
     (\<exists>u body hmac. url_parse (baseURL c @ uri) = Inr u \<and> json data = Inr body \<and>
        Generate (hcAuth c) now rand body = Inr hmac \<and>
        r = \<lparr>rqProject = hcProject c, rqModule = hcModule c, rqUrl = u, rqMethod = method,
             rqBody = body, rqHmac = hmac\<rparr>)"
  by (auto simp: Create_def split: sum.splits)

lemma Do_Inr:
  "Do new_request network r = Inr resp \<longleftrightarrow>
     new_request (rqMethod r) (rqUrl r) = None \<and>
     network \<lparr>hqMethod = rqMethod r, hqUrl = rqUrl r, hqHeader = request_headers r, hqBody = rqBody r\<rparr> =
       Inr resp \<and> StatusCode resp = 200"
  by (auto simp: Do_def split: option.splits sum.splits if_splits)

section \<open>Properties\<close>

text \<open>
  \<open>New\<close> yields a client exactly when base URL, authenticator, module and project are all
  given, and otherwise panics with the error of the first one missing, in that order.
\<close>

lemma New_validates:
  "(\<exists>c. HttpClient_New opts = Returns c \<and> baseURL c = optBaseURL opts \<and> hcModule c = optModule opts \<and>
      hcProject c = optProject opts \<and> optAuth opts = Some (hcAuth c) \<and>
      baseURL c \<noteq> [] \<and> hcModule c \<noteq> [] \<and> hcProject c \<noteq> []) \<or>
   (\<exists>e. HttpClient_New opts = Panics e \<and>
      find fst [(optBaseURL opts = [], ErrBaseURLRequired), (optAuth opts = None, ErrAuthhmacRequired),
        (optModule opts = [], ErrModuleRequired), (optProject opts = [], ErrProjectRequired)] =
      Some (True, e))"
  by (cases "optAuth opts") (auto simp: HttpClient_New_def validate_def)

text \<open>
  C32. A server with the same secret can authenticate every request: what \<open>Create\<close> builds and
  \<open>Do\<close> puts on the network carries the JSON body, the client's project and module, and headers
  that validate against that body anywhere in the window.
\<close>

theorem Create_Do_authenticated:
  assumes "Create url_parse json t rand c method uri data = Inr r"
    and "wall_clock t" and "in_window (hcAuth c) t t'"
  shows "json data = Inr (rqBody r) \<and>
    Do new_request network r = Do new_request (\<lambda>q. network \<lparr>hqMethod = method, hqUrl = rqUrl r,
      hqHeader = request_headers r, hqBody = rqBody r\<rparr>) r \<and>
    map_of (request_headers r) ''X-Project'' = Some (hcProject c) \<and>
    map_of (request_headers r) ''X-Module'' = Some (hcModule c) \<and>
    (\<exists>sig ts nonce. map_of (request_headers r) ''X-Signature'' = Some sig \<and>
       map_of (request_headers r) ''X-Timestamp'' = Some ts \<and>
       map_of (request_headers r) ''X-Nonce'' = Some nonce \<and>
       Validate (hcAuth c) t' (rqBody r) \<lparr>hSignature = sig, hNonce = nonce, hTimestamp = ts\<rparr> = None)"
proof -
  from assms(1) obtain u body hmac where json: "json data = Inr body"
    and gen: "Generate (hcAuth c) t rand body = Inr hmac"
    and r: "r = \<lparr>rqProject = hcProject c, rqModule = hcModule c, rqUrl = u, rqMethod = method,
             rqBody = body, rqHmac = hmac\<rparr>" by (auto simp: Create_Inr)
  have "Validate (hcAuth c) t' body hmac = None" by (rule auth.sign_checked [OF assms(2,3) gen])
  then show ?thesis unfolding r using json
    by (cases hmac) (auto simp: request_headers_def Do_def split: sum.split)
qed

theorem Create_Do_authenticated_witness:
  "case Create Inr Inr demo_now demo_rand
      \<lparr>baseURL = ''https://p'', hcModule = ''m'', hcProject = ''root'', hcAuth = demo_auth\<rparr> ''POST'' ''/c'' [7] of
     Inl e \<Rightarrow> False
   | Inr r \<Rightarrow> map_of (request_headers r) ''X-Module'' = Some ''m'' \<and>
       Validate demo_auth demo_later (rqBody r) (rqHmac r) = None"
proof -
  let ?c = "\<lparr>baseURL = ''https://p'', hcModule = ''m'', hcProject = ''root'', hcAuth = demo_auth\<rparr>"
  have "\<exists>r. Create Inr Inr demo_now demo_rand ?c ''POST'' ''/c'' [7] = Inr r"
    using demo_req [of "[7]"] by (auto simp: Create_Inr)
  then obtain r where r: "Create Inr Inr demo_now demo_rand ?c ''POST'' ''/c'' [7] = Inr r" ..
  show ?thesis
    using Create_Do_authenticated [OF r, of demo_later "\<lambda>m u. None" "\<lambda>q. Inl ErrRequestFailed"] demo_window r
    by (cases "rqHmac r") (auto simp: request_headers_def)
qed

text \<open>
  Only status 200 is a success: \<open>Do\<close> returns the response exactly when the network
  delivered one with status 200; any other status, the rest of the 2xx range included, becomes a
  typed error, and \<open>ErrRequestFailed\<close> always means that the network failed.
\<close>

lemma Do_status:
  "(case Do new_request network r of
      Inr resp \<Rightarrow> StatusCode resp = 200
    | Inl e \<Rightarrow> e \<in> {ErrUnauthorized, ErrPermissionDenied, ErrNotFound, ErrInternalServerError, ErrRequestFailed}) \<and>
   (Do (\<lambda>m u. None) (\<lambda>q. Inr resp) r =
      (if StatusCode resp = 200 then Inr resp
       else Inl (case StatusCode resp of s \<Rightarrow>
         if s = 401 then ErrUnauthorized else if s = 403 then ErrPermissionDenied
         else if s = 404 then ErrNotFound else ErrInternalServerError))) \<and>
   (Do (\<lambda>m u. None) network r = Inl ErrRequestFailed) =
     (\<exists>e. network \<lparr>hqMethod = rqMethod r, hqUrl = rqUrl r, hqHeader = request_headers r,
                   hqBody = rqBody r\<rparr> = Inl e)"
  by (auto simp: Do_def split: option.split sum.split)

end
