(* ===== verification/Broker_Request.thy ===== *)
theory Broker_Request
  imports Httpclient Backoff Broker
begin

text \<open>
  \<open>broker.Request\<close> (src/broker/request.go): the registration request that is retried with
  Fibonacci delays until the server answers, and the checks on its answer.

  One turn of the loop depends on its environment: the clock and random source when the request
  is made, the network, and the clock when the response is checked. The loop is a partial
  function over the sequence of environments, \<open>None\<close> when it never returns.
\<close>

section \<open>The code\<close>

record RequestOptions =
  roProject :: string
  roModule :: string
  roSubs :: "string list"
  roPubs :: "string list"

record turn_env =
  teNow :: gotime
  teRand :: "nat \<Rightarrow> bytes result"
  teNewRequest :: "string \<Rightarrow> string \<Rightarrow> err option"
  teNetwork :: "http_request \<Rightarrow> http_response result"
  teLater :: gotime

text \<open>The response: parse, look at the error, authenticate, compare the nonce, in this order.\<close>

definition accept_response ::
  "(bytes \<Rightarrow> 'b Response result) \<Rightarrow> HttpClient \<Rightarrow> gotime \<Rightarrow> request \<Rightarrow> http_response \<Rightarrow> 'b result" where
  "accept_response json c now req resp =
     (case hrBody resp of
        Inl e \<Rightarrow> Inl e
      | Inr body \<Rightarrow>
          (case json body of
             Inl e \<Rightarrow> Inl ErrInvalidResponseBody
           | Inr res \<Rightarrow>
               if \<not> rsSuccess res \<and> rsError res \<noteq> None then Inl ErrInternalServerError
               else
                 (case ValidateHmac c now body
                     \<lparr>hSignature = hrHeader resp ''X-Signature'', hNonce = hrHeader resp ''X-Nonce'',
                      hTimestamp = hrHeader resp ''X-Timestamp''\<rparr> of
                    Some e \<Rightarrow> Inl e
                  | None \<Rightarrow>
                      if \<not> CompareRequestNonce res (GetNonce req) then Inl ErrInvalidRequestNonce
                      else Inr (rsData res))))"

datatype 'b turn = Retry err | Finish "'b result"

definition request_turn ::
  "(string \<Rightarrow> string result) \<Rightarrow> (RequestOptions \<Rightarrow> bytes result) \<Rightarrow> (bytes \<Rightarrow> 'b Response result) \<Rightarrow>
   HttpClient \<Rightarrow> RequestOptions \<Rightarrow> turn_env \<Rightarrow> 'b turn" where
  "request_turn url_parse enc dec c opts env =
     (case Create url_parse enc (teNow env) (teRand env) c ''POST'' ''/pubsub/client'' opts of
        Inl e \<Rightarrow> Retry e
      | Inr req \<Rightarrow>
          (case Do (teNewRequest env) (teNetwork env) req of
             Inl e \<Rightarrow> Retry e
           | Inr resp \<Rightarrow> Finish (accept_response dec c (teLater env) req resp)))"

text \<open>
  The loop, over the outcome of each turn: a failed turn sleeps \<open>Fibo\<close> of the number of failures.
  It returns its result with the sleeps made before.
\<close>

partial_function (option) request_loop ::
  "(nat \<Rightarrow> 'b turn) \<Rightarrow> nat \<Rightarrow> int64 \<Rightarrow> int list \<Rightarrow> ('b result \<times> int list) option" where
  "request_loop turns n attemptSeconds slept =
     (case turns n of
        Finish r \<Rightarrow> Some (r, slept)
      | Retry e \<Rightarrow>
          (case Fibo (attemptSeconds + 1) of
             None \<Rightarrow> None
           | Some d \<Rightarrow> request_loop turns (Suc n) (attemptSeconds + 1) (slept @ [sint d])))"

definition Request ::
  "(string \<Rightarrow> string result) \<Rightarrow> (RequestOptions \<Rightarrow> bytes result) \<Rightarrow> (bytes \<Rightarrow> 'b Response result) \<Rightarrow>
   HttpClient \<Rightarrow> RequestOptions \<Rightarrow> (nat \<Rightarrow> turn_env) \<Rightarrow> ('b result \<times> int list) option" where
  "Request url_parse enc dec c opts envs =
     request_loop (\<lambda>n. request_turn url_parse enc dec c opts (envs n)) 0 0 []"

section \<open>Lemmas\<close>

lemma accept_response_Inr:
  "accept_response json c now req resp = Inr x \<longleftrightarrow>
     (\<exists>body res. hrBody resp = Inr body \<and> json body = Inr res \<and>
        (rsSuccess res \<or> rsError res = None) \<and>
        Validate (hcAuth c) now body
          \<lparr>hSignature = hrHeader resp ''X-Signature'', hNonce = hrHeader resp ''X-Nonce'',
           hTimestamp = hrHeader resp ''X-Timestamp''\<rparr> = None \<and>
        rsRequestNonce res = hNonce (rqHmac req) \<and> x = rsData res)"
  by (auto simp: accept_response_def ValidateHmac_def CompareRequestNonce_def GetNonce_def
      split: sum.splits option.splits if_splits)

lemma of_nat64_Suc: "(of_nat k :: int64) + 1 = of_nat (Suc k)"
  by simp

lemma request_loop_retries:
  assumes "\<And>j. j < k \<Longrightarrow> \<exists>e. turns (n + j) = Retry e" and "m + k < 2 ^ 61"
  shows "\<exists>ds. length ds = k \<and> (\<forall>j < k. Fibo (of_nat (Suc (m + j))) = Some (ds ! j)) \<and>
    request_loop turns n (of_nat m) slept =
      request_loop turns (n + k) (of_nat (m + k)) (slept @ map sint ds)"
  using assms
proof (induction k)
  case 0
  then show ?case by simp
next
  case (Suc k)
  then obtain ds where ds: "length ds = k" "\<forall>j < k. Fibo (of_nat (Suc (m + j))) = Some (ds ! j)"
    and l: "request_loop turns n (of_nat m) slept =
      request_loop turns (n + k) (of_nat (m + k)) (slept @ map sint ds)" by fastforce
  obtain e where e: "turns (n + k) = Retry e" using Suc.prems(1) by blast
  have "sint (of_nat (Suc (m + k)) :: int64) = int (Suc (m + k))"
    using sint_i64 [of "int (Suc (m + k))"] Suc.prems(2) by (simp add: bounds64)
  then have "sint (of_nat (Suc (m + k)) :: int64) < 2 ^ 62" using Suc.prems(2) by simp
  then obtain d where d: "Fibo (of_nat (Suc (m + k))) = Some d"
    using http_backoff.delay_total by blast
  have "request_loop turns (n + k) (of_nat (m + k)) (slept @ map sint ds) =
      request_loop turns (n + Suc k) (of_nat (m + Suc k)) (slept @ map sint (ds @ [d]))"
    by (subst request_loop.simps) (simp only: e of_nat64_Suc d add_Suc_right turn.case option.case
        map_append list.map append_assoc)
  then show ?case using ds d l
    by (intro exI [of _ "ds @ [d]"]) (auto simp: nth_append less_Suc_eq)
qed

lemma total_delay_sum:
  assumes "length ds = k" and "\<forall>j < k. delay (of_nat (Suc j)) = Some (ds ! j)"
  shows "total_delay delay k = Some (sum_list (map sint ds))"
  using assms
proof (induction k arbitrary: ds)
  case 0
  then show ?case by simp
next
  case (Suc k)
  define es where "es = butlast ds"
  have ds: "ds = es @ [ds ! k]" and l: "length es = k"
    using Suc.prems(1) by (auto simp: es_def intro: append_butlast_last_id [symmetric] simp: last_conv_nth)
      (metis Suc.prems(1) append_butlast_last_id diff_Suc_1 last_conv_nth length_0_conv nat.distinct(1))
  have "\<forall>j < k. delay (of_nat (Suc j)) = Some (es ! j)"
    using Suc.prems(2) l by (metis ds less_SucI nth_append)
  from Suc.IH [OF l this] have "total_delay delay k = Some (sum_list (map sint es))" .
  moreover have "delay (of_nat (Suc k)) = Some (ds ! k)" using Suc.prems(2) by simp
  ultimately have "total_delay delay (Suc k) = Some (sum_list (map sint es) + sint (ds ! k))" by simp
  also have "\<dots> = Some (sum_list (map sint (es @ [ds ! k])))" by simp
  finally show ?case using ds by simp
qed

abbreviation loop_result ::
  "(nat \<Rightarrow> 'b turn) \<Rightarrow> nat \<Rightarrow> int list \<Rightarrow> 'b result \<times> int list \<Rightarrow> bool" where
  "loop_result turns n slept y \<equiv>
     (\<exists>k. turns (n + k) = Finish (fst y) \<and> (\<forall>j < k. \<exists>e. turns (n + j) = Retry e) \<and>
        length (snd y) = length slept + k)"

lemma request_loop_result:
  assumes "request_loop turns n a slept = Some (r, slept')"
  shows "\<exists>k. turns (n + k) = Finish r \<and> (\<forall>j < k. \<exists>e. turns (n + j) = Retry e) \<and>
    length slept' = length slept + k"
proof -
  have "loop_result turns n slept (r, slept')"
  proof (rule request_loop.raw_induct [where P = "\<lambda>turns n a. loop_result turns n", OF _ assms])
    fix loop turns n a slept y
    assume IH: "\<And>turns n a slept y. loop turns n a slept = Some y \<Longrightarrow> loop_result turns n slept y"
      and step: "(case turns n of
          Retry e \<Rightarrow> (case Fibo (a + 1) of None \<Rightarrow> None
            | Some d \<Rightarrow> loop turns (Suc n) (a + 1) (slept @ [sint d]))
        | Finish r \<Rightarrow> Some (r, slept)) = Some y"
    show "loop_result turns n slept y"
    proof (cases "turns n")
      case (Finish q)
      with step show ?thesis by (auto intro!: exI [of _ 0])
    next
      case (Retry e)
      with step obtain d :: int64 where "loop turns (Suc n) (a + 1) (slept @ [sint d]) = Some y"
        by (auto split: option.splits)
      from IH [OF this] obtain k where k: "turns (n + Suc k) = Finish (fst y)"
        "\<forall>j < k. \<exists>e. turns (n + Suc j) = Retry e" "length (snd y) = length slept + Suc k" by auto
      have "\<forall>j < Suc k. \<exists>e. turns (n + j) = Retry e"
        using k(2) Retry by (auto simp: less_Suc_eq_0_disj)
      with k(1,3) show ?thesis by blast
    qed
  qed
  then show ?thesis by simp
qed

lemma request_turn_Finish:
  "request_turn url_parse enc dec c opts env = Finish r \<longleftrightarrow>
     (\<exists>req resp. Create url_parse enc (teNow env) (teRand env) c ''POST'' ''/pubsub/client'' opts = Inr req \<and>
        Do (teNewRequest env) (teNetwork env) req = Inr resp \<and>
        r = accept_response dec c (teLater env) req resp)"
  by (auto simp: request_turn_def split: sum.splits)

text \<open>
  A concrete setting: a server that is down, and one that answers every request with a body it
  signs and that reads as a success carrying the request's nonce.
\<close>

definition demo_client :: HttpClient where
  "demo_client = \<lparr>baseURL = ''https://p'', hcModule = ''m'', hcProject = ''root'', hcAuth = demo_auth\<rparr>"

definition demo_enc :: "RequestOptions \<Rightarrow> bytes result" where
  "demo_enc opts = Inr [7]"

definition demo_dec :: "'b \<Rightarrow> bytes \<Rightarrow> 'b Response result" where
  "demo_dec x body = Inr \<lparr>rsData = x, rsRequestNonce = hNonce (demo_req [7]), rsError = None, rsSuccess = True\<rparr>"

definition demo_opts :: RequestOptions where
  "demo_opts = \<lparr>roProject = ''root'', roModule = ''m'', roSubs = [], roPubs = []\<rparr>"

definition demo_resp :: http_response where
  "demo_resp = \<lparr>StatusCode = 200,
     hrHeader = (\<lambda>k. if k = ''X-Signature'' then hSignature (demo_req [9])
       else if k = ''X-Nonce'' then hNonce (demo_req [9]) else hTimestamp (demo_req [9])),
     hrBody = Inr [9]\<rparr>"

definition demo_turn :: "bool \<Rightarrow> turn_env" where
  "demo_turn up = \<lparr>teNow = demo_now, teRand = demo_rand, teNewRequest = (\<lambda>m u. None),
     teNetwork = (\<lambda>q. if up then Inr demo_resp else Inl (LibErr ''connection refused'')),
     teLater = demo_later\<rparr>"

definition demo_request :: request where
  "demo_request = \<lparr>rqProject = ''root'', rqModule = ''m'', rqUrl = ''https://p/pubsub/client'',
     rqMethod = ''POST'', rqBody = [7], rqHmac = demo_req [7]\<rparr>"

lemma demo_fields [simp]:
  "hcAuth demo_client = demo_auth" "hrBody demo_resp = Inr [9]" "rqHmac demo_request = demo_req [7]"
  "hrHeader demo_resp ''X-Signature'' = hSignature (demo_req [9])"
  "hrHeader demo_resp ''X-Nonce'' = hNonce (demo_req [9])"
  "hrHeader demo_resp ''X-Timestamp'' = hTimestamp (demo_req [9])"
  "teNow (demo_turn up) = demo_now" "teRand (demo_turn up) = demo_rand"
  "teNewRequest (demo_turn up) = (\<lambda>m u. None)" "teLater (demo_turn up) = demo_later"
  "teNetwork (demo_turn True) = (\<lambda>q. Inr demo_resp)"
  by (simp_all add: demo_client_def demo_resp_def demo_request_def demo_turn_def)

lemma demo_create: "Create Inr demo_enc demo_now demo_rand demo_client ''POST'' ''/pubsub/client'' demo_opts =
    Inr demo_request"
  using demo_req [of "[7]"] by (auto simp: Create_Inr demo_enc_def demo_request_def demo_client_def)

lemma demo_do: "Do (\<lambda>m u. None) (\<lambda>q. Inr demo_resp) demo_request = Inr demo_resp"
  by (simp add: Do_Inr demo_resp_def)

lemma demo_up: "request_turn Inr demo_enc (demo_dec x) demo_client demo_opts (demo_turn True) = Finish (Inr x)"
proof -
  have "accept_response (demo_dec x) demo_client demo_later demo_request demo_resp = Inr x"
    using demo_req_valid [of "[9]"]
    by (cases "demo_req [9]")
      (simp add: accept_response_Inr demo_resp_def demo_dec_def demo_request_def demo_client_def)
  then show ?thesis using demo_create demo_do by (simp add: request_turn_Finish demo_turn_def)
qed

lemma demo_down: "request_turn Inr demo_enc dec demo_client demo_opts (demo_turn False) = Retry ErrRequestFailed"
  using demo_create by (simp add: request_turn_def demo_turn_def Do_def)

lemma demo_Request:
  "Request Inr demo_enc (demo_dec x) demo_client demo_opts (\<lambda>n. demo_turn True) = Some (Inr x, [])"
  unfolding Request_def by (subst request_loop.simps) (simp add: demo_up)

section \<open>Properties\<close>

text \<open>
  C5. A broker list that \<open>Request\<close> returns is authentic: it was read from a response with status
  200 to a request the client made after all earlier ones failed, that response's body validates
  under the shared secret and carries the nonce of this very request. The response need not report
  success: a false \<open>success\<close> is accepted if \<open>error\<close> is null.
\<close>

theorem Request_authentic:
  assumes "Request url_parse enc dec c opts envs = Some (Inr x, slept)"
  shows "\<exists>n req resp body res.
    length slept = n \<and>
    (\<forall>j < n. \<exists>e. request_turn url_parse enc dec c opts (envs j) = Retry e) \<and>
    Create url_parse enc (teNow (envs n)) (teRand (envs n)) c ''POST'' ''/pubsub/client'' opts = Inr req \<and>
    Do (teNewRequest (envs n)) (teNetwork (envs n)) req = Inr resp \<and> StatusCode resp = 200 \<and>
    hrBody resp = Inr body \<and> dec body = Inr res \<and> x = rsData res \<and>
    Validate (hcAuth c) (teLater (envs n)) body
      \<lparr>hSignature = hrHeader resp ''X-Signature'', hNonce = hrHeader resp ''X-Nonce'',
       hTimestamp = hrHeader resp ''X-Timestamp''\<rparr> = None \<and>
    rsRequestNonce res = GetNonce req \<and> (rsSuccess res \<or> rsError res = None)"
proof -
  from request_loop_result [OF assms [unfolded Request_def]] obtain n where
    n: "request_turn url_parse enc dec c opts (envs n) = Finish (Inr x)"
    "\<forall>j < n. \<exists>e. request_turn url_parse enc dec c opts (envs j) = Retry e" "length slept = n"
    by auto
  from n(1) obtain req resp where req:
    "Create url_parse enc (teNow (envs n)) (teRand (envs n)) c ''POST'' ''/pubsub/client'' opts = Inr req"
    "Do (teNewRequest (envs n)) (teNetwork (envs n)) req = Inr resp"
    and acc: "accept_response dec c (teLater (envs n)) req resp = Inr x"
    by (auto simp: request_turn_Finish)
  have "StatusCode resp = 200" using req(2) by (simp add: Do_Inr)
  moreover from acc obtain body res where "hrBody resp = Inr body" "dec body = Inr res"
    "rsSuccess res \<or> rsError res = None" "rsRequestNonce res = hNonce (rqHmac req)" "x = rsData res"
    "Validate (hcAuth c) (teLater (envs n)) body
      \<lparr>hSignature = hrHeader resp ''X-Signature'', hNonce = hrHeader resp ''X-Nonce'',
       hTimestamp = hrHeader resp ''X-Timestamp''\<rparr> = None"
    by (auto simp: accept_response_Inr)
  ultimately show ?thesis using n(2,3) req by (auto simp: GetNonce_def)
qed

theorem Request_authentic_witness:
  "\<exists>req (resp :: http_response) body. Create Inr demo_enc demo_now demo_rand demo_client ''POST'' ''/pubsub/client'' demo_opts =
       Inr req \<and> hrBody resp = Inr body \<and>
     Validate demo_auth demo_later body
      \<lparr>hSignature = hrHeader resp ''X-Signature'', hNonce = hrHeader resp ''X-Nonce'',
       hTimestamp = hrHeader resp ''X-Timestamp''\<rparr> = None \<and>
     demo_dec (3 :: nat) body = Inr \<lparr>rsData = 3, rsRequestNonce = GetNonce req, rsError = None, rsSuccess = True\<rparr>"
proof -
  from Request_authentic [OF demo_Request [of "3 :: nat"]] obtain req body res and resp :: http_response where
    "Create Inr demo_enc demo_now demo_rand demo_client ''POST'' ''/pubsub/client'' demo_opts = Inr req"
    "hrBody resp = Inr body" "demo_dec (3 :: nat) body = Inr res" "rsRequestNonce res = GetNonce req"
    "Validate demo_auth demo_later body
      \<lparr>hSignature = hrHeader resp ''X-Signature'', hNonce = hrHeader resp ''X-Nonce'',
       hTimestamp = hrHeader resp ''X-Timestamp''\<rparr> = None"
    unfolding demo_fields by blast
  then show ?thesis by (intro exI [of _ req] exI [of _ resp] exI [of _ body]) (auto simp: demo_dec_def)
qed

text \<open>
  C31. The retry schedule: if exactly the first \<open>k\<close> turns fail, \<open>Request\<close> returns the result
  of the next one after \<open>k\<close> sleeps, the one after failure \<open>j\<close> being the least Fibonacci number
  above \<open>j\<close> capped at 16 seconds, so that it has waited between \<open>k\<close> and \<open>16 k\<close> seconds.
\<close>

theorem Request_retries:
  assumes "\<And>j. j < k \<Longrightarrow> \<exists>e. request_turn url_parse enc dec c opts (envs j) = Retry e"
    and "request_turn url_parse enc dec c opts (envs k) = Finish r" and "k < 2 ^ 61"
  shows "\<exists>slept. Request url_parse enc dec c opts envs = Some (r, slept) \<and> length slept = k \<and>
    (\<forall>j < k. \<exists>f. least_fib_above (int (Suc j)) f \<and> slept ! j = min 16 (int f)) \<and>
    int k \<le> sum_list slept \<and> sum_list slept \<le> 16 * int k"
proof -
  let ?turns = "\<lambda>n. request_turn url_parse enc dec c opts (envs n)"
  have "\<And>j. j < k \<Longrightarrow> \<exists>e. ?turns (0 + j) = Retry e" "0 + k < 2 ^ 61" using assms(1,3) by simp_all
  from request_loop_retries [where turns = ?turns and n = 0 and m = 0 and slept = "[]", OF this] obtain ds where ds: "length ds = k"
    and f: "\<forall>j < k. Fibo (of_nat (Suc j)) = Some (ds ! j)"
    and l: "request_loop ?turns 0 0 [] = request_loop ?turns k (of_nat k) (map sint ds)"
    by (auto simp del: of_nat_Suc)
  have "Request url_parse enc dec c opts envs = Some (r, map sint ds)"
    unfolding Request_def l by (subst request_loop.simps) (simp add: assms(2))
  moreover have "\<exists>q. least_fib_above (int (Suc j)) q \<and> map sint ds ! j = min 16 (int q)"
    if "j < k" for j
  proof -
    have "sint (of_nat (Suc j) :: int64) = int (Suc j)"
      using sint_i64 [of "int (Suc j)"] that assms(3) by (simp add: bounds64)
    then show ?thesis using Fibo_least [of "of_nat (Suc j)"] f that assms(3) ds by simp
  qed
  moreover obtain t where "total_delay Fibo k = Some t" "int k \<le> t" "t \<le> int k * 16"
    using http_backoff.total_delay_bounds [OF assms(3)] by blast
  ultimately show ?thesis using ds total_delay_sum [OF ds f] by auto
qed

theorem Request_retries_witness:
  "\<exists>slept. Request Inr demo_enc (demo_dec (3 :: nat)) demo_client demo_opts (\<lambda>n. demo_turn (5 \<le> n)) =
      Some (Inr 3, slept) \<and> length slept = 5 \<and> 5 \<le> sum_list slept \<and> sum_list slept \<le> 80"
  using Request_retries [of 5 Inr demo_enc "demo_dec (3 :: nat)" demo_client demo_opts "\<lambda>n. demo_turn (5 \<le> n)" "Inr 3"]
  by (auto simp: demo_up demo_down)

text \<open>
  Startup blocks while the server is unreachable: if every turn fails, \<open>Request\<close> never
  returns.
\<close>

lemma Request_blocks:
  assumes "\<And>n. \<exists>e. request_turn url_parse enc dec c opts (envs n) = Retry e"
  shows "Request url_parse enc dec c opts envs = None"
proof (cases "Request url_parse enc dec c opts envs")
  case (Some y)
  then obtain r slept where "Request url_parse enc dec c opts envs = Some (r, slept)" by (cases y) simp
  from request_loop_result [OF this [unfolded Request_def]] obtain k where
    "request_turn url_parse enc dec c opts (envs k) = Finish r" by auto
  with assms [of k] show ?thesis by auto
qed

lemma Request_blocks_witness:
  "Request Inr demo_enc (demo_dec (3 :: nat)) demo_client demo_opts (\<lambda>n. demo_turn False) = None"
  by (rule Request_blocks) (simp add: demo_down)

text \<open>
  An honest exchange succeeds at once: if the network answers the client's first request with
  status 200 and a body that echoes its nonce, signed under the shared secret at a time from which
  the client's check is in the window, \<open>Request\<close> returns its data without sleeping.
\<close>

lemma Request_honest_server:
  assumes "Create url_parse enc (teNow (envs 0)) (teRand (envs 0)) c ''POST'' ''/pubsub/client'' opts = Inr req"
    and "Do (teNewRequest (envs 0)) (teNetwork (envs 0)) req = Inr resp"
    and "hrBody resp = Inr body" and "dec body = Inr res"
    and "rsSuccess res" and "rsRequestNonce res = GetNonce req"
    and "Generate (hcAuth c) t rand body = Inr h"
    and "hrHeader resp ''X-Signature'' = hSignature h" and "hrHeader resp ''X-Nonce'' = hNonce h"
    and "hrHeader resp ''X-Timestamp'' = hTimestamp h"
    and "wall_clock t" and "in_window (hcAuth c) t (teLater (envs 0))"
  shows "Request url_parse enc dec c opts envs = Some (Inr (rsData res), [])"
proof -
  have "Validate (hcAuth c) (teLater (envs 0)) body h = None"
    by (rule auth.sign_checked [OF assms(11,12,7)])
  then have "accept_response dec c (teLater (envs 0)) req resp = Inr (rsData res)"
    using assms(3-6,8-10) by (cases h) (auto simp: accept_response_Inr GetNonce_def)
  then have "request_turn url_parse enc dec c opts (envs 0) = Finish (Inr (rsData res))"
    using assms(1,2) by (auto simp: request_turn_Finish)
  then show ?thesis unfolding Request_def by (subst request_loop.simps) simp
qed

lemma Request_honest_server_witness:
  "Request Inr demo_enc (demo_dec (3 :: nat)) demo_client demo_opts (\<lambda>n. demo_turn True) = Some (Inr 3, [])"
  using Request_honest_server [where url_parse = Inr and enc = demo_enc and dec = "demo_dec (3 :: nat)" and
      c = demo_client and opts = demo_opts and envs = "\<lambda>n. demo_turn True" and req = demo_request and
      resp = demo_resp and body = "[9]" and t = demo_now and rand = demo_rand and h = "demo_req [9]"]
    demo_create demo_do demo_window demo_req [of "[9]"]
  by (simp add: demo_dec_def GetNonce_def)

end
