(* ===== verification/Client_Start.thy ===== *)
theory Client_Start
  imports Client Broker_Request
begin

text \<open>
  Going online and starting over (src/client/client.go: \<open>Start\<close>, \<open>reset\<close>, \<open>owerstaying\<close>).

  \<open>Start\<close> is sequential: it blocks in the broker request (\<open>None\<close> if that never returns), panics on
  its error, and otherwise fills the store and launches the brokers; what it launches is returned,
  and theory \<open>Broker_Lifecycle\<close> runs it. A decoded broker list may contain null, which the code
  dereferences. The goroutine of \<open>reset\<close> is its body after the wait, as a function of its own.
\<close>

section \<open>The code\<close>

text \<open>A launched broker with the arguments its interceptor was made from.\<close>

record launched =
  lBroker :: nat
  lAuth :: Authhmac
  lProject :: string
  lModule :: string
  lPid :: string

definition with_cert :: "(string \<rightharpoonup> string) \<Rightarrow> Broker \<Rightarrow> Broker" where
  "with_cert certs bk = (case certs (bID bk) of Some crt \<Rightarrow> SetCertPath crt bk | None \<Rightarrow> bk)"

text \<open>The body of the loop that launches the brokers: \<open>c\<close> gets the broker, the goroutine is \<open>launched\<close>.\<close>

definition launch_one :: "Authhmac \<Rightarrow> string \<Rightarrow> Broker \<Rightarrow> Client \<Rightarrow> Client \<times> launched" where
  "launch_one auth pid bk c =
     (let p = clFresh c;
          c = c\<lparr>clMem := (clMem c)(p := with_cert (Certs c) bk), clFresh := Suc p\<rparr>;
          c = c\<lparr>clBrokers := map_option (BrokerStore_Set p (clMem c)) (clBrokers c)\<rparr>
      in (c, \<lparr>lBroker = p, lAuth = auth, lProject = clProject c, lModule = clModule c, lPid = pid\<rparr>))"

fun start_brokers ::
  "Authhmac \<Rightarrow> string \<Rightarrow> Broker option list \<Rightarrow> Client \<Rightarrow> (Client \<times> launched list) outcome" where
  "start_brokers auth pid [] c = Returns (c, [])"
| "start_brokers auth pid (None # bks) c = Panics NilDereference"
| "start_brokers auth pid (Some bk # bks) c =
     (let (c, l) = launch_one auth pid bk c
      in case start_brokers auth pid bks c of
           Panics e \<Rightarrow> Panics e
         | Returns (c', ls) \<Rightarrow> Returns (c', l # ls))"

definition Client_auth :: "Client \<Rightarrow> Authhmac" where
  "Client_auth c = NewAuth \<lparr>Skew = AuthSkew c, TTL = AuthTTL c, Secret = clSecret c\<rparr>"

definition http_options :: "Client \<Rightarrow> HttpOptions" where
  "http_options c =
     \<lparr>optBaseURL = clHost c, optModule = clModule c, optProject = clProject c,
      optAuth = Some (Client_auth c)\<rparr>"

definition request_options :: "Client \<Rightarrow> RequestOptions" where
  "request_options c =
     \<lparr>roProject = clProject c, roModule = clModule c, roSubs = clSubs c, roPubs = clPubs c\<rparr>"

text \<open>Between the server's answer and the loop: the process identifier, and a store on the first start.\<close>

definition set_up :: "string \<Rightarrow> Client \<Rightarrow> Client" where
  "set_up pid c =
     (let c = c\<lparr>clPID := pid\<rparr>
      in if clBrokers c = None then c\<lparr>clBrokers := Some BrokerStore_New\<rparr> else c)"

text \<open>\<open>Start\<close> after the channel has been replaced, and \<open>Start\<close> as a whole.\<close>

definition Start_rest ::
  "(string \<Rightarrow> string result) \<Rightarrow> (RequestOptions \<Rightarrow> bytes result) \<Rightarrow>
   (bytes \<Rightarrow> Broker option list Response result) \<Rightarrow> (nat \<Rightarrow> turn_env) \<Rightarrow> string \<Rightarrow> string \<Rightarrow>
   Client \<Rightarrow> (Client \<times> launched list) outcome option" where
  "Start_rest url_parse enc dec envs hostname uuid c =
     (let auth = Client_auth c
      in case HttpClient_New (http_options c) of
           Panics e \<Rightarrow> Some (Panics e)
         | Returns ch \<Rightarrow>
             (case Request url_parse enc dec ch (request_options c) envs of
                None \<Rightarrow> None
              | Some (Inl e, slept) \<Rightarrow> Some (Panics e)
              | Some (Inr bks, slept) \<Rightarrow>
                  (let pid = (if hostname = [] then uuid else hostname)
                   in case start_brokers auth pid bks (set_up pid c) of
                        Panics e \<Rightarrow> Some (Panics e)
                      | Returns (c, ls) \<Rightarrow>
                          Some (Returns (c\<lparr>overstayProcess := False, resetProcess := False\<rparr>, ls)))))"

text \<open>The answer that \<open>Start\<close> waits for (none: no return, or a panic).\<close>

definition answered_request ::
  "(string \<Rightarrow> string result) \<Rightarrow> (RequestOptions \<Rightarrow> bytes result) \<Rightarrow>
   (bytes \<Rightarrow> Broker option list Response result) \<Rightarrow> (nat \<Rightarrow> turn_env) \<Rightarrow> Client \<Rightarrow> Broker option list option" where
  "answered_request url_parse enc dec envs c =
     (case HttpClient_New (http_options c) of
        Panics e \<Rightarrow> None
      | Returns ch \<Rightarrow>
          (case Request url_parse enc dec ch (request_options c) envs of
             None \<Rightarrow> None
           | Some (Inl e, slept) \<Rightarrow> None
           | Some (Inr bks, slept) \<Rightarrow> Some bks))"

definition make_stop :: "Client \<Rightarrow> Client" where
  "make_stop c = c\<lparr>stopResetProcess := Suc (stopResetProcess c)\<rparr>"

definition Client_Start ::
  "(string \<Rightarrow> string result) \<Rightarrow> (RequestOptions \<Rightarrow> bytes result) \<Rightarrow>
   (bytes \<Rightarrow> Broker option list Response result) \<Rightarrow> (nat \<Rightarrow> turn_env) \<Rightarrow> string \<Rightarrow> string \<Rightarrow>
   Client \<Rightarrow> (Client \<times> launched list) outcome option" where
  "Client_Start url_parse enc dec envs hostname uuid c =
     Start_rest url_parse enc dec envs hostname uuid (make_stop c)"

text \<open>\<open>c.brokers.Done()\<close>, the map ranged over in the order \<open>ks\<close>.\<close>

definition brokers_Done :: "string list \<Rightarrow> Client \<Rightarrow> Client outcome" where
  "brokers_Done ks c =
     (case clBrokers c of
        None \<Rightarrow> Panics NilDereference
      | Some s \<Rightarrow> (let (mem, s) = BrokerStore_Done ks (clMem c) s
                   in Returns (c\<lparr>clMem := mem, clBrokers := Some s\<rparr>)))"

text \<open>\<open>reset\<close>: the first result says whether it spawned the goroutine.\<close>

definition Client_reset :: "Client \<Rightarrow> bool \<times> Client" where
  "Client_reset c = (if resetProcess c then (False, c) else (True, c\<lparr>resetProcess := True\<rparr>))"

text \<open>What both ways of starting over do after their wait; \<open>start\<close> is \<open>Start\<close> in its environment.\<close>

definition reset_restart ::
  "(Client \<Rightarrow> (Client \<times> launched list) outcome option) \<Rightarrow> string list \<Rightarrow> Client \<Rightarrow>
   (Client \<times> launched list) outcome option" where
  "reset_restart start ks c =
     (case brokers_Done ks c of Panics e \<Rightarrow> Some (Panics e) | Returns c \<Rightarrow> start c)"

definition Client_owerstaying ::
  "(Client \<Rightarrow> (Client \<times> launched list) outcome option) \<Rightarrow> string list \<Rightarrow> Client \<Rightarrow>
   (bool \<times> Client \<times> launched list) outcome option" where
  "Client_owerstaying start ks c =
     (if resetProcess c \<or> online c \<or> overstayProcess c then Some (Returns (False, c, []))
      else
        (let c = c\<lparr>overstayProcess := True\<rparr>
         in case brokers_Done ks c of
              Panics e \<Rightarrow> Some (Panics e)
            | Returns c \<Rightarrow> (case start c of
                  None \<Rightarrow> None
                | Some (Panics e) \<Rightarrow> Some (Panics e)
                | Some (Returns (c, ls)) \<Rightarrow> Some (Returns (True, c, ls)))))"

section \<open>Lemmas\<close>

lemma bID_with_cert [simp]: "bID (with_cert certs bk) = bID bk"
  by (simp add: with_cert_def SetCertPath_def split: option.split)

text \<open>What the loop leaves: consecutive addresses, each broker findable under its identifier.\<close>

lemma start_brokers_spec:
  assumes "distinct (map bID bks)" and "clBrokers c = Some s"
  shows "\<exists>c' s'. start_brokers auth pid (map Some bks) c =
      Returns (c', map (\<lambda>j. \<lparr>lBroker = clFresh c + j, lAuth = auth, lProject = clProject c,
        lModule = clModule c, lPid = pid\<rparr>) [0 ..< length bks]) \<and>
    c' = c\<lparr>clMem := clMem c', clFresh := clFresh c + length bks, clBrokers := Some s'\<rparr> \<and>
    (\<forall>p < clFresh c. clMem c' p = clMem c p) \<and>
    (\<forall>j < length bks. clMem c' (clFresh c + j) = with_cert (Certs c) (bks ! j)) \<and>
    (\<forall>j < length bks. BrokerStore_Get (bID (bks ! j)) s' = Some (clFresh c + j)) \<and>
    (\<forall>i. i \<notin> bID ` set bks \<longrightarrow> BrokerStore_Get i s' = BrokerStore_Get i s)"
  using assms
proof (induction bks arbitrary: c s)
  case Nil
  then show ?case by (intro exI [of _ c] exI [of _ s]) simp
next
  case (Cons bk bks)
  let ?p = "clFresh c"
  let ?mem = "(clMem c)(?p := with_cert (Certs c) bk)"
  let ?s = "BrokerStore_Set ?p ?mem s"
  let ?c = "c\<lparr>clMem := ?mem, clFresh := Suc ?p, clBrokers := Some ?s\<rparr>"
  have "distinct (map bID bks)" "clBrokers ?c = Some ?s" using Cons.prems(1) by simp_all
  from Cons.IH [OF this] obtain c' s' where
    run: "start_brokers auth pid (map Some bks) ?c = Returns (c', map (\<lambda>j. \<lparr>lBroker = clFresh ?c + j,
        lAuth = auth, lProject = clProject ?c, lModule = clModule ?c, lPid = pid\<rparr>) [0 ..< length bks])"
    and c': "c' = ?c\<lparr>clMem := clMem c', clFresh := clFresh ?c + length bks, clBrokers := Some s'\<rparr>"
    and old: "\<forall>p < clFresh ?c. clMem c' p = clMem ?c p"
    and new: "\<forall>j < length bks. clMem c' (clFresh ?c + j) = with_cert (Certs ?c) (bks ! j)"
    and get: "\<forall>j < length bks. BrokerStore_Get (bID (bks ! j)) s' = Some (clFresh ?c + j)"
    and other: "\<forall>i. i \<notin> bID ` set bks \<longrightarrow> BrokerStore_Get i s' = BrokerStore_Get i ?s" by blast
  have get_s: "BrokerStore_Get i ?s = (if bID bk = i then Some ?p else BrokerStore_Get i s)" for i
    by (simp add: directory.get_put)
  show ?case
  proof (intro exI conjI)
    show "start_brokers auth pid (map Some (bk # bks)) c =
        Returns (c', map (\<lambda>j. \<lparr>lBroker = clFresh c + j, lAuth = auth, lProject = clProject c,
          lModule = clModule c, lPid = pid\<rparr>) [0 ..< length (bk # bks)])"
      using run Cons.prems(2) by (simp add: launch_one_def Let_def upt_conv_Cons map_Suc_upt [symmetric] del: upt_Suc)
    show "c' = c\<lparr>clMem := clMem c', clFresh := clFresh c + length (bk # bks), clBrokers := Some s'\<rparr>"
      by (subst c') simp
    show "\<forall>p < clFresh c. clMem c' p = clMem c p" using old by simp
    show "\<forall>j < length (bk # bks). clMem c' (clFresh c + j) = with_cert (Certs c) ((bk # bks) ! j)"
      using old [rule_format, of ?p] new by (auto simp: less_Suc_eq_0_disj)
    show "\<forall>j < length (bk # bks). BrokerStore_Get (bID ((bk # bks) ! j)) s' = Some (clFresh c + j)"
      using get other get_s Cons.prems(1) by (auto simp: less_Suc_eq_0_disj)
    show "\<forall>i. i \<notin> bID ` set (bk # bks) \<longrightarrow> BrokerStore_Get i s' = BrokerStore_Get i s"
      using other get_s by auto
  qed
qed

lemma start_brokers_null: "None \<in> set bks \<Longrightarrow> start_brokers auth pid bks c = Panics NilDereference"
proof (induction bks arbitrary: c)
  case (Cons b bks)
  then show ?case by (cases b) (simp_all add: Let_def)
qed simp

text \<open>The memory in which every broker of the store has been told to stop.\<close>

definition stopped_brokers :: "BrokerStore \<Rightarrow> broker_mem \<Rightarrow> broker_mem" where
  "stopped_brokers s mem b = (if b \<in> ran (brokers s) then Broker_Done (mem b) else mem b)"

lemma brokers_Done_spec:
  assumes "client_inv c" and "clBrokers c = Some s" and "dom (brokers s) \<subseteq> set ks"
  shows "brokers_Done ks c = Returns (c\<lparr>clBrokers := Some BrokerStore_New,
    clMem := stopped_brokers s (clMem c)\<rparr>)"
proof -
  have "bstore_inv (clMem c) s" using assms(1,2) by (simp add: client_inv_def)
  moreover have "(\<exists>k \<in> set ks. brokers s k = Some b) \<longleftrightarrow> b \<in> ran (brokers s)" for b
    using assms(3) by (auto simp: ran_def)
  moreover have "(\<lambda>k. if k \<in> set ks then None else brokers s k) = Map.empty"
    using assms(3) by (auto simp: fun_eq_iff)
  ultimately show ?thesis
    using assms(2)
    by (simp add: brokers_Done_def BrokerStore_Done_spec BrokerStore_New_def stopped_brokers_def [abs_def])
qed

lemma HttpClient_New_options:
  "HttpClient_New (http_options c) =
     (if clHost c = [] then Panics ErrBaseURLRequired
      else if clModule c = [] then Panics ErrModuleRequired
      else if clProject c = [] then Panics ErrProjectRequired
      else Returns \<lparr>baseURL = clHost c, hcModule = clModule c, hcProject = clProject c,
                    hcAuth = Client_auth c\<rparr>)"
  by (simp add: HttpClient_New_def validate_def http_options_def)

definition http_client :: "Client \<Rightarrow> HttpClient" where
  "http_client c = \<lparr>baseURL = clHost c, hcModule = clModule c, hcProject = clProject c,
     hcAuth = Client_auth c\<rparr>"

lemma http_options_upd [simp]:
  "http_options (c\<lparr>stopResetProcess := x\<rparr>) = http_options c"
  "request_options (c\<lparr>stopResetProcess := x\<rparr>) = request_options c"
  "Client_auth (c\<lparr>stopResetProcess := x\<rparr>) = Client_auth c"
  by (simp_all add: http_options_def request_options_def Client_auth_def)

lemma Start_rest_answered:
  "Start_rest url_parse enc dec envs hostname uuid c = Some (Returns (c', ls)) \<longleftrightarrow>
   (\<exists>bks d. answered_request url_parse enc dec envs c = Some bks \<and>
      start_brokers (Client_auth c) (if hostname = [] then uuid else hostname) bks
        (set_up (if hostname = [] then uuid else hostname) c) = Returns (d, ls) \<and>
      c' = d\<lparr>overstayProcess := False, resetProcess := False\<rparr>)"
  by (auto simp: Start_rest_def answered_request_def Let_def
      split: outcome.splits option.splits sum.splits prod.splits)

section \<open>Properties\<close>

text \<open>
  C20. \<open>Start\<close> sets up every broker of an accepted response: with the required settings present
  and distinct identifiers, it launches one connection per broker in the response's order, stores
  each under its identifier with its configured certificate, gives each interceptor the client's
  project, module and process identifier and the client's authenticator, and clears both process
  flags. The list of online brokers is left to the brokers' callbacks.
\<close>

theorem Start_launches_brokers:
  assumes "clHost c \<noteq> []" and "clModule c \<noteq> []" and "clProject c \<noteq> []"
    and "Request url_parse enc dec (http_client c) (request_options c) envs =
      Some (Inr (map Some bks), slept)"
    and "distinct (map bID bks)"
  shows "\<exists>c' ls s. Client_Start url_parse enc dec envs hostname uuid c = Some (Returns (c', ls)) \<and>
    clBrokers c' = Some s \<and> length ls = length bks \<and>
    (\<forall>j < length bks. let l = ls ! j in
       BrokerStore_Get (bID (bks ! j)) s = Some (lBroker l) \<and>
       clMem c' (lBroker l) = with_cert (Certs c) (bks ! j) \<and>
       lAuth l = Client_auth c \<and> lProject l = clProject c \<and> lModule l = clModule c \<and>
       lPid l = clPID c') \<and>
    clPID c' = (if hostname = [] then uuid else hostname) \<and>
    \<not> resetProcess c' \<and> \<not> overstayProcess c' \<and>
    online c' = online c \<and> onlineBrokers c' = onlineBrokers c"
proof -
  let ?pid = "if hostname = [] then uuid else hostname"
  let ?s = "case clBrokers c of None \<Rightarrow> BrokerStore_New | Some s \<Rightarrow> s"
  let ?c = "c\<lparr>stopResetProcess := Suc (stopResetProcess c), clPID := ?pid, clBrokers := Some ?s\<rparr>"
  have new: "HttpClient_New (http_options c) = Returns (http_client c)"
    using assms(1-3) by (simp add: HttpClient_New_options http_client_def)
  have c: "(if clBrokers c = None then d\<lparr>clBrokers := Some BrokerStore_New\<rparr> else d) =
      d\<lparr>clBrokers := Some ?s\<rparr>" if "clBrokers d = clBrokers c" for d
    using that by (cases d) (auto split: option.split)
  obtain c' s' where run: "start_brokers (Client_auth c) ?pid (map Some bks) ?c =
      Returns (c', map (\<lambda>j. \<lparr>lBroker = clFresh ?c + j, lAuth = Client_auth c, lProject = clProject ?c,
        lModule = clModule ?c, lPid = ?pid\<rparr>) [0 ..< length bks])"
    and c': "c' = ?c\<lparr>clMem := clMem c', clFresh := clFresh ?c + length bks, clBrokers := Some s'\<rparr>"
    and mem: "\<forall>j < length bks. clMem c' (clFresh ?c + j) = with_cert (Certs ?c) (bks ! j)"
    and get: "\<forall>j < length bks. BrokerStore_Get (bID (bks ! j)) s' = Some (clFresh ?c + j)"
    using start_brokers_spec [OF assms(5), of ?c ?s "Client_auth c" ?pid] by auto
  have "Client_Start url_parse enc dec envs hostname uuid c =
      Some (Returns (c'\<lparr>overstayProcess := False, resetProcess := False\<rparr>,
        map (\<lambda>j. \<lparr>lBroker = clFresh ?c + j, lAuth = Client_auth c, lProject = clProject ?c,
          lModule = clModule ?c, lPid = ?pid\<rparr>) [0 ..< length bks]))"
    using run by (simp add: Client_Start_def Start_rest_def make_stop_def set_up_def Let_def new assms(4) c)
  moreover have "clPID c' = ?pid" "online c' = online c" "onlineBrokers c' = onlineBrokers c"
    "clBrokers c' = Some s'" by (subst c', simp)+
  ultimately show ?thesis
    using mem get
    by (intro exI [of _ "c'\<lparr>overstayProcess := False, resetProcess := False\<rparr>"]
        exI [of _ "map (\<lambda>j. \<lparr>lBroker = clFresh ?c + j, lAuth = Client_auth c, lProject = clProject ?c,
          lModule = clModule ?c, lPid = ?pid\<rparr>) [0 ..< length bks]"] exI [of _ s'])
      (simp add: Let_def)
qed

text \<open>A concrete client whose settings are those of the server of theory \<open>Broker_Request\<close>.\<close>

definition start_cli :: Client where
  "start_cli = demo_cli\<lparr>clHost := ''https://p'', AuthSkew := seconds 30, AuthTTL := seconds 60,
     clSecret := ''s3cret'', Certs := [''b'' \<mapsto> ''/ca.pem'']\<rparr>"

lemma start_cli: "http_client start_cli = demo_client" "request_options start_cli = demo_opts"
  "clHost start_cli \<noteq> []" "clModule start_cli \<noteq> []" "clProject start_cli \<noteq> []"
  by (simp_all add: start_cli_def demo_cli_def http_client_def demo_client_def request_options_def
      demo_opts_def Client_auth_def demo_auth_def)

theorem Start_launches_brokers_witness:
  "\<exists>c' ls. Client_Start Inr demo_enc
       (demo_dec (map Some [new_broker ''a'' ''h'' 443 False, new_broker ''b'' ''h'' 444 True]))
       (\<lambda>n. demo_turn True) ''pod-7'' ''uuid'' start_cli = Some (Returns (c', ls)) \<and>
     length ls = 2 \<and> clPID c' = ''pod-7''"
  using Start_launches_brokers [OF start_cli(3-5), of Inr demo_enc
      "demo_dec (map Some [new_broker ''a'' ''h'' 443 False, new_broker ''b'' ''h'' 444 True])"
      "\<lambda>n. demo_turn True" "[new_broker ''a'' ''h'' 443 False, new_broker ''b'' ''h'' 444 True]" "[]"
      "''pod-7''" "''uuid''", unfolded start_cli, OF demo_Request]
  by (auto simp: new_broker_def)

text \<open>
  \<open>Start\<close> has no silent failure: it panics with the first missing setting, with the error of
  a request that was answered but not accepted, and on a null entry in the broker list; and it
  never returns if the request never does.
\<close>

lemma Start_failures:
  "(clHost c = [] \<longrightarrow> Client_Start url_parse enc dec envs hostname uuid c = Some (Panics ErrBaseURLRequired)) \<and>
   (clHost c \<noteq> [] \<and> clModule c = [] \<longrightarrow>
      Client_Start url_parse enc dec envs hostname uuid c = Some (Panics ErrModuleRequired)) \<and>
   (clHost c \<noteq> [] \<and> clModule c \<noteq> [] \<and> clProject c = [] \<longrightarrow>
      Client_Start url_parse enc dec envs hostname uuid c = Some (Panics ErrProjectRequired)) \<and>
   (clHost c \<noteq> [] \<and> clModule c \<noteq> [] \<and> clProject c \<noteq> [] \<longrightarrow>
      (case Request url_parse enc dec (http_client c) (request_options c) envs of
         None \<Rightarrow> Client_Start url_parse enc dec envs hostname uuid c = None
       | Some (Inl e, slept) \<Rightarrow> Client_Start url_parse enc dec envs hostname uuid c = Some (Panics e)
       | Some (Inr bks, slept) \<Rightarrow> None \<in> set bks \<longrightarrow>
           Client_Start url_parse enc dec envs hostname uuid c = Some (Panics NilDereference)))"
  by (auto simp: Client_Start_def Start_rest_def make_stop_def Let_def HttpClient_New_options http_client_def start_brokers_null
      split: option.split sum.split)

text \<open>
  A reset runs once: the first \<open>reset\<close> spawns the restart, and further ones are ignored until
  it has run. The restart stops every stored broker before \<open>Start\<close> is called, and \<open>Start\<close> begins
  with an empty store.
\<close>

lemma reset_runs_once:
  assumes "client_inv c" and "clBrokers c = Some s" and "dom (brokers s) \<subseteq> set ks"
    and "\<not> resetProcess c"
  shows "fst (Client_reset c) \<and>
    (\<not> fst (Client_reset (snd (Client_reset c))) \<and> snd (Client_reset (snd (Client_reset c))) = snd (Client_reset c)) \<and>
    reset_restart start ks (snd (Client_reset c)) =
      start (c\<lparr>resetProcess := True, clBrokers := Some BrokerStore_New,
        clMem := stopped_brokers s (clMem c)\<rparr>)"
proof -
  have "client_inv (c\<lparr>resetProcess := True\<rparr>)" using assms(1) by (simp add: client_inv_def)
  moreover have "clBrokers (c\<lparr>resetProcess := True\<rparr>) = Some s" using assms(2) by simp
  ultimately show ?thesis
    using brokers_Done_spec [of "c\<lparr>resetProcess := True\<rparr>" s ks] assms(3,4)
    by (simp add: Client_reset_def reset_restart_def)
qed

text \<open>The store of \<open>demo_cli\<close>.\<close>

definition cli_store :: BrokerStore where
  "cli_store = \<lparr>brokers = [''a'' \<mapsto> 0, ''b'' \<mapsto> 1]\<rparr>"

lemma cli_store: "clBrokers demo_cli = Some cli_store" "\<not> resetProcess demo_cli"
  "dom (brokers cli_store) \<subseteq> set [''a'', ''b'']"
  by (auto simp: demo_cli_def cli_store_def split: if_splits)

lemma reset_runs_once_witness:
  "reset_restart (\<lambda>c. Some (Returns (c, []))) [''a'', ''b''] (snd (Client_reset demo_cli)) =
     Some (Returns (demo_cli\<lparr>resetProcess := True, clBrokers := Some BrokerStore_New,
       clMem := stopped_brokers cli_store (clMem demo_cli)\<rparr>, []))"
  using reset_runs_once [OF demo_cli_inv cli_store(1,3,2), of "\<lambda>c. Some (Returns (c, []))"] by blast

text \<open>
  \<open>owerstaying\<close> takes over exactly when the client is offline with neither a reset nor another
  overstay under way; otherwise it changes nothing and answers no. When it takes over it stops all
  stored brokers, starts with an empty store, and answers yes if that \<open>Start\<close> returns.
\<close>

lemma owerstaying_guarded:
  assumes "client_inv c" and "clBrokers c = Some s" and "dom (brokers s) \<subseteq> set ks"
  shows "Client_owerstaying start ks c =
    (if resetProcess c \<or> onlineBrokers c \<noteq> [] \<or> overstayProcess c then Some (Returns (False, c, []))
     else (case start (c\<lparr>overstayProcess := True, clBrokers := Some BrokerStore_New,
             clMem := stopped_brokers s (clMem c)\<rparr>) of
         None \<Rightarrow> None
       | Some (Panics e) \<Rightarrow> Some (Panics e)
       | Some (Returns (c', ls)) \<Rightarrow> Some (Returns (True, c', ls))))"
proof -
  have "client_inv (c\<lparr>overstayProcess := True\<rparr>)" using assms(1) by (simp add: client_inv_def)
  moreover have "clBrokers (c\<lparr>overstayProcess := True\<rparr>) = Some s" using assms(2) by simp
  ultimately have "brokers_Done ks (c\<lparr>overstayProcess := True\<rparr>) = Returns (c\<lparr>overstayProcess := True,
      clBrokers := Some BrokerStore_New,
      clMem := stopped_brokers s (clMem c)\<rparr>)"
    using brokers_Done_spec [of "c\<lparr>overstayProcess := True\<rparr>" s ks] assms(3) by simp
  then show ?thesis using assms(1) by (simp add: Client_owerstaying_def client_inv_def)
qed

lemma owerstaying_guarded_witness:
  "Client_owerstaying (\<lambda>c. Some (Returns (c, []))) [''a'', ''b''] demo_cli =
     Some (Returns (True, demo_cli\<lparr>overstayProcess := True, clBrokers := Some BrokerStore_New,
       clMem := stopped_brokers cli_store (clMem demo_cli)\<rparr>, []))"
proof -
  have "\<not> overstayProcess demo_cli" "onlineBrokers demo_cli = []" by (simp_all add: demo_cli_def)
  then show ?thesis
    using owerstaying_guarded [OF demo_cli_inv cli_store(1,3), of "\<lambda>c. Some (Returns (c, []))"] cli_store(2)
    by simp
qed

end
