(* ===== verification/Client_Reset.thy ===== *)
theory Client_Reset
  imports Client_Start
begin

text \<open>
  The goroutines around a restart (src/client/client.go: \<open>Start\<close>, \<open>reset\<close>, \<open>disconnect\<close>, \<open>connect\<close>,
  \<open>owerstaying\<close>, \<open>nextBroker\<close>; src/broker/store.go: \<open>Done\<close>), interleaved at their lock, channel and
  network operations.

  Three locks are kept from one step to the next: \<open>disconnect\<close> holds the client's read lock while it
  sends its signal, \<open>owerstaying\<close> the client's write lock through its sleep, \<open>Done\<close> and \<open>Start\<close>, and \<open>Done\<close>
  the store's lock while it visits the brokers. Every other critical section is one step. So a lock is
  held exactly as the goroutines' positions say. The unbuffered channel is a rendezvous of a sender and
  a receiver on the same channel number. A panic ends the process: it is the absence of a step.
  The steps are a function, \<open>rstep\<close>, and the same steps are a relation with one rule for each way
  through the code, \<open>rmove\<close>, over which the proofs go by cases.
\<close>

section \<open>Goroutines\<close>

text \<open>Who calls \<open>Start\<close>: \<open>pubsub.New\<close>, the goroutine of \<open>reset\<close>, or \<open>owerstaying\<close>.\<close>

datatype runner = ByNew | ByReset | ByOverstay

datatype rpc =
    DDelete string     \<comment> \<open>\<open>disconnect(id)\<close>, before \<open>c.delete\<close>\<close>
  | DCheck             \<comment> \<open>before \<open>c.rw.RLock\<close>\<close>
  | DSignal            \<comment> \<open>past the check, holding the read lock, before it reads \<open>c.stopResetProcess\<close>\<close>
  | DSend nat          \<comment> \<open>at \<open>c.stopResetProcess <-\<close>, holding the read lock\<close>
  | CGet string        \<comment> \<open>\<open>connect(id)\<close>\<close>
  | CSet nat           \<comment> \<open>before \<open>c.set(bk)\<close>\<close>
  | ResetCall          \<comment> \<open>\<open>reset()\<close>\<close>
  | RSelect            \<comment> \<open>the goroutine of \<open>reset\<close>, before its \<open>select\<close>\<close>
  | RWait nat          \<comment> \<open>in the \<open>select\<close>, receiving on that channel\<close>
  | OCall              \<comment> \<open>\<open>owerstaying()\<close>\<close>
  | NextCall           \<comment> \<open>\<open>nextBroker()\<close>\<close>
  | SStop runner       \<comment> \<open>before \<open>c.brokers.Done\<close> (in \<open>owerstaying\<close>: the sleep)\<close>
  | SVisit runner "string list"
                       \<comment> \<open>in \<open>Done\<close>, holding the store's lock, with the keys still to visit\<close>
  | SMake runner       \<comment> \<open>at the beginning of \<open>Start\<close>\<close>
  | SRequest runner    \<comment> \<open>in \<open>Start\<close>, requesting the broker list\<close>
  | SLaunch runner Authhmac string "Broker option list"
                       \<comment> \<open>in the loop of \<open>Start\<close>, with the brokers still to launch\<close>
  | Ended

text \<open>The calls that brokers, publishers and the server can make at any time.\<close>

definition entry :: "rpc \<Rightarrow> bool" where
  "entry t \<longleftrightarrow> (case t of DDelete i \<Rightarrow> True | CGet i \<Rightarrow> True | ResetCall \<Rightarrow> True | OCall \<Rightarrow> True
     | NextCall \<Rightarrow> True | _ \<Rightarrow> False)"

definition runner_of :: "rpc \<Rightarrow> runner option" where
  "runner_of t = (case t of SStop w \<Rightarrow> Some w | SVisit w ks \<Rightarrow> Some w | SMake w \<Rightarrow> Some w
     | SRequest w \<Rightarrow> Some w | SLaunch w auth pid bks \<Rightarrow> Some w | _ \<Rightarrow> None)"

definition holds_read :: "rpc \<Rightarrow> bool" where
  "holds_read t \<longleftrightarrow> (case t of DSignal \<Rightarrow> True | DSend ch \<Rightarrow> True | _ \<Rightarrow> False)"

definition holds_write :: "rpc \<Rightarrow> bool" where
  "holds_write t \<longleftrightarrow> runner_of t = Some ByOverstay"

definition holds_store :: "rpc \<Rightarrow> bool" where
  "holds_store t \<longleftrightarrow> (case t of SVisit w ks \<Rightarrow> True | _ \<Rightarrow> False)"

definition can_read :: "rpc list \<Rightarrow> bool" where
  "can_read ts \<longleftrightarrow> (\<forall>t \<in> set ts. \<not> holds_write t)"

definition can_write :: "rpc list \<Rightarrow> bool" where
  "can_write ts \<longleftrightarrow> (\<forall>t \<in> set ts. \<not> holds_write t \<and> \<not> holds_read t)"

definition can_store :: "rpc list \<Rightarrow> bool" where
  "can_store ts \<longleftrightarrow> (\<forall>t \<in> set ts. \<not> holds_store t)"

datatype revent =
    Spawn rpc
  | Step nat "string list" nat     \<comment> \<open>a goroutine moves; the order of a map range, the call of \<open>Start\<close>\<close>
  | Timer nat                      \<comment> \<open>the reset timer of that goroutine fires\<close>
  | Sync nat nat                   \<comment> \<open>a sender and a receiver meet\<close>

text \<open>What a call of \<open>Start\<close> gets from outside: a process identifier and the server's answer.\<close>

type_synonym start_fun = "nat \<Rightarrow> Client \<Rightarrow> (string \<times> Broker option list) option"

definition go :: "nat \<Rightarrow> rpc \<Rightarrow> rpc list \<Rightarrow> Client \<Rightarrow> (rpc list \<times> Client) option" where
  "go k t ts c = Some (ts[k := t], c)"

definition rstep :: "start_fun \<Rightarrow> nat \<Rightarrow> string list \<Rightarrow> nat \<Rightarrow> rpc list \<times> Client \<Rightarrow> (rpc list \<times> Client) option" where
  "rstep start k ks n s =
     (case s of (ts, c) \<Rightarrow>
       (case ts ! k of
          DDelete i \<Rightarrow> (if can_write ts then go k DCheck ts (Client_delete i c) else None)
        | DCheck \<Rightarrow>
            (if can_read ts then
               (if resetProcess c \<and> online c \<or> \<not> resetProcess c then go k Ended ts c
                else go k DSignal ts c)
             else None)
        | DSignal \<Rightarrow> go k (DSend (stopResetProcess c)) ts c
        | DSend ch \<Rightarrow> None
        | CGet i \<Rightarrow>
            (if can_store ts then
               (case clBrokers c of
                  None \<Rightarrow> None
                | Some s \<Rightarrow> (case BrokerStore_Get i s of
                      None \<Rightarrow> go k Ended ts c
                    | Some bk \<Rightarrow> go k (CSet bk) ts c))
             else None)
        | CSet bk \<Rightarrow> (if can_write ts then go k Ended ts (Client_set bk c) else None)
        | ResetCall \<Rightarrow>
            (if can_write ts then
               (case Client_reset c of
                  (True, c) \<Rightarrow> go k Ended (ts @ [RSelect]) c
                | (False, c) \<Rightarrow> go k Ended ts c)
             else None)
        | RSelect \<Rightarrow> go k (RWait (stopResetProcess c)) ts c
        | RWait ch \<Rightarrow> None
        | OCall \<Rightarrow>
            (if can_write ts then
               (if resetProcess c \<or> online c \<or> overstayProcess c then go k Ended ts c
                else go k (SStop ByOverstay) ts (c\<lparr>overstayProcess := True\<rparr>))
             else None)
        | NextCall \<Rightarrow> (if can_read ts then go k Ended ts (snd (nextBroker c)) else None)
        | SStop w \<Rightarrow> (if can_store ts \<and> clBrokers c \<noteq> None then go k (SVisit w ks) ts c else None)
        | SVisit w js \<Rightarrow>
            (case js of
               [] \<Rightarrow> go k (SMake w) ts c
             | i # js \<Rightarrow> (case brokers_Done [i] c of
                   Panics e \<Rightarrow> None
                 | Returns c \<Rightarrow> go k (SVisit w js) ts c))
        | SMake w \<Rightarrow> go k (SRequest w) ts (make_stop c)
        | SRequest w \<Rightarrow>
            (case start n c of
               None \<Rightarrow> None
             | Some (pid, bks) \<Rightarrow> go k (SLaunch w (Client_auth c) pid bks) ts (set_up pid c))
        | SLaunch w auth pid bks \<Rightarrow>
            (case bks of
               [] \<Rightarrow> go k Ended ts (c\<lparr>overstayProcess := False, resetProcess := False\<rparr>)
             | None # bks \<Rightarrow> None
             | Some bk # bks \<Rightarrow>
                 (if can_store ts then go k (SLaunch w auth pid bks) ts (fst (launch_one auth pid bk c))
                  else None))
        | Ended \<Rightarrow> None))"

fun rexec :: "start_fun \<Rightarrow> revent \<Rightarrow> rpc list \<times> Client \<Rightarrow> (rpc list \<times> Client) option" where
  "rexec start (Spawn t) (ts, c) = (if entry t then Some (ts @ [t], c) else None)"
| "rexec start (Step k ks n) s = (if k < length (fst s) then rstep start k ks n s else None)"
| "rexec start (Timer k) (ts, c) =
     (if k < length ts then (case ts ! k of RWait ch \<Rightarrow> go k (SStop ByReset) ts c | _ \<Rightarrow> None) else None)"
| "rexec start (Sync k j) (ts, c) =
     (if k < length ts \<and> j < length ts then
        (case (ts ! k, ts ! j) of
           (DSend ch, RWait ch') \<Rightarrow> (if ch = ch' then go j (SStop ByReset) (ts[k := Ended]) c else None)
         | _ \<Rightarrow> None)
      else None)"

inductive rsteps :: "start_fun \<Rightarrow> rpc list \<times> Client \<Rightarrow> rpc list \<times> Client \<Rightarrow> bool" for start where
  rsteps_refl: "rsteps start s s"
| rsteps_step: "rsteps start s s' \<Longrightarrow> rexec start ev s' = Some s'' \<Longrightarrow> rsteps start s s''"

text \<open>A client in service: no call under way.\<close>

definition resting :: "Client \<Rightarrow> bool" where
  "resting c \<longleftrightarrow> \<not> resetProcess c \<and> (online c \<longleftrightarrow> onlineBrokers c \<noteq> [])"

text \<open>The environment of \<open>Start\<close>: settings, codecs, network and identifiers, per call.\<close>

definition start_in ::
  "(string \<Rightarrow> string result) \<Rightarrow> (RequestOptions \<Rightarrow> bytes result) \<Rightarrow>
   (bytes \<Rightarrow> Broker option list Response result) \<Rightarrow> string \<Rightarrow>
   (nat \<Rightarrow> nat \<Rightarrow> turn_env) \<Rightarrow> (nat \<Rightarrow> string) \<Rightarrow> start_fun" where
  "start_in url_parse enc dec hostname envs uuid n c =
     (case answered_request url_parse enc dec (envs n) c of
        None \<Rightarrow> None
      | Some bks \<Rightarrow> Some (if hostname = [] then uuid n else hostname, bks))"

section \<open>The steps as a relation\<close>

text \<open>
  One step of one goroutine: from its position to the next, with the client it leaves and the
  goroutines it launches. Every way through the code is a rule.
\<close>

inductive rmove :: "start_fun \<Rightarrow> string list \<Rightarrow> nat \<Rightarrow> rpc list \<Rightarrow> Client \<Rightarrow> rpc \<Rightarrow> rpc \<Rightarrow> Client \<Rightarrow> rpc list \<Rightarrow> bool"
  for start ks n ts c where
  delete: "can_write ts \<Longrightarrow> rmove start ks n ts c (DDelete i) DCheck (Client_delete i c) []"
| quiet_end: "can_read ts \<Longrightarrow> resetProcess c \<and> online c \<or> \<not> resetProcess c \<Longrightarrow> rmove start ks n ts c DCheck Ended c []"
| signal: "can_read ts \<Longrightarrow> resetProcess c \<Longrightarrow> \<not> online c \<Longrightarrow>
    rmove start ks n ts c DCheck DSignal c []"
| channel: "rmove start ks n ts c DSignal (DSend (stopResetProcess c)) c []"
| unknown: "can_store ts \<Longrightarrow> clBrokers c = Some st \<Longrightarrow> BrokerStore_Get i st = None \<Longrightarrow>
    rmove start ks n ts c (CGet i) Ended c []"
| known: "can_store ts \<Longrightarrow> clBrokers c = Some st \<Longrightarrow> BrokerStore_Get i st = Some bk \<Longrightarrow>
    rmove start ks n ts c (CGet i) (CSet bk) c []"
| list_in: "can_write ts \<Longrightarrow> rmove start ks n ts c (CSet bk) Ended (Client_set bk c) []"
| reset_again: "can_write ts \<Longrightarrow> resetProcess c \<Longrightarrow> rmove start ks n ts c ResetCall Ended c []"
| reset_first: "can_write ts \<Longrightarrow> \<not> resetProcess c \<Longrightarrow>
    rmove start ks n ts c ResetCall Ended (c\<lparr>resetProcess := True\<rparr>) [RSelect]"
| select: "rmove start ks n ts c RSelect (RWait (stopResetProcess c)) c []"
| overstay_no: "can_write ts \<Longrightarrow> resetProcess c \<or> online c \<or> overstayProcess c \<Longrightarrow>
    rmove start ks n ts c OCall Ended c []"
| overstay: "can_write ts \<Longrightarrow> \<not> resetProcess c \<Longrightarrow> \<not> online c \<Longrightarrow> \<not> overstayProcess c \<Longrightarrow>
    rmove start ks n ts c OCall (SStop ByOverstay) (c\<lparr>overstayProcess := True\<rparr>) []"
| next_broker: "can_read ts \<Longrightarrow> rmove start ks n ts c NextCall Ended (snd (nextBroker c)) []"
| stop: "can_store ts \<Longrightarrow> clBrokers c \<noteq> None \<Longrightarrow> rmove start ks n ts c (SStop w) (SVisit w ks) c []"
| visited: "rmove start ks n ts c (SVisit w []) (SMake w) c []"
| visit: "brokers_Done [i] c = Returns d \<Longrightarrow> rmove start ks n ts c (SVisit w (i # js)) (SVisit w js) d []"
| make: "rmove start ks n ts c (SMake w) (SRequest w) (make_stop c) []"
| request: "start n c = Some (pid, bks) \<Longrightarrow>
    rmove start ks n ts c (SRequest w) (SLaunch w (Client_auth c) pid bks) (set_up pid c) []"
| started: "rmove start ks n ts c (SLaunch w auth pid []) Ended (c\<lparr>overstayProcess := False, resetProcess := False\<rparr>) []"
| launch: "can_store ts \<Longrightarrow>
    rmove start ks n ts c (SLaunch w auth pid (Some bk # bks)) (SLaunch w auth pid bks) (fst (launch_one auth pid bk c)) []"

inductive_simps rmove_simps [simp]:
  "rmove start ks n ts c (DDelete i) t c' new" "rmove start ks n ts c DCheck t c' new" "rmove start ks n ts c DSignal t c' new" "rmove start ks n ts c (DSend ch) t c' new"
  "rmove start ks n ts c (CGet i) t c' new" "rmove start ks n ts c (CSet b) t c' new" "rmove start ks n ts c ResetCall t c' new"
  "rmove start ks n ts c RSelect t c' new" "rmove start ks n ts c (RWait ch) t c' new" "rmove start ks n ts c OCall t c' new"
  "rmove start ks n ts c NextCall t c' new" "rmove start ks n ts c (SStop w) t c' new" "rmove start ks n ts c (SVisit w js) t c' new"
  "rmove start ks n ts c (SMake w) t c' new" "rmove start ks n ts c (SRequest w) t c' new"
  "rmove start ks n ts c (SLaunch w auth pid bks) t c' new" "rmove start ks n ts c Ended t c' new"

text \<open>The function \<open>rstep\<close> takes exactly these steps.\<close>

lemma rstep_rmove:
  assumes "k < length ts"
  shows "rstep start k ks n (ts, c) = Some s' \<longleftrightarrow>
    (\<exists>t c' new. rmove start ks n ts c (ts ! k) t c' new \<and> s' = (ts[k := t] @ new, c'))"
  using assms
  by (cases "ts ! k")
    (auto simp: rstep_def go_def Client_reset_def list_update_append
      split: if_splits option.splits list.splits outcome.splits)

lemma rstepE:
  assumes "rstep start k ks n (ts, c) = Some s'" and "k < length ts"
  obtains t c' new where "rmove start ks n ts c (ts ! k) t c' new" and "s' = (ts[k := t] @ new, c')"
  using assms rstep_rmove by blast

section \<open>Frames\<close>

text \<open>What the goroutines decide by.\<close>

definition same_flags :: "Client \<Rightarrow> Client \<Rightarrow> bool" where
  "same_flags c c' \<longleftrightarrow> online c' = online c \<and> onlineBrokers c' = onlineBrokers c \<and>
     resetProcess c' = resetProcess c \<and> stopResetProcess c' = stopResetProcess c"

lemma same_flags_simps [simp]:
  "same_flags c c" "same_flags c (c\<lparr>overstayProcess := x\<rparr>)" "same_flags c (set_up pid c)"
  "same_flags c (fst (launch_one auth pid bk c))" "same_flags c (snd (nextBroker c))"
  by (simp_all add: same_flags_def set_up_def launch_one_def nextBroker_def Let_def)

lemma same_flags_Done: "brokers_Done ks c = Returns c' \<Longrightarrow> same_flags c c'"
  by (auto simp: brokers_Done_def Let_def same_flags_def split: option.splits prod.splits)

lemma make_stop_fields [simp]:
  "online (make_stop c) = online c" "onlineBrokers (make_stop c) = onlineBrokers c"
  "resetProcess (make_stop c) = resetProcess c"
  by (simp_all add: make_stop_def)

lemmas pc_defs = runner_of_def holds_read_def holds_write_def holds_store_def

lemma holds_simps [simp]:
  "holds_write (SStop w) = (w = ByOverstay)" "holds_write (SVisit w ks) = (w = ByOverstay)"
  "holds_write (SMake w) = (w = ByOverstay)" "holds_write (SRequest w) = (w = ByOverstay)"
  "holds_write (SLaunch w auth pid bks) = (w = ByOverstay)"
  "\<not> holds_write (DDelete i)" "\<not> holds_write DCheck" "\<not> holds_write (DSend ch)" "\<not> holds_write (CGet i)"
  "\<not> holds_write (CSet b)" "\<not> holds_write ResetCall" "\<not> holds_write RSelect" "\<not> holds_write (RWait ch)"
  "\<not> holds_write OCall" "\<not> holds_write NextCall" "\<not> holds_write Ended"
  "\<not> holds_write DSignal" "holds_read DSignal" "holds_read (DSend ch)" "\<not> holds_read (SStop w)" "\<not> holds_read (SVisit w ks)" "\<not> holds_read (SMake w)"
  "\<not> holds_read (SRequest w)" "\<not> holds_read (SLaunch w auth pid bks)"
  "\<not> holds_read (DDelete i)" "\<not> holds_read DCheck" "\<not> holds_read (CGet i)"
  "\<not> holds_read (CSet b)" "\<not> holds_read ResetCall" "\<not> holds_read RSelect" "\<not> holds_read (RWait ch)"
  "\<not> holds_read OCall" "\<not> holds_read NextCall" "\<not> holds_read Ended"
  by (simp_all add: pc_defs)

section \<open>Invariant\<close>

definition selects :: "rpc \<Rightarrow> bool" where
  "selects t \<longleftrightarrow> (case t of RSelect \<Rightarrow> True | RWait ch \<Rightarrow> True | _ \<Rightarrow> False)"

text \<open>The goroutine of \<open>reset\<close>, from its beginning to its end.\<close>

definition ractive :: "rpc \<Rightarrow> bool" where
  "ractive t \<longleftrightarrow> selects t \<or> runner_of t = Some ByReset"

definition actives :: "rpc list \<Rightarrow> nat" where
  "actives ts = length (filter ractive ts)"

text \<open>
  One reset goroutine exactly while a reset is in progress; \<open>owerstaying\<close> holds the lock only
  outside resets and with no reader; a \<open>disconnect\<close> that signals does so offline; and signals are
  sent and awaited on the current channel.
\<close>

definition rinv :: "rpc list \<times> Client \<Rightarrow> bool" where
  "rinv s \<longleftrightarrow> (case s of (ts, c) \<Rightarrow>
     (online c \<longleftrightarrow> onlineBrokers c \<noteq> []) \<and>
     actives ts = of_bool (resetProcess c) \<and>
     (\<forall>u \<in> set ts. holds_write u \<longrightarrow> \<not> resetProcess c \<and> (\<forall>t \<in> set ts. \<not> holds_read t)) \<and>
     (DSignal \<in> set ts \<longrightarrow> \<not> online c) \<and>
     (\<forall>ch. DSend ch \<in> set ts \<longrightarrow> \<not> online c \<and> ((\<exists>t \<in> set ts. selects t) \<longrightarrow> ch = stopResetProcess c)) \<and>
     (\<forall>ch. RWait ch \<in> set ts \<longrightarrow> ch = stopResetProcess c))"

lemma selects_simps [simp]:
  "selects RSelect" "selects (RWait ch)" "\<not> selects (DDelete i)" "\<not> selects DCheck" "\<not> selects DSignal"
  "\<not> selects (DSend ch)" "\<not> selects (CGet i)" "\<not> selects (CSet b)" "\<not> selects ResetCall"
  "\<not> selects OCall" "\<not> selects NextCall" "\<not> selects (SStop w)" "\<not> selects (SVisit w ks)"
  "\<not> selects (SMake w)" "\<not> selects (SRequest w)" "\<not> selects (SLaunch w auth pid bks)" "\<not> selects Ended"
  by (simp_all add: selects_def)

lemma ractive_simps [simp]:
  "ractive RSelect" "ractive (RWait ch)" "\<not> ractive (DDelete i)" "\<not> ractive DCheck" "\<not> ractive DSignal"
  "\<not> ractive (DSend ch)" "\<not> ractive (CGet i)" "\<not> ractive (CSet b)" "\<not> ractive ResetCall"
  "\<not> ractive OCall" "\<not> ractive NextCall" "ractive (SStop w) = (w = ByReset)"
  "ractive (SVisit w ks) = (w = ByReset)" "ractive (SMake w) = (w = ByReset)"
  "ractive (SRequest w) = (w = ByReset)" "ractive (SLaunch w auth pid bks) = (w = ByReset)" "\<not> ractive Ended"
  by (simp_all add: ractive_def runner_of_def)

lemma selects_active: "selects t \<Longrightarrow> ractive t"
  by (simp add: ractive_def)

lemma active_holds: "ractive t \<Longrightarrow> \<not> holds_write t \<and> \<not> holds_read t"
  by (cases t) simp_all

lemma actives_update:
  "k < length ts \<Longrightarrow> actives (ts[k := t]) + of_bool (ractive (ts ! k)) = actives ts + of_bool (ractive t)"
proof -
  assume k: "k < length ts"
  have "actives ts = actives (take k ts @ ts ! k # drop (Suc k) ts)"
    using id_take_nth_drop [OF k] by simp
  then show ?thesis by (simp add: upd_conv_take_nth_drop [OF k] actives_def)
qed

lemma actives_pos: "t \<in> set ts \<Longrightarrow> ractive t \<Longrightarrow> 0 < actives ts"
  by (auto simp: actives_def filter_empty_conv)

lemma actives_none: "(\<And>t. t \<in> set ts \<Longrightarrow> \<not> ractive t) \<Longrightarrow> actives ts = 0"
  by (simp add: actives_def filter_empty_conv)

text \<open>The active goroutine is alone: without it there is none.\<close>

lemma active_alone:
  assumes "k < length ts" and "actives ts \<le> 1" and "ractive (ts ! k)" and "\<not> ractive t"
  shows "\<forall>u \<in> set (ts[k := t]). \<not> ractive u"
  using actives_update [OF assms(1), of t] assms(2-4) actives_pos [of _ "ts[k := t]"] by fastforce

lemma active_only:
  assumes "k < length ts" and "actives ts \<le> 1" and "ractive (ts ! k)" and "u \<in> set (ts[k := t])"
  shows "u = t \<or> \<not> ractive u"
proof -
  obtain j where j: "j < length ts" "u = ts[k := t] ! j" using assms(4) by (auto simp: in_set_conv_nth)
  show ?thesis
  proof (cases "j = k")
    case False
    then have "u \<in> set (ts[k := Ended])" using j by (metis length_list_update nth_list_update_neq nth_mem)
    then show ?thesis using active_alone [OF assms(1-3), of Ended] by simp
  qed (use j in simp)
qed

lemma upd_mem: "u \<in> set (ts[k := t]) \<Longrightarrow> u = t \<or> u \<in> set ts"
  by (meson insertE set_update_subset_insert subsetD)

lemma rinvI:
  assumes "online c \<longleftrightarrow> onlineBrokers c \<noteq> []" and "actives ts = of_bool (resetProcess c)"
    and "\<And>u. u \<in> set ts \<Longrightarrow> holds_write u \<Longrightarrow> \<not> resetProcess c"
    and "\<And>u t. u \<in> set ts \<Longrightarrow> holds_write u \<Longrightarrow> t \<in> set ts \<Longrightarrow> \<not> holds_read t"
    and "\<And>ch. DSend ch \<in> set ts \<Longrightarrow> \<not> online c"
    and "\<And>ch t. DSend ch \<in> set ts \<Longrightarrow> t \<in> set ts \<Longrightarrow> selects t \<Longrightarrow> ch = stopResetProcess c"
    and "\<And>ch. RWait ch \<in> set ts \<Longrightarrow> ch = stopResetProcess c"
    and "DSignal \<in> set ts \<Longrightarrow> \<not> online c"
  shows "rinv (ts, c)"
  using assms unfolding rinv_def by blast

lemma rinvD:
  assumes "rinv (ts, c)"
  shows "online c \<longleftrightarrow> onlineBrokers c \<noteq> []" and "actives ts = of_bool (resetProcess c)"
    and "u \<in> set ts \<Longrightarrow> holds_write u \<Longrightarrow> \<not> resetProcess c"
    and "u \<in> set ts \<Longrightarrow> holds_write u \<Longrightarrow> t \<in> set ts \<Longrightarrow> \<not> holds_read t"
    and "DSend ch \<in> set ts \<Longrightarrow> \<not> online c"
    and "DSend ch \<in> set ts \<Longrightarrow> t \<in> set ts \<Longrightarrow> selects t \<Longrightarrow> ch = stopResetProcess c"
    and "RWait ch \<in> set ts \<Longrightarrow> ch = stopResetProcess c"
    and "DSignal \<in> set ts \<Longrightarrow> \<not> online c"
  using assms unfolding rinv_def by blast+

lemma rinv_flags: "rinv (ts, c) \<Longrightarrow> same_flags c c' \<Longrightarrow> rinv (ts, c')"
  using rinvD [of ts c] by (intro rinvI) (auto simp: same_flags_def)

lemma rinv_idle: "rinv (ts, c) \<Longrightarrow> \<not> resetProcess c \<Longrightarrow> t \<in> set ts \<Longrightarrow> \<not> ractive t"
  using rinvD(2) [of ts c] actives_pos [of t ts] by auto

lemma rinv_actives: "rinv (ts, c) \<Longrightarrow> actives ts \<le> 1"
  using rinvD(2) [of ts c] by simp

text \<open>Moves that change neither the reset goroutine nor what the others decide by.\<close>

lemma rinv_move:
  assumes inv: "rinv (ts, c)" and k: "k < length ts" and "\<not> ractive (ts ! k)"
    and t: "\<not> ractive t" "\<not> holds_read t" "\<not> holds_write t" and c: "same_flags c c'"
  shows "rinv (ts[k := t], c')"
proof -
  have a: "actives (ts[k := t]) = actives ts" using actives_update [OF k, of t] assms(3) t(1) by simp
  have m: "u = t \<or> u \<in> set ts" if "u \<in> set (ts[k := t])" for u by (rule upd_mem [OF that])
  have s: "\<not> selects t" using t(1) selects_active by blast
  have d: "t \<noteq> DSend ch" "t \<noteq> RWait ch" "t \<noteq> DSignal" for ch using t by auto
  have "rinv (ts[k := t], c)"
  proof (rule rinvI)
    show "actives (ts[k := t]) = of_bool (resetProcess c)" using a rinvD(2) [OF inv] by simp
    show "online c \<longleftrightarrow> onlineBrokers c \<noteq> []" by (rule rinvD(1) [OF inv])
  qed (use m s d t rinvD(3-8) [OF inv] in metis)+
  then show ?thesis using c by (rule rinv_flags)
qed

text \<open>Steps of the reset goroutine that stay in its part of the code.\<close>

lemma rinv_active_move:
  assumes inv: "rinv (ts, c)" and k: "k < length ts" and "ractive (ts ! k)"
    and t: "ractive t" "\<not> selects t \<or> selects (ts ! k)" "\<And>ch. t = RWait ch \<Longrightarrow> ch = stopResetProcess c'"
    and c: "online c' = online c" "onlineBrokers c' = onlineBrokers c" "resetProcess c' = resetProcess c"
      "stopResetProcess c' = stopResetProcess c \<or> \<not> selects t"
  shows "rinv (ts[k := t], c')"
proof -
  have a: "actives (ts[k := t]) = actives ts" using actives_update [OF k, of t] assms(3) t(1) by simp
  have m: "u = t \<or> u \<in> set ts \<and> \<not> ractive u" if "u \<in> set (ts[k := t])" for u
    using active_only [OF k rinv_actives [OF inv] assms(3) that] upd_mem [OF that] by blast
  have on: "ts ! k \<in> set ts" using k by simp
  have r: "resetProcess c" using rinvD(2) [OF inv] actives_pos [OF on assms(3)] by (cases "resetProcess c") auto
  have now: "\<not> holds_write u" if "u \<in> set ts" for u using rinvD(3) [OF inv that] r by blast
  have d: "t \<noteq> DSend ch" for ch using t(1) by auto
  have nt: "\<not> holds_write t" using active_holds [OF t(1)] by blast
  show ?thesis
  proof (rule rinvI)
    show "actives (ts[k := t]) = of_bool (resetProcess c')" using a c rinvD(2) [OF inv] by simp
    show "online c' \<longleftrightarrow> onlineBrokers c' \<noteq> []" using c rinvD(1) [OF inv] by simp
    show "\<not> resetProcess c'" if "u \<in> set (ts[k := t])" "holds_write u" for u using m that nt now by blast
    show "\<not> holds_read v" if "u \<in> set (ts[k := t])" "holds_write u" for u v using m that nt now by blast
    show "\<not> online c'" if "DSend ch \<in> set (ts[k := t])" for ch
      using m [OF that] d c rinvD(5) [OF inv] by metis
    show "ch = stopResetProcess c'"
      if ch: "DSend ch \<in> set (ts[k := t])" and u: "u \<in> set (ts[k := t])" "selects u" for ch u
    proof -
      have "u = t" using m [OF u(1)] selects_active [OF u(2)] by blast
      then have "selects (ts ! k)" "stopResetProcess c' = stopResetProcess c" using t(2) c(4) u(2) by blast+
      then show ?thesis using m [OF ch] d rinvD(6) [OF inv _ on] by metis
    qed
    show "ch = stopResetProcess c'" if "RWait ch \<in> set (ts[k := t])" for ch
      using m [OF that] t(3) by auto
    show "\<not> online c'" if "DSignal \<in> set (ts[k := t])"
      using m [OF that] t(1) c rinvD(8) [OF inv] by auto
  qed
qed

text \<open>A step under the write lock may change the online list.\<close>

lemma can_writeD:
  "can_write ts \<Longrightarrow> t \<in> set ts \<Longrightarrow> \<not> holds_write t" "can_write ts \<Longrightarrow> DSend ch \<notin> set ts"
  "can_write ts \<Longrightarrow> DSignal \<notin> set ts"
  by (auto simp: can_write_def)

lemma rinv_write:
  assumes inv: "rinv (ts, c)" and w: "can_write ts" and k: "k < length ts" and "\<not> ractive (ts ! k)"
    and t: "\<not> ractive t" "\<not> holds_read t"
    and c: "online c' \<longleftrightarrow> onlineBrokers c' \<noteq> []" "resetProcess c' = resetProcess c"
      "stopResetProcess c' = stopResetProcess c" "holds_write t \<Longrightarrow> \<not> resetProcess c"
  shows "rinv (ts[k := t], c')"
proof -
  have a: "actives (ts[k := t]) = actives ts" using actives_update [OF k, of t] assms(4) t(1) by simp
  have m: "u = t \<or> u \<in> set ts" if "u \<in> set (ts[k := t])" for u by (rule upd_mem [OF that])
  have d: "t \<noteq> DSend ch" "t \<noteq> RWait ch" "t \<noteq> DSignal" for ch using t by auto
  have no: "DSend ch \<notin> set (ts[k := t])" "DSignal \<notin> set (ts[k := t])" for ch
    using m d(1,3) can_writeD(2,3) [OF w] by metis+
  have nr: "\<not> holds_read u" if "u \<in> set ts" for u using w that by (simp add: can_write_def)
  show ?thesis
  proof (rule rinvI)
    show "actives (ts[k := t]) = of_bool (resetProcess c')" using a c rinvD(2) [OF inv] by simp
    show "\<not> resetProcess c'" if "u \<in> set (ts[k := t])" "holds_write u" for u
      using m [OF that(1)] that(2) c(2,4) can_writeD(1) [OF w] by metis
  qed (use c(1,3) no nr t(2) m d(2) rinvD(7) [OF inv] in metis)+
qed

text \<open>New goroutines.\<close>

lemma rinv_spawn:
  assumes inv: "rinv (ts, c)" and "\<not> ractive t" "\<not> holds_read t" "\<not> holds_write t"
  shows "rinv (ts @ [t], c)"
proof -
  have "\<not> selects t" "t \<noteq> DSend ch" "t \<noteq> RWait ch" "t \<noteq> DSignal" for ch using assms(2,3) selects_active by auto
  then show ?thesis
    using assms(2-4) rinvD [OF inv] by (intro rinvI) (auto simp: actives_def)
qed

lemma rinv_reset:
  assumes inv: "rinv (ts, c)" and w: "can_write ts" and "\<not> resetProcess c"
  shows "rinv (ts @ [RSelect], c\<lparr>resetProcess := True\<rparr>)"
  using rinvD [OF inv] assms(3) can_writeD [OF w] by (intro rinvI) (auto simp: actives_def)

text \<open>The end of \<open>Start\<close>, called by the reset goroutine.\<close>

lemma rinv_started:
  assumes inv: "rinv (ts, c)" and k: "k < length ts" and r: "ractive (ts ! k)"
    and c: "online c' = online c" "onlineBrokers c' = onlineBrokers c" "\<not> resetProcess c'"
  shows "rinv (ts[k := Ended], c')"
proof -
  have al: "\<not> ractive u" if "u \<in> set (ts[k := Ended])" for u
    using active_alone [OF k rinv_actives [OF inv] r, of Ended] that by simp
  have on: "ts ! k \<in> set ts" using k by simp
  then have "resetProcess c" using rinv_idle [OF inv] r by blast
  then have now: "\<not> holds_write u" if "u \<in> set ts" for u using rinvD(3) [OF inv that] by blast
  have m: "u = Ended \<or> u \<in> set ts" if "u \<in> set (ts[k := Ended])" for u by (rule upd_mem [OF that])
  show ?thesis
  proof (rule rinvI)
    show "online c' \<longleftrightarrow> onlineBrokers c' \<noteq> []" using c rinvD(1) [OF inv] by simp
    show "actives (ts[k := Ended]) = of_bool (resetProcess c')" using actives_none al c(3) by simp
    show "\<not> online c'" if "DSend ch \<in> set (ts[k := Ended])" for ch
      using m [OF that] c(1) rinvD(5) [OF inv] by auto
    show "ch = stopResetProcess c'" if "RWait ch \<in> set (ts[k := Ended])" for ch using al [OF that] by simp
    show "ch = stopResetProcess c'" if "t \<in> set (ts[k := Ended])" "selects t" for ch t
      using al [OF that(1)] selects_active [OF that(2)] by simp
    show "\<not> online c'" if "DSignal \<in> set (ts[k := Ended])"
      using m [OF that] c(1) rinvD(8) [OF inv] by auto
    show "\<not> holds_read t" if "u \<in> set (ts[k := Ended])" "holds_write u" for u t
      using m [OF that(1)] that(2) now by auto
  qed (use c(3) in simp)
qed

text \<open>Steps of \<open>owerstaying\<close> while it holds the lock: nobody is in a reset, nobody signals.\<close>

lemma rinv_overstay:
  assumes inv: "rinv (ts, c)" and k: "k < length ts" and h: "holds_write (ts ! k)"
    and t: "\<not> ractive t" "\<not> holds_read t"
    and c: "online c' = online c" "onlineBrokers c' = onlineBrokers c"
      "resetProcess c \<or> \<not> resetProcess c'"
  shows "rinv (ts[k := t], c')"
proof -
  have on: "ts ! k \<in> set ts" using k by simp
  note idle = rinvD(3) [OF inv on h]
  have m: "u = t \<or> u \<in> set ts" if "u \<in> set (ts[k := t])" for u by (rule upd_mem [OF that])
  have no: "\<not> ractive u" "\<not> holds_read u" if "u \<in> set (ts[k := t])" for u
    using m [OF that] rinv_idle [OF inv idle] rinvD(4) [OF inv on h] t by blast+
  show ?thesis
  proof (rule rinvI)
    show "online c' \<longleftrightarrow> onlineBrokers c' \<noteq> []" using c rinvD(1) [OF inv] by simp
    show "actives (ts[k := t]) = of_bool (resetProcess c')" using actives_none no(1) c(3) idle by simp
    show "\<not> online c'" if "DSend ch \<in> set (ts[k := t])" for ch using no(2) [OF that] by simp
    show "ch = stopResetProcess c'" if "RWait ch \<in> set (ts[k := t])" for ch using no(1) [OF that] by simp
    show "ch = stopResetProcess c'" if "u \<in> set (ts[k := t])" "selects u" for ch u
      using no(1) [OF that(1)] selects_active [OF that(2)] by simp
    show "\<not> online c'" if "DSignal \<in> set (ts[k := t])" using no(2) [OF that] by simp
  qed (use c(3) idle no in blast)+
qed

lemma rinv_signal:
  assumes inv: "rinv (ts, c)" and k: "k < length ts" and "\<not> ractive (ts ! k)"
    and w: "\<forall>u \<in> set ts. \<not> holds_write u" and "\<not> online c" and t: "t = DSignal \<or> t = DSend (stopResetProcess c)"
  shows "rinv (ts[k := t], c)"
proof -
  have nt: "\<not> ractive t" "\<not> selects t" "\<not> holds_write t" "\<And>ch. t \<noteq> RWait ch"
    "\<And>ch. t = DSend ch \<Longrightarrow> ch = stopResetProcess c" using t by auto
  have a: "actives (ts[k := t]) = actives ts" using actives_update [OF k, of t] assms(3) nt(1) by simp
  have m: "u = t \<or> u \<in> set ts" if "u \<in> set (ts[k := t])" for u by (rule upd_mem [OF that])
  have now: "\<not> holds_write u" if "u \<in> set (ts[k := t])" for u using m [OF that] w nt(3) by blast
  show ?thesis
  proof (rule rinvI)
    show "ch = stopResetProcess c"
      if "DSend ch \<in> set (ts[k := t])" "u \<in> set (ts[k := t])" "selects u" for ch u
      using m [OF that(1)] m [OF that(2)] that(3) rinvD(6) [OF inv] nt by metis
    show "ch = stopResetProcess c" if "RWait ch \<in> set (ts[k := t])" for ch
      using m [OF that] rinvD(7) [OF inv] nt(4) by metis
  qed (use a now assms(5) rinvD(1,2) [OF inv] in \<open>simp_all\<close>)
qed

text \<open>A goroutine that moves on within its restart.\<close>

lemma runner_facts:
  assumes "runner_of t = Some w"
  shows "\<not> selects t" "\<not> holds_read t" "ractive t = (w = ByReset)" "holds_write t = (w = ByOverstay)"
  using assms by (cases t; simp add: runner_of_def)+

lemma rinv_run:
  assumes inv: "rinv (ts, c)" and k: "k < length ts"
    and w: "runner_of (ts ! k) = Some w" "runner_of t = Some w"
    and c: "online c' = online c" "onlineBrokers c' = onlineBrokers c" "resetProcess c' = resetProcess c"
      "stopResetProcess c' = stopResetProcess c \<or> w \<noteq> ByNew"
  shows "rinv (ts[k := t], c')"
proof (cases w)
  case ByNew
  then show ?thesis
    using rinv_move [OF inv k] runner_facts [OF w(1)] runner_facts [OF w(2)] c by (simp add: same_flags_def)
next
  case ByReset
  then show ?thesis
    using rinv_active_move [OF inv k, of t c'] runner_facts [OF w(1)] runner_facts [OF w(2)] c by fastforce
next
  case ByOverstay
  then show ?thesis
    using rinv_overstay [OF inv k, of t c'] runner_facts [OF w(1)] runner_facts [OF w(2)] c by blast
qed

text \<open>
  The \<open>Start\<close> of \<open>New\<close> does not know whether a broker it has launched has asked for a reset: its
  beginning and, during a reset, its end are not among the steps that keep the invariant.
\<close>

definition boot_safe :: "rpc \<Rightarrow> Client \<Rightarrow> bool" where
  "boot_safe t c \<longleftrightarrow> t \<noteq> SMake ByNew \<and> (\<forall>auth pid. t = SLaunch ByNew auth pid [] \<longrightarrow> \<not> resetProcess c)"

lemma rinv_end:
  assumes inv: "rinv (ts, c)" and k: "k < length ts" and t: "ts ! k = SLaunch w auth pid []"
    and b: "boot_safe (ts ! k) c"
  shows "rinv (ts[k := Ended], c\<lparr>overstayProcess := False, resetProcess := False\<rparr>)"
proof (cases w)
  case ByNew
  with b t have "\<not> resetProcess c" by (simp add: boot_safe_def)
  then show ?thesis using rinv_move [OF inv k] t ByNew by (simp add: same_flags_def)
next
  case ByReset
  then show ?thesis using rinv_started [OF inv k] t by simp
next
  case ByOverstay
  then show ?thesis using rinv_overstay [OF inv k] t by simp
qed

lemma rstep_inv:
  assumes inv: "rinv (ts, c)" and k: "k < length ts" and b: "boot_safe (ts ! k) c"
    and step: "rstep start k ks n (ts, c) = Some s'"
  shows "rinv s'"
proof -
  obtain t c' new where m: "rmove start ks n ts c (ts ! k) t c' new" and s': "s' = (ts[k := t] @ new, c')"
    using step k by (rule rstepE)
  have run: "rinv (ts[k := t], c')"
    if "runner_of (ts ! k) = Some w" "runner_of t = Some w" "same_flags c c' \<or> w \<noteq> ByNew \<and> c' = make_stop c" for w
    using that(3) by (intro rinv_run [OF inv k that(1,2)]) (auto simp: same_flags_def)
  from m have "rinv (ts[k := t] @ new, c')"
  proof cases
    case (delete i)
    then show ?thesis using inv k by (auto intro!: rinv_write simp: Client_delete_def Let_def)
  next
    case signal
    then show ?thesis using rinv_signal [OF inv k, of DSignal] by (simp add: can_read_def)
  next
    case channel
    have on: "DSignal \<in> set ts" using channel k by (metis nth_mem)
    then have "\<forall>u \<in> set ts. \<not> holds_write u" using rinvD(4) [OF inv] by fastforce
    then show ?thesis using rinv_signal [OF inv k _ _ rinvD(8) [OF inv on]] channel by simp
  next
    case (list_in bk)
    then show ?thesis using inv k by (auto intro!: rinv_write simp: Client_set_def Let_def)
  next
    case reset_first
    then show ?thesis
      using rinv_move [OF rinv_reset [OF inv], of k Ended] k by (simp add: nth_append list_update_append)
  next
    case select
    then show ?thesis using rinv_active_move [OF inv k, of "RWait (stopResetProcess c)" c] by simp
  next
    case overstay
    then show ?thesis
      using rinv_write [OF inv _ k, of "SStop ByOverstay" "c\<lparr>overstayProcess := True\<rparr>"] rinvD(1) [OF inv] by simp
  next
    case (started w auth pid)
    then show ?thesis using rinv_end [OF inv k _ b] by simp
  next
    case (visit i w js)
    then show ?thesis using run [of w] by (simp add: runner_of_def same_flags_Done)
  next
    case (make w)
    then show ?thesis using run [of w] b by (simp add: runner_of_def boot_safe_def)
  qed (use rinv_move [OF inv k, of t c'] run in \<open>auto simp: runner_of_def\<close>)
  then show ?thesis by (simp add: s')
qed

text \<open>The steps that keep the invariant.\<close>

definition ev_safe :: "revent \<Rightarrow> rpc list \<times> Client \<Rightarrow> bool" where
  "ev_safe ev s \<longleftrightarrow> (case ev of Step k ks n \<Rightarrow> boot_safe (fst s ! k) (snd s) | _ \<Rightarrow> True)"

lemma rexec_inv:
  assumes inv: "rinv s" and step: "rexec start ev s = Some s'" and safe: "ev_safe ev s"
  shows "rinv s'"
proof -
  obtain ts c where s: "s = (ts, c)" by force
  show ?thesis
  proof (cases ev)
    case (Spawn t)
    with step s have "entry t" "s' = (ts @ [t], c)" by (auto split: if_splits)
    then show ?thesis using rinv_spawn [of ts c t] inv s by (cases t) (simp_all add: entry_def)
  next
    case (Step k ks n)
    with step s have "k < length ts" "rstep start k ks n (ts, c) = Some s'" by (auto split: if_splits)
    moreover have "boot_safe (ts ! k) c" using safe s Step by (simp add: ev_safe_def)
    ultimately show ?thesis using rstep_inv inv s by blast
  next
    case (Timer k)
    with step s obtain ch where "k < length ts" "ts ! k = RWait ch" "s' = (ts[k := SStop ByReset], c)"
      by (auto simp: go_def split: if_splits rpc.splits)
    then show ?thesis using rinv_active_move [of ts c k "SStop ByReset" c] inv s by simp
  next
    case (Sync k j)
    with step s obtain ch where k: "k < length ts" "j < length ts" "ts ! k = DSend ch" "ts ! j = RWait ch"
      and s': "s' = ((ts[k := Ended])[j := SStop ByReset], c)"
      by (auto simp: go_def split: if_splits rpc.splits)
    then have "k \<noteq> j" by auto
    moreover have "rinv (ts[k := Ended], c)" using rinv_move [of ts c k Ended c] k inv s by simp
    ultimately show ?thesis
      using rinv_active_move [of "ts[k := Ended]" c j "SStop ByReset" c] k s' by simp
  qed
qed

text \<open>After the first \<open>Start\<close>, all restarts are the client's own.\<close>

definition settled :: "rpc list \<Rightarrow> bool" where
  "settled ts \<longleftrightarrow> (\<forall>t \<in> set ts. runner_of t \<noteq> Some ByNew)"

lemma rstep_positions:
  assumes "rstep start k ks n (ts, c) = Some (ts', c')" and "k < length ts"
  shows "\<exists>t. (ts' = ts[k := t] \<or> ts' = (ts @ [RSelect])[k := t] \<and> ts ! k = ResetCall) \<and>
    (runner_of t = runner_of (ts ! k) \<or> runner_of t = None \<or> ts ! k = OCall \<and> runner_of t = Some ByOverstay)"
proof -
  obtain t new where "rmove start ks n ts c (ts ! k) t c' new" "ts' = ts[k := t] @ new"
    using assms by (auto elim: rstepE)
  then show ?thesis using assms(2)
    by (intro exI [of _ t], cases rule: rmove.cases) (auto simp: runner_of_def list_update_append)
qed

text \<open>No step makes a goroutine run the first \<open>Start\<close>.\<close>

lemma rexec_boots:
  assumes step: "rexec start ev (ts, c) = Some (ts', c')"
  shows "length ts \<le> length ts'"
    and "i < length ts' \<Longrightarrow> runner_of (ts' ! i) = Some ByNew \<Longrightarrow> i < length ts \<and> runner_of (ts ! i) = Some ByNew"
proof -
  have all: "length ts \<le> length ts' \<and> (i < length ts' \<longrightarrow> runner_of (ts' ! i) = Some ByNew \<longrightarrow>
      i < length ts \<and> runner_of (ts ! i) = Some ByNew)"
  proof (cases ev)
    case (Spawn t)
    then show ?thesis using step
      by (cases t) (auto simp: entry_def runner_of_def nth_append split: if_splits)
  next
    case (Step k ks n)
    with step have k: "k < length ts" and st: "rstep start k ks n (ts, c) = Some (ts', c')"
      by (auto split: if_splits)
    obtain t where "ts' = ts[k := t] \<or> ts' = (ts @ [RSelect])[k := t]"
      "runner_of t = runner_of (ts ! k) \<or> runner_of t = None \<or> runner_of t = Some ByOverstay"
      using rstep_positions [OF st k] by blast
    moreover have "runner_of RSelect = None" by (simp add: runner_of_def)
    ultimately show ?thesis
      using k by (auto simp: nth_list_update nth_append less_Suc_eq split: if_splits)
  next
    case (Timer k)
    then show ?thesis using step
      by (auto simp: go_def runner_of_def nth_list_update split: if_splits rpc.splits)
  next
    case (Sync k j)
    with step obtain ch where "ts ! k = DSend ch" "ts ! j = RWait ch" "ts' = ts[k := Ended, j := SStop ByReset]"
      by (auto simp: go_def split: if_splits rpc.splits)
    moreover have "runner_of Ended = None" "runner_of (SStop ByReset) = Some ByReset" by (simp_all add: runner_of_def)
    ultimately show ?thesis by (cases "i = j"; cases "i = k") (simp_all add: nth_list_update)
  qed
  from all show "length ts \<le> length ts'" by (rule conjunct1)
  from all show "i < length ts \<and> runner_of (ts ! i) = Some ByNew"
    if "i < length ts'" "runner_of (ts' ! i) = Some ByNew"
    using that by simp
qed

lemma rexec_settled:
  "settled ts \<Longrightarrow> rexec start ev (ts, c) = Some (ts', c') \<Longrightarrow> settled ts'"
  using rexec_boots(2) unfolding settled_def by (metis in_set_conv_nth)

lemma settled_safe:
  assumes "settled ts" and "k < length ts"
  shows "boot_safe (ts ! k) c"
proof -
  have "runner_of (ts ! k) \<noteq> Some ByNew" using assms by (simp add: settled_def)
  then show ?thesis by (auto simp: boot_safe_def runner_of_def)
qed

lemma rsteps_inv:
  assumes "rsteps start s s'" and "rinv s" and "settled (fst s)"
  shows "rinv s' \<and> settled (fst s')"
  using assms
proof (induction rule: rsteps.induct)
  case (rsteps_step s s' ev s'')
  then have IH: "rinv s'" "settled (fst s')" by simp_all
  have ex: "rexec start ev (fst s', snd s') = Some (fst s'', snd s'')" using rsteps_step.hyps(2) by simp
  have "ev_safe ev s'"
    using IH(2) rsteps_step.hyps(2) settled_safe by (auto simp: ev_safe_def split: revent.splits if_splits)
  with rexec_inv [OF IH(1) rsteps_step.hyps(2)] rexec_settled [OF IH(2) ex] show ?case by simp
qed simp

lemma rinv_resting: "resting c \<Longrightarrow> rinv ([], c)"
  by (simp add: resting_def rinv_def actives_def)

lemma settled_Nil [simp]: "settled []"
  by (simp add: settled_def)

section \<open>The locks exclude\<close>

definition alone :: "(rpc \<Rightarrow> bool) \<Rightarrow> rpc list \<Rightarrow> bool" where
  "alone P ts \<longleftrightarrow> (\<forall>i < length ts. \<forall>j < length ts. P (ts ! i) \<longrightarrow> P (ts ! j) \<longrightarrow> i = j)"

text \<open>At most one writer, at most one \<open>Done\<close>, and no reader beside a writer.\<close>

definition locks_ok :: "rpc list \<Rightarrow> bool" where
  "locks_ok ts \<longleftrightarrow> alone holds_write ts \<and> alone holds_store ts \<and>
     (\<forall>u \<in> set ts. holds_write u \<longrightarrow> (\<forall>t \<in> set ts. \<not> holds_read t))"

lemma alone_update:
  assumes "alone P ts" and "P t \<Longrightarrow> P (ts ! k) \<or> (\<forall>u \<in> set ts. \<not> P u)"
  shows "alone P (ts[k := t])"
  unfolding alone_def
proof (intro allI impI)
  fix i j
  assume i: "i < length (ts[k := t])" "P (ts[k := t] ! i)" and j: "j < length (ts[k := t])" "P (ts[k := t] ! j)"
  have eq: "m = n" if "m < length ts" "n < length ts" "P (ts ! m)" "P (ts ! n)" for m n
    using assms(1) that by (simp add: alone_def)
  have other: "m = k" if "m < length ts" "P (ts ! m)" "P t" "k < length ts" for m
    using assms(2) [OF that(3)] eq [OF that(1) that(4) that(2)] that(1,2) nth_mem by blast
  show "i = j"
    using i j eq [of i j] other [of i] other [of j]
    by (cases "i = k"; cases "j = k") auto
qed

lemma alone_append: "alone P ts \<Longrightarrow> \<not> P t \<Longrightarrow> alone P (ts @ [t])"
  by (auto simp: alone_def nth_append less_Suc_eq)

lemma locks_ok_Nil [simp]: "locks_ok []"
  by (simp add: locks_ok_def alone_def)

lemma locks_ok_append:
  "locks_ok ts \<Longrightarrow> \<not> holds_write t \<Longrightarrow> \<not> holds_read t \<Longrightarrow> \<not> holds_store t \<Longrightarrow> locks_ok (ts @ [t])"
  by (auto simp: locks_ok_def alone_append)

lemma locks_ok_update:
  assumes ok: "locks_ok ts" and k: "k < length ts"
    and w: "holds_write t \<Longrightarrow> holds_write (ts ! k) \<or> can_write ts" and r: "holds_read t \<Longrightarrow> holds_read (ts ! k) \<or> can_read ts"
    and s: "holds_store t \<Longrightarrow> holds_store (ts ! k) \<or> can_store ts" and x: "\<not> (holds_write t \<and> holds_read t)"
  shows "locks_ok (ts[k := t])"
proof -
  have "alone holds_write (ts[k := t])"
    using ok w by (intro alone_update) (auto simp: locks_ok_def can_write_def)
  moreover have "alone holds_store (ts[k := t])"
    using ok s by (intro alone_update) (auto simp: locks_ok_def can_store_def)
  moreover have "\<not> holds_read v" if u: "u \<in> set (ts[k := t])" "holds_write u" and v: "v \<in> set (ts[k := t])" for u v
  proof
    assume hv: "holds_read v"
    have on: "ts ! k \<in> set ts" using k by simp
    have no: "\<not> (holds_write y \<and> holds_read z)" if "y \<in> set ts" "z \<in> set ts" for y z
      using ok that by (auto simp: locks_ok_def)
    from upd_mem [OF u(1)] upd_mem [OF v] show False
    proof (elim disjE)
      assume "u = t" "v = t"
      then show False using x u(2) hv by simp
    next
      assume "u = t" "v \<in> set ts"
      then show False using w u(2) hv no [OF on] by (auto simp: can_write_def)
    next
      assume "u \<in> set ts" "v = t"
      then show False using r u(2) hv no [OF _ on] by (auto simp: can_read_def)
    next
      assume "u \<in> set ts" "v \<in> set ts"
      then show False using no u(2) hv by blast
    qed
  qed
  ultimately show ?thesis by (auto simp: locks_ok_def)
qed

lemma holds_store_simps [simp]:
  "holds_store (SVisit w js)" "\<not> holds_store (SStop w)" "\<not> holds_store (SMake w)" "\<not> holds_store (SRequest w)"
  "\<not> holds_store (SLaunch w auth pid bks)" "\<not> holds_store (DDelete i)" "\<not> holds_store DCheck" "\<not> holds_store DSignal"
  "\<not> holds_store (DSend ch)" "\<not> holds_store (CGet i)" "\<not> holds_store (CSet b)" "\<not> holds_store ResetCall"
  "\<not> holds_store RSelect" "\<not> holds_store (RWait ch)" "\<not> holds_store OCall" "\<not> holds_store NextCall"
  "\<not> holds_store Ended"
  by (simp_all add: holds_store_def)

lemma rstep_locks:
  assumes ok: "locks_ok ts" and k: "k < length ts" and step: "rstep start k ks n (ts, c) = Some (ts', c')"
  shows "locks_ok ts'"
proof -
  obtain t new where m: "rmove start ks n ts c (ts ! k) t c' new" and ts': "ts' = ts[k := t] @ new"
    using step k by (auto elim: rstepE)
  have "(holds_write t \<longrightarrow> holds_write (ts ! k) \<or> can_write ts) \<and> (holds_read t \<longrightarrow> holds_read (ts ! k) \<or> can_read ts) \<and>
      (holds_store t \<longrightarrow> holds_store (ts ! k) \<or> can_store ts) \<and> \<not> (holds_write t \<and> holds_read t)"
    using m by cases simp_all
  then have "locks_ok (ts[k := t])" by (intro locks_ok_update [OF ok k]) blast+
  moreover have "new = [] \<or> new = [RSelect]" using m by cases simp_all
  ultimately show ?thesis using locks_ok_append [of "ts[k := t]" RSelect] by (auto simp: ts')
qed

lemma rexec_locks:
  assumes ok: "locks_ok ts" and step: "rexec start ev (ts, c) = Some (ts', c')"
  shows "locks_ok ts'"
proof (cases ev)
  case (Spawn t)
  with step ok show ?thesis
    by (cases t) (auto simp: entry_def split: if_splits intro!: locks_ok_append)
next
  case (Step k ks n)
  with step ok rstep_locks show ?thesis by (auto split: if_splits)
next
  case (Timer k)
  with step have "k < length ts" "ts' = ts[k := SStop ByReset]" by (auto simp: go_def split: if_splits rpc.splits)
  then show ?thesis using locks_ok_update [OF ok, of k "SStop ByReset"] by simp
next
  case (Sync k j)
  with step have "k < length ts" "j < length ts" "ts' = ts[k := Ended, j := SStop ByReset]"
    by (auto simp: go_def split: if_splits rpc.splits)
  then show ?thesis
    using locks_ok_update [OF locks_ok_update [OF ok, of k Ended], of j "SStop ByReset"] by simp
qed

section \<open>A signal nobody receives\<close>

definition stuck :: "nat \<Rightarrow> rpc list \<Rightarrow> bool" where
  "stuck k ts \<longleftrightarrow> k < length ts \<and> (\<exists>ch. ts ! k = DSend ch) \<and> (\<forall>t \<in> set ts. \<not> selects t)"

lemma stuck_no_write: "stuck k ts \<Longrightarrow> \<not> can_write ts"
  unfolding stuck_def using can_writeD(2) by (metis nth_mem)

lemma stuck_move: "stuck k ts \<Longrightarrow> j \<noteq> k \<Longrightarrow> \<not> selects t \<Longrightarrow> stuck k (ts[j := t])"
  using upd_mem by (fastforce simp: stuck_def)

text \<open>What stays the same while the writers are locked out.\<close>

definition same_list :: "Client \<Rightarrow> Client \<Rightarrow> bool" where
  "same_list c c' \<longleftrightarrow> online c' = online c \<and> onlineBrokers c' = onlineBrokers c"

lemma same_list_flags: "same_flags c c' \<Longrightarrow> same_list c c'"
  by (simp add: same_flags_def same_list_def)

lemma same_list_simps [simp]:
  "same_list c c" "same_list c (c\<lparr>overstayProcess := x\<rparr>)" "same_list c (make_stop c)"
  "same_list c (c\<lparr>resetProcess := x\<rparr>)" "same_list c (c\<lparr>overstayProcess := x, resetProcess := y\<rparr>)"
  by (simp_all add: same_list_def)

lemma stuck_rstep:
  assumes k: "stuck k ts" and j: "j < length ts" and step: "rstep start j ks n (ts, c) = Some (ts', c')"
  shows "stuck k ts' \<and> ts' ! k = ts ! k \<and> same_list c c'"
proof -
  obtain t new where m: "rmove start ks n ts c (ts ! j) t c' new" and ts': "ts' = ts[j := t] @ new"
    using step j by (auto elim: rstepE)
  have jk: "j \<noteq> k" using k m by (auto simp: stuck_def)
  have nosel: "\<not> selects (ts ! j)" using k j by (simp add: stuck_def)
  from m have "\<not> selects t \<and> same_list c c' \<and> new = []"
    by cases (use stuck_no_write [OF k] nosel same_flags_Done in \<open>simp_all add: same_list_flags\<close>)
  then show ?thesis using stuck_move [OF k jk] jk by (auto simp: ts')
qed

lemma stuck_rexec:
  assumes k: "stuck k ts" and step: "rexec start ev (ts, c) = Some (ts', c')"
  shows "stuck k ts' \<and> ts' ! k = ts ! k \<and> same_list c c'"
proof (cases ev)
  case (Spawn t)
  with step have "entry t" "ts' = ts @ [t]" "c' = c" by (auto split: if_splits)
  moreover have "\<not> selects t" using \<open>entry t\<close> by (cases t) (simp_all add: entry_def)
  ultimately show ?thesis using k by (auto simp: stuck_def nth_append same_list_def)
next
  case (Step j ks n)
  with step have "j < length ts" "rstep start j ks n (ts, c) = Some (ts', c')" by (auto split: if_splits)
  then show ?thesis using stuck_rstep [OF k] by blast
next
  case (Timer j)
  with step obtain ch where "j < length ts" "ts ! j = RWait ch" by (auto split: if_splits rpc.splits)
  then have "RWait ch \<in> set ts" by (metis nth_mem)
  then show ?thesis using k by (force simp: stuck_def)
next
  case (Sync i j)
  with step obtain ch where "j < length ts" "ts ! j = RWait ch" by (auto split: if_splits rpc.splits)
  then have "RWait ch \<in> set ts" by (metis nth_mem)
  then show ?thesis using k by (force simp: stuck_def)
qed

lemma stuck_rsteps:
  assumes "rsteps start s s'" and "stuck k (fst s)"
  shows "stuck k (fst s') \<and> fst s' ! k = fst s ! k \<and> same_list (snd s) (snd s')"
  using assms
proof (induction rule: rsteps.induct)
  case rsteps_refl
  then show ?case by (simp add: same_list_def)
next
  case (rsteps_step s s' ev s'')
  then have IH: "stuck k (fst s')" "fst s' ! k = fst s ! k" "same_list (snd s) (snd s')" by simp_all
  have "rexec start ev (fst s', snd s') = Some (fst s'', snd s'')" using rsteps_step.hyps(2) by simp
  from stuck_rexec [OF IH(1) this] IH show ?case by (simp add: same_list_def)
qed

section \<open>Runs\<close>

fun rrun :: "start_fun \<Rightarrow> revent list \<Rightarrow> rpc list \<times> Client \<Rightarrow> (rpc list \<times> Client) option" where
  "rrun start [] s = Some s"
| "rrun start (ev # evs) s = (case rexec start ev s of None \<Rightarrow> None | Some s' \<Rightarrow> rrun start evs s')"

lemma rrun_rsteps: "rsteps start s0 s \<Longrightarrow> rrun start evs s = Some s' \<Longrightarrow> rsteps start s0 s'"
  by (induction evs arbitrary: s) (auto split: option.splits intro: rsteps_step)

lemma rrun_append:
  "rrun start (evs @ evs') s = (case rrun start evs s of None \<Rightarrow> None | Some s' \<Rightarrow> rrun start evs' s')"
  by (induction evs arbitrary: s) (auto split: option.split)

text \<open>
  A concrete run: broker \<open>a\<close> is online, the server asks for a reset, the timer fires, the brokers
  are stopped, and the connection of \<open>a\<close>, stopped this way, reports its end.
\<close>

definition serving :: Client where
  "serving = demo_cli\<lparr>onlineBrokers := [0], online := True\<rparr>"

definition serving_start :: start_fun where
  "serving_start = start_in Inr demo_enc (demo_dec []) ''pod'' (\<lambda>n m. demo_turn True) (\<lambda>n. ''uuid'')"

definition reset_run :: "revent list" where
  "reset_run =
     [Spawn ResetCall, Step 0 [] 0, Step 1 [] 0, Timer 1, Step 1 [''a'', ''b''] 0, Step 1 [] 0,
      Spawn (DDelete ''a''), Step 2 [] 0, Step 2 [] 0, Step 2 [] 0]"

lemma serving: "resting serving"
  by (simp add: resting_def serving_def demo_cli_def)

lemmas rrun_simps = rstep_def go_def entry_def can_write_def can_read_def can_store_def holds_store_def
  Client_reset_def serving_def demo_cli_def brokers_Done_def Client_delete_def on_ready_def new_broker_def Let_def
  Broker_Done_def cancel_ctx_def

lemma reset_run:
  "\<exists>c. rrun serving_start reset_run ([], serving) = Some ([Ended, SVisit ByReset [''b''], DSend 0], c)"
  by (simp add: reset_run_def rrun_simps)

section \<open>Properties\<close>

text \<open>
  C35. Resets are exclusive once the first \<open>Start\<close> is over: in every interleaving of calls that starts from a
  client at rest, after the first \<open>Start\<close> has ended and with no reset running, there is one reset
  goroutine exactly while a reset is in progress, \<open>owerstaying\<close> holds the lock only outside resets, the
  online flag agrees with the list, and a \<open>disconnect\<close> that signals while the reset goroutine is in its
  \<open>select\<close> can hand it the signal, which ends the wait and frees the lock.
\<close>

theorem one_reset_goroutine:
  assumes "resting c0" and "rsteps start ([], c0) (ts, c)"
  shows "length (filter ractive ts) = (if resetProcess c then 1 else 0) \<and>
    (\<forall>t \<in> set ts. holds_write t \<longrightarrow> \<not> resetProcess c) \<and> (online c \<longleftrightarrow> onlineBrokers c \<noteq> []) \<and>
    (\<forall>k < length ts. \<forall>j < length ts. \<forall>ch ch'. ts ! k = DSend ch \<longrightarrow> ts ! j = RWait ch' \<longrightarrow>
       rexec start (Sync k j) (ts, c) = Some (ts[k := Ended, j := SStop ByReset], c))"
proof -
  have inv: "rinv (ts, c)" using rsteps_inv [OF assms(2) rinv_resting [OF assms(1)]] by simp
  have "ch = ch'" if "k < length ts" "j < length ts" "ts ! k = DSend ch" "ts ! j = RWait ch'" for k j ch ch'
  proof -
    have "DSend ch \<in> set ts" "RWait ch' \<in> set ts" using that nth_mem by metis+
    then show ?thesis using rinvD(6) [OF inv, of ch "RWait ch'"] rinvD(7) [OF inv, of ch'] by simp
  qed
  then show ?thesis
    using rinvD(1-3) [OF inv] by (auto simp: actives_def go_def)
qed

theorem one_reset_goroutine_witness:
  "\<exists>c. rsteps serving_start ([], serving) ([Ended, SVisit ByReset [''b''], DSend 0], c) \<and> resetProcess c"
proof -
  obtain c where "rrun serving_start reset_run ([], serving) = Some ([Ended, SVisit ByReset [''b''], DSend 0], c)"
    using reset_run by blast
  from rrun_rsteps [OF rsteps_refl this]
  have r: "rsteps serving_start ([], serving) ([Ended, SVisit ByReset [''b''], DSend 0], c)" .
  from one_reset_goroutine [OF serving r]
  have "resetProcess c" by (cases "resetProcess c") simp_all
  with r show ?thesis by blast
qed

text \<open>
  C25. A signal after the wait is never received: once a \<open>disconnect\<close> is at its channel send and no
  goroutine is before or in the \<open>select\<close> (because the timer ended the wait), that \<open>disconnect\<close> keeps the
  read lock for ever. Whatever else happens, a completed \<open>Start\<close> included, no \<open>connect\<close> can enter the
  online list again, so the client stays offline and every send fails.
\<close>

theorem late_signal_deadlocks:
  assumes "resting c0" and "rsteps start ([], c0) (ts, c)"
    and "k < length ts" and "ts ! k = DSend ch" and "\<forall>t \<in> set ts. \<not> selects t"
    and "rsteps start (ts, c) (ts', c')"
  shows "ts' ! k = DSend ch \<and> \<not> can_write ts' \<and> onlineBrokers c' = [] \<and>
    nextBroker c' = (Inl ErrClientNotConnected, c')"
proof -
  have inv: "rinv (ts, c)" using rsteps_inv [OF assms(2) rinv_resting [OF assms(1)]] by simp
  have "DSend ch \<in> set ts" using assms(3,4) by (metis nth_mem)
  then have off: "\<not> online c" by (rule rinvD(5) [OF inv])
  have st: "stuck k ts" using assms(3-5) by (auto simp: stuck_def)
  have "stuck k ts' \<and> ts' ! k = ts ! k \<and> same_list c c'"
    using stuck_rsteps [OF assms(6)] st by simp
  then show ?thesis
    using assms(4) off rinvD(1) [OF inv] stuck_no_write by (auto simp: same_list_def nextBroker_def)
qed

theorem late_signal_deadlocks_witness:
  "\<exists>c ts' c'. rsteps serving_start ([], serving) ([Ended, SVisit ByReset [''b''], DSend 0], c) \<and>
     rsteps serving_start ([Ended, SVisit ByReset [''b''], DSend 0], c) (ts', c') \<and> ts' ! 1 = SRequest ByReset \<and>
     ts' ! 2 = DSend 0 \<and> nextBroker c' = (Inl ErrClientNotConnected, c')"
proof -
  let ?ts = "[Ended, SVisit ByReset [''b''], DSend 0]"
  obtain c where c: "rrun serving_start reset_run ([], serving) = Some (?ts, c)"
    using reset_run by blast
  have r: "rsteps serving_start ([], serving) (?ts, c)" by (rule rrun_rsteps [OF rsteps_refl c])
  have "\<exists>c'. rrun serving_start (reset_run @ [Step 1 [] 0, Step 1 [] 0, Step 1 [] 0]) ([], serving) =
      Some ([Ended, SRequest ByReset, DSend 0], c')"
    by (simp add: reset_run_def rrun_simps)
  then obtain c' where
    "rrun serving_start [Step 1 [] 0, Step 1 [] 0, Step 1 [] 0] (?ts, c) = Some ([Ended, SRequest ByReset, DSend 0], c')"
    unfolding rrun_append c by auto
  from rrun_rsteps [OF rsteps_refl this]
  have r': "rsteps serving_start (?ts, c) ([Ended, SRequest ByReset, DSend 0], c')" .
  have "nextBroker c' = (Inl ErrClientNotConnected, c')"
    using late_signal_deadlocks [OF serving r, of 2 0, OF _ _ _ r'] by simp
  with r r' show ?thesis by fastforce
qed

end
