(* ===== verification/Broker_Lifecycle.thy ===== *)
theory Broker_Lifecycle
  imports Broker
begin

text \<open>
  The goroutines of \<open>Broker.Start\<close> (src/broker/broker.go) as a state machine. Every call of
  \<open>Start\<close> is a session: its own goroutine, which dials and then waits for its context to end,
  and the read goroutine it spawns once the stream is open. Either may run \<open>restart\<close>, sleep, and
  call \<open>Start\<close> again from inside, so sessions nest. An event names the session that moves and
  what the network, the timer or a caller of \<open>Done\<close> did; \<open>bexec\<close> is the code's reaction, with
  the calls the broker makes outside as labels.

  \<open>restart\<close> is one step, taken when \<open>OwerstayingFunc\<close> has answered, if it is asked. What it does before
  that, to compare the delay and to count the attempt, concerns two fields that no other goroutine
  touches meanwhile (C16: one session is active), and what it reads and writes afterwards it does
  without waiting for anyone. In the composed system (theory \<open>Client_System\<close>) the call of
  \<open>OwerstayingFunc\<close> is a step of its own, before this one.
\<close>

section \<open>State\<close>

datatype main_pc =
    MDial            \<comment> \<open>dialling and opening the stream\<close>
  | MBackoff nat     \<comment> \<open>in \<open>restart\<close>, sleeping unless that context ends\<close>
  | MNested nat      \<comment> \<open>in \<open>restart\<close>, inside the \<open>Start\<close> call of that session\<close>
  | MWait            \<comment> \<open>at \<open><-ctx.Done()\<close>\<close>
  | MEnd

datatype reader_pc = RNone | RReading | RBackoff nat | RNested nat | REnd

record session =
  s_main :: main_pc
  s_reader :: reader_pc

record bsys =
  brk :: Broker
  sess :: "session list"
  crashed :: bool

datatype bevent =
    EvStart                          \<comment> \<open>the client's \<open>go bk.Start()\<close>\<close>
  | EvDialFailed nat
  | EvDialPanic nat                  \<comment> \<open>\<open>Path\<close> panics: no working directory for a relative certificate path\<close>
  | EvChannelFailed nat bool         \<comment> \<open>with the answer of \<open>OwerstayingFunc\<close>, should it be asked\<close>
  | EvChannelOpen nat
  | EvReady nat
  | EvReset nat string pbtime
  | EvMessage nat Message
  | EvRecvError nat code bool
  | EvTimer nat
  | EvSleepCancelled nat
  | EvReturned nat                   \<comment> \<open>the nested \<open>Start\<close> call returned\<close>
  | EvWake nat                       \<comment> \<open>\<open>ctx.Done()\<close> observed by the session's goroutine\<close>
  | EvDone                           \<comment> \<open>a caller of \<open>Broker.Done\<close>\<close>

datatype blabel =
    LConnect | LDisconnect | LReset | LPanic | LSend nat Message | LRecv Message | LOverstay bool

section \<open>Reactions\<close>

definition set_main :: "nat \<Rightarrow> main_pc \<Rightarrow> bsys \<Rightarrow> bsys" where
  "set_main k m y = y\<lparr>sess := (sess y)[k := (sess y ! k)\<lparr>s_main := m\<rparr>]\<rparr>"

definition set_reader :: "nat \<Rightarrow> reader_pc \<Rightarrow> bsys \<Rightarrow> bsys" where
  "set_reader k r y = y\<lparr>sess := (sess y)[k := (sess y ! k)\<lparr>s_reader := r\<rparr>]\<rparr>"

definition begin_session :: "bsys \<Rightarrow> bsys" where
  "begin_session y =
     y\<lparr>brk := snd (Start_begin (brk y)), sess := sess y @ [\<lparr>s_main = MDial, s_reader = RNone\<rparr>]\<rparr>"

text \<open>The read goroutine returns: it cancels its session's context first.\<close>

definition end_reader :: "nat \<Rightarrow> bsys \<Rightarrow> bsys" where
  "end_reader k y = set_reader k REnd (y\<lparr>brk := cancel_ctx (Some k) (brk y)\<rparr>)"

definition asks_overstay :: "Broker \<Rightarrow> bool" where
  "asks_overstay b \<longleftrightarrow> duration b = durationMax \<and> overstayCount b + 1 \<le> overstayAttempts"

definition overstay_label :: "bool \<Rightarrow> Broker \<Rightarrow> blabel list" where
  "overstay_label over b = (if asks_overstay b then [LOverstay over] else [])"

fun bexec :: "bevent \<Rightarrow> bsys \<Rightarrow> (blabel list \<times> bsys) option" where
  "bexec EvStart y = (if sess y = [] then Some ([], begin_session y) else None)"
| "bexec (EvDialFailed k) y =
     (if k < length (sess y) \<and> s_main (sess y ! k) = MDial then Some ([], set_main k MEnd y) else None)"
| "bexec (EvDialPanic k) y =
     (if k < length (sess y) \<and> s_main (sess y ! k) = MDial \<and> bInsecure (brk y) \<and> \<not> IsAbs (certPath (brk y))
      then Some ([LPanic], y\<lparr>crashed := True\<rparr>) else None)"
| "bexec (EvChannelFailed k over) y =
     (if k < length (sess y) \<and> s_main (sess y ! k) = MDial then
        (case restart over (brk y) of
           (b, WaitFor d ctx) \<Rightarrow> Some (overstay_label over (brk y), set_main k (MBackoff ctx) (y\<lparr>brk := b\<rparr>))
         | (b, Diverges) \<Rightarrow> None
         | (b, r) \<Rightarrow> Some (overstay_label over (brk y), set_main k MEnd (y\<lparr>brk := b\<rparr>)))
      else None)"
| "bexec (EvChannelOpen k) y =
     (if k < length (sess y) \<and> s_main (sess y ! k) = MDial
      then Some ([], set_reader k RReading (set_main k MWait y)) else None)"
| "bexec (EvReady k) y =
     (if k < length (sess y) \<and> s_reader (sess y ! k) = RReading
      then Some ([LConnect], y\<lparr>brk := on_ready k (brk y)\<rparr>) else None)"
| "bexec (EvReset k uuid now) y =
     (if k < length (sess y) \<and> s_reader (sess y ! k) = RReading then
        (case initResetProcess uuid now (brk y) of
           (b, Returns (s, ack)) \<Rightarrow> Some ([LSend s ack, LReset], y\<lparr>brk := b\<rparr>)
         | (b, Panics e) \<Rightarrow> Some ([LPanic], y\<lparr>brk := b, crashed := True\<rparr>))
      else None)"
| "bexec (EvMessage k msg) y =
     (if k < length (sess y) \<and> s_reader (sess y ! k) = RReading \<and>
         Name msg \<noteq> ''_.ready'' \<and> Name msg \<noteq> ''_.reset''
      then Some ([LRecv msg], y) else None)"
| "bexec (EvRecvError k c over) y =
     (if k < length (sess y) \<and> s_reader (sess y ! k) = RReading then
        (case handleError c over (brk y) of
           (b, Some (WaitFor d ctx)) \<Rightarrow> Some (overstay_label over (brk y), set_reader k (RBackoff ctx) (y\<lparr>brk := b\<rparr>))
         | (b, Some Diverges) \<Rightarrow> None
         | (b, Some r) \<Rightarrow> Some (overstay_label over (brk y), end_reader k (y\<lparr>brk := b\<rparr>))
         | (b, None) \<Rightarrow> Some ([], end_reader k (y\<lparr>brk := b\<rparr>)))
      else None)"
| "bexec (EvTimer k) y =
     (if k < length (sess y) then
        (case (s_main (sess y ! k), s_reader (sess y ! k)) of
           (MBackoff ctx, _) \<Rightarrow> Some ([], set_main k (MNested (length (sess y))) (begin_session y))
         | (_, RBackoff ctx) \<Rightarrow> Some ([], set_reader k (RNested (length (sess y))) (begin_session y))
         | _ \<Rightarrow> None)
      else None)"
| "bexec (EvSleepCancelled k) y =
     (if k < length (sess y) then
        (case (s_main (sess y ! k), s_reader (sess y ! k)) of
           (MBackoff ctx, _) \<Rightarrow> (if ctx \<in> bCancelled (brk y) then Some ([], set_main k MEnd y) else None)
         | (_, RBackoff ctx) \<Rightarrow> (if ctx \<in> bCancelled (brk y) then Some ([], end_reader k y) else None)
         | _ \<Rightarrow> None)
      else None)"
| "bexec (EvReturned k) y =
     (if k < length (sess y) then
        (case (s_main (sess y ! k), s_reader (sess y ! k)) of
           (MNested n, _) \<Rightarrow> (if s_main (sess y ! n) = MEnd then Some ([], set_main k MEnd y) else None)
         | (_, RNested n) \<Rightarrow> (if s_main (sess y ! n) = MEnd then Some ([], end_reader k y) else None)
         | _ \<Rightarrow> None)
      else None)"
| "bexec (EvWake k) y =
     (if k < length (sess y) \<and> s_main (sess y ! k) = MWait \<and> k \<in> bCancelled (brk y)
      then Some ([LDisconnect], set_main k MEnd (y\<lparr>brk := Start_end (brk y)\<rparr>)) else None)"
| "bexec EvDone y = Some ([], y\<lparr>brk := Broker_Done (brk y)\<rparr>)"

text \<open>Nothing moves after a panic: the process is gone.\<close>

definition bsys_init :: "Broker \<Rightarrow> bsys" where
  "bsys_init b = \<lparr>brk = b, sess = [], crashed = False\<rparr>"

definition unstarted :: "Broker \<Rightarrow> bool" where
  "unstarted b \<longleftrightarrow> (\<exists>i host port ins crt. b = SetCertPath crt (new_broker i host port ins))"

inductive breach :: "Broker \<Rightarrow> bsys \<Rightarrow> bool" for b0 where
  breach_init: "breach b0 (bsys_init b0)"
| breach_step: "breach b0 y \<Longrightarrow> \<not> crashed y \<Longrightarrow> bexec ev y = Some (ls, y') \<Longrightarrow> breach b0 y'"

fun brun :: "bevent list \<Rightarrow> bsys \<Rightarrow> bsys option" where
  "brun [] y = Some y"
| "brun (ev # evs) y =
     (if crashed y then None else case bexec ev y of None \<Rightarrow> None | Some (ls, y') \<Rightarrow> brun evs y')"

lemma brun_breach: "breach b0 y \<Longrightarrow> brun evs y = Some y' \<Longrightarrow> breach b0 y'"
  by (induction evs arbitrary: y) (auto split: if_splits option.splits intro: breach_step)

section \<open>Invariant\<close>

definition quiet_main :: "main_pc \<Rightarrow> bool" where
  "quiet_main m = (case m of MDial \<Rightarrow> False | MBackoff c \<Rightarrow> False | _ \<Rightarrow> True)"

definition quiet_reader :: "reader_pc \<Rightarrow> bool" where
  "quiet_reader r = (case r of RReading \<Rightarrow> False | RBackoff c \<Rightarrow> False | _ \<Rightarrow> True)"

definition backoff_steps :: "int64 set" where
  "backoff_steps = {0, 1, 2, 3, 5, 8, 13, 21, 24}"

text \<open>The struct: contexts are numbered by session, a stream is set exactly while connected.\<close>

definition brk_inv :: "nat \<Rightarrow> Broker \<Rightarrow> bool" where
  "brk_inv n b \<longleftrightarrow>
     bStarts b = n \<and> bCancel b = bContext b \<and> bContext b = (if n = 0 then None else Some (n - 1)) \<and>
     (\<forall>c. Suc c < n \<longrightarrow> c \<in> bCancelled b) \<and>
     (connected b \<longleftrightarrow> stream b \<noteq> None) \<and> duration b \<in> backoff_steps"

text \<open>
  One session, \<open>older\<close> if another was begun since: a reader exists only once its goroutine has
  stopped dialling; only the last session may dial, read or sleep; and none sleeps or dials once
  the broker is done.
\<close>

definition sess_ok :: "bool \<Rightarrow> bool \<Rightarrow> session \<Rightarrow> bool" where
  "sess_ok older fin s \<longleftrightarrow>
     (\<not> quiet_main (s_main s) \<longrightarrow> s_reader s = RNone) \<and>
     (older \<longrightarrow> quiet_main (s_main s) \<and> quiet_reader (s_reader s)) \<and>
     (fin \<longrightarrow> quiet_main (s_main s) \<and> (\<forall>c. s_reader s \<noteq> RBackoff c))"

definition bsys_inv :: "bsys \<Rightarrow> bool" where
  "bsys_inv y \<longleftrightarrow>
     brk_inv (length (sess y)) (brk y) \<and>
     (\<forall>k < length (sess y). sess_ok (Suc k < length (sess y)) (resetDone (brk y)) (sess y ! k)) \<and>
     (resetDone (brk y) \<longrightarrow> sess y \<noteq> [])"

lemma brk_inv_restart:
  assumes "brk_inv n b" and "restart over b = (b', r)"
  shows "brk_inv n b' \<and> resetDone b' = resetDone b \<and> r \<noteq> Diverges \<and>
    (\<forall>d c. r = WaitFor d c \<longrightarrow> \<not> resetDone b)"
proof -
  have "\<exists>d. fibo (duration b) = Some d \<and> d \<in> backoff_steps"
    using assms(1) unfolding brk_inv_def backoff_steps_def
    by (auto simp: fibo_values)
  then obtain d where "fibo (duration b) = Some d" "d \<in> backoff_steps" by blast
  then show ?thesis
    using assms by (auto simp: restart_def restart_tail_def brk_inv_def Let_def split: if_splits option.splits)
qed

lemma brk_inv_handleError:
  assumes "brk_inv n b" and "handleError c over b = (b', r)"
  shows "brk_inv n b' \<and> resetDone b' = resetDone b \<and> r \<noteq> Some Diverges \<and>
    (\<forall>d c. r = Some (WaitFor d c) \<longrightarrow> \<not> resetDone b)"
  using assms brk_inv_restart [OF assms(1), of over]
  by (auto simp: handleError_def split: code.splits prod.splits)

lemma brk_inv_simple [inv_intros]:
  "brk_inv n b \<Longrightarrow> brk_inv n (cancel_ctx c b)"
  "brk_inv n b \<Longrightarrow> brk_inv n (Broker_Done b)"
  "brk_inv n b \<Longrightarrow> brk_inv n (on_ready k b)"
  "brk_inv n b \<Longrightarrow> brk_inv n (Start_end b)"
  "brk_inv n b \<Longrightarrow> brk_inv n (b\<lparr>resetDone := True\<rparr>)"
  "brk_inv n b \<Longrightarrow> brk_inv (Suc n) (snd (Start_begin b))"
  by (auto simp: brk_inv_def broker_defs backoff_steps_def Let_def less_Suc_eq split: option.splits)

lemma resetDone_simps [simp]:
  "resetDone (cancel_ctx c b) = resetDone b" "resetDone (Broker_Done b) = resetDone b"
  "resetDone (on_ready k b) = resetDone b" "resetDone (Start_end b) = resetDone b"
  "resetDone (snd (Start_begin b)) = resetDone b"
  by (simp_all add: broker_defs Let_def split: option.split)

lemma bsys_inv_update:
  assumes "bsys_inv y" and "k < length (sess y)" and "brk_inv (length (sess y)) b"
    and "resetDone b = resetDone (brk y)"
    and "sess_ok (Suc k < length (sess y)) (resetDone (brk y)) s"
  shows "bsys_inv (y\<lparr>brk := b, sess := (sess y)[k := s], crashed := x\<rparr>)"
  using assms by (auto simp: bsys_inv_def nth_list_update)

lemma bsys_inv_brk:
  assumes "bsys_inv y" and "brk_inv (length (sess y)) b" and "resetDone b = resetDone (brk y)"
  shows "bsys_inv (y\<lparr>brk := b\<rparr>)"
  using assms by (simp add: bsys_inv_def)

lemma bsys_inv_begin:
  assumes "bsys_inv y" and "k < length (sess y)" and "\<not> resetDone (brk y)"
    and "\<not> quiet_main (s_main (sess y ! k)) \<or> \<not> quiet_reader (s_reader (sess y ! k))"
    and "quiet_main (s_main s) \<and> quiet_reader (s_reader s)"
  shows "bsys_inv (y\<lparr>brk := snd (Start_begin (brk y)),
    sess := (sess y @ [\<lparr>s_main = MDial, s_reader = RNone\<rparr>])[k := s]\<rparr>)"
proof -
  have last: "Suc k = length (sess y)"
    using assms(1,2,4) unfolding bsys_inv_def sess_ok_def by (meson Suc_lessI)
  have "sess_ok True False s" using assms(5) by (auto simp: sess_ok_def)
  moreover have "sess_ok (Suc j < length (sess y)) False (sess y ! j) \<Longrightarrow> j < k \<Longrightarrow>
      sess_ok True False (sess y ! j)" for j using last by simp
  ultimately show ?thesis
    using assms(1,3) last
    by (auto simp: bsys_inv_def nth_list_update nth_append less_Suc_eq sess_ok_def inv_intros)
qed

lemma bsys_inv_pos: "bsys_inv y \<Longrightarrow> k < length (sess y) \<Longrightarrow>
    brk_inv (length (sess y)) (brk y) \<and> sess_ok (Suc k < length (sess y)) (resetDone (brk y)) (sess y ! k)"
  by (simp add: bsys_inv_def)

lemmas pc_defs = sess_ok_def quiet_main_def quiet_reader_def

lemma inv_set_main [inv_intros]:
  assumes "bsys_inv y" and "k < length (sess y)" and "brk_inv (length (sess y)) b"
    and "resetDone b = resetDone (brk y)"
    and "sess_ok (Suc k < length (sess y)) (resetDone (brk y)) ((sess y ! k)\<lparr>s_main := m\<rparr>)"
  shows "bsys_inv (set_main k m (y\<lparr>brk := b\<rparr>))"
  using bsys_inv_update [OF assms, of "crashed y"] by (simp add: set_main_def)

lemma inv_set_reader [inv_intros]:
  assumes "bsys_inv y" and "k < length (sess y)" and "brk_inv (length (sess y)) b"
    and "resetDone b = resetDone (brk y)"
    and "sess_ok (Suc k < length (sess y)) (resetDone (brk y)) ((sess y ! k)\<lparr>s_reader := r\<rparr>)"
  shows "bsys_inv (set_reader k r (y\<lparr>brk := b\<rparr>))"
  using bsys_inv_update [OF assms, of "crashed y"] by (simp add: set_reader_def)

lemma inv_end_reader [inv_intros]:
  assumes "bsys_inv y" and "k < length (sess y)" and "brk_inv (length (sess y)) b"
    and "resetDone b = resetDone (brk y)" and "quiet_main (s_main (sess y ! k))"
  shows "bsys_inv (end_reader k (y\<lparr>brk := b\<rparr>))"
proof -
  have "bsys_inv (set_reader k REnd (y\<lparr>brk := cancel_ctx (Some k) b\<rparr>))"
    using bsys_inv_pos [OF assms(1,2)] assms
    by (intro inv_set_reader brk_inv_simple) (auto simp: pc_defs)
  then show ?thesis by (simp add: end_reader_def)
qed

lemma same_brk: "y\<lparr>brk := brk y\<rparr> = y"
  by simp

lemma bexec_inv_dial:
  assumes inv: "bsys_inv y" and k: "k < length (sess y)" "s_main (sess y ! k) = MDial"
  shows "bsys_inv (set_main k MEnd y)"
    and "bsys_inv (set_reader k RReading (set_main k MWait y))"
    and "bexec (EvChannelFailed k over) y = Some (ls, y') \<Longrightarrow> bsys_inv y'"
proof -
  note p = bsys_inv_pos [OF inv k(1)]
  show "bsys_inv (set_main k MEnd y)"
    using inv_set_main [OF inv k(1), of "brk y" MEnd] p k(2) by (auto simp: pc_defs)
  have e: "set_reader k RReading (set_main k MWait y) =
      y\<lparr>brk := brk y, sess := (sess y)[k := (sess y ! k)\<lparr>s_main := MWait, s_reader := RReading\<rparr>],
        crashed := crashed y\<rparr>"
    using k(1) by (simp add: set_main_def set_reader_def)
  show "bsys_inv (set_reader k RReading (set_main k MWait y))"
    unfolding e using p k by (intro bsys_inv_update inv) (auto simp: pc_defs)
  have d: "s_reader (sess y ! k) = RNone" "\<not> Suc k < length (sess y)" "\<not> resetDone (brk y)"
    using p k(2) by (auto simp: pc_defs)
  have q: "sess_ok (Suc k < length (sess y)) (resetDone (brk y)) ((sess y ! k)\<lparr>s_main := m\<rparr>)" for m
    using d by (simp add: pc_defs)
  assume "bexec (EvChannelFailed k over) y = Some (ls, y')"
  moreover obtain b r where r: "restart over (brk y) = (b, r)" by force
  ultimately show "bsys_inv y'"
    using brk_inv_restart [OF conjunct1 [OF p] r]
    by (auto simp: k split: restart_result.splits intro!: inv_set_main inv q)
qed

lemma bexec_inv_read:
  assumes inv: "bsys_inv y" and k: "k < length (sess y)" "s_reader (sess y ! k) = RReading"
  shows "bsys_inv (y\<lparr>brk := on_ready k (brk y)\<rparr>)"
    and "bexec (EvReset k uuid now) y = Some (ls, y') \<Longrightarrow> bsys_inv y'"
    and "bexec (EvRecvError k c over) y = Some (ls, y') \<Longrightarrow> bsys_inv y'"
proof -
  note p = bsys_inv_pos [OF inv k(1)]
  have last: "Suc k = length (sess y)" and q: "quiet_main (s_main (sess y ! k))"
    using p k by (auto simp: sess_ok_def quiet_reader_def intro: Suc_lessI)
  show "bsys_inv (y\<lparr>brk := on_ready k (brk y)\<rparr>)"
    using inv p by (intro bsys_inv_brk brk_inv_simple) auto
  have reset: "bsys_inv (y\<lparr>brk := (brk y)\<lparr>resetDone := True\<rparr>, crashed := x\<rparr>)" for x
  proof -
    have "sess_ok (Suc j < length (sess y)) True (sess y ! j)" if "j < length (sess y)" for j
    proof (cases "j = k")
      case True
      then show ?thesis using p k last by (auto simp: pc_defs)
    next
      case False
      then have "Suc j < length (sess y)" using that last by simp
      then show ?thesis using bsys_inv_pos [OF inv that] by (auto simp: pc_defs split: reader_pc.splits)
    qed
    then show ?thesis using p k(1) by (auto simp: bsys_inv_def inv_intros)
  qed
  show "bexec (EvReset k uuid now) y = Some (ls, y') \<Longrightarrow> bsys_inv y'"
    using reset [of "crashed y"] reset [of True] k
    by (auto simp: initResetProcess_def Let_def split: option.splits)
  assume "bexec (EvRecvError k c over) y = Some (ls, y')"
  moreover obtain b r where r: "handleError c over (brk y) = (b, r)" by force
  ultimately show "bsys_inv y'"
    using brk_inv_handleError [OF conjunct1 [OF p] r] q last
    by (auto simp: k sess_ok_def split: option.splits restart_result.splits
        intro!: inv_set_reader inv_end_reader inv)
qed

lemma bexec_inv_sleep:
  assumes inv: "bsys_inv y" and k: "k < length (sess y)"
  shows "bexec (EvTimer k) y = Some (ls, y') \<Longrightarrow> bsys_inv y'"
    and "bexec (EvSleepCancelled k) y = Some (ls, y') \<Longrightarrow> bsys_inv y'"
    and "bexec (EvReturned k) y = Some (ls, y') \<Longrightarrow> bsys_inv y'"
proof -
  note p = bsys_inv_pos [OF inv k]
  have main: "bsys_inv (set_main k MEnd y)"
    if "s_main (sess y ! k) = MBackoff c \<or> s_main (sess y ! k) = MNested c" for c
    using inv_set_main [OF inv k, of "brk y" MEnd] p by (auto simp: pc_defs)
  have reader: "bsys_inv (end_reader k y)" if "quiet_main (s_main (sess y ! k))"
    using inv_end_reader [OF inv k, of "brk y"] p that by simp
  have q: "quiet_main (s_main (sess y ! k))" if "s_reader (sess y ! k) = RBackoff c \<or> s_reader (sess y ! k) = RNested c" for c
    using p that by (auto simp: sess_ok_def)
  show "bexec (EvSleepCancelled k) y = Some (ls, y') \<Longrightarrow> bsys_inv y'"
    using main reader q by (auto split: main_pc.splits reader_pc.splits if_splits)
  show "bexec (EvReturned k) y = Some (ls, y') \<Longrightarrow> bsys_inv y'"
    using main reader q by (auto split: main_pc.splits reader_pc.splits if_splits)
  have nm: "bsys_inv (set_main k (MNested n) (begin_session y))"
    if "s_main (sess y ! k) = MBackoff c" for c n
    using bsys_inv_begin [OF inv k, of "(sess y ! k)\<lparr>s_main := MNested n\<rparr>"] p that k
    by (auto simp: pc_defs set_main_def begin_session_def nth_append)
  have nr: "bsys_inv (set_reader k (RNested n) (begin_session y))"
    if "s_reader (sess y ! k) = RBackoff c" for c n
    using bsys_inv_begin [OF inv k, of "(sess y ! k)\<lparr>s_reader := RNested n\<rparr>"] p that k q
    by (auto simp: sess_ok_def quiet_reader_def set_reader_def begin_session_def nth_append)
  show "bexec (EvTimer k) y = Some (ls, y') \<Longrightarrow> bsys_inv y'"
    using nm nr by (auto split: main_pc.splits reader_pc.splits if_splits)
qed

lemma bexec_inv_rest:
  assumes inv: "bsys_inv y"
  shows "sess y = [] \<Longrightarrow> bsys_inv (begin_session y)"
    and "bsys_inv (y\<lparr>brk := Broker_Done (brk y)\<rparr>)"
    and "k < length (sess y) \<Longrightarrow> s_main (sess y ! k) = MWait \<Longrightarrow>
      bsys_inv (set_main k MEnd (y\<lparr>brk := Start_end (brk y)\<rparr>))"
proof -
  have b: "brk_inv (length (sess y)) (brk y)" using inv by (simp add: bsys_inv_def)
  show "sess y = [] \<Longrightarrow> bsys_inv (begin_session y)"
    using inv brk_inv_simple(6) [OF b] by (auto simp: bsys_inv_def begin_session_def pc_defs)
  show "bsys_inv (y\<lparr>brk := Broker_Done (brk y)\<rparr>)"
    by (rule bsys_inv_brk [OF inv brk_inv_simple(2) [OF b]]) simp
  show "bsys_inv (set_main k MEnd (y\<lparr>brk := Start_end (brk y)\<rparr>))"
    if "k < length (sess y)" "s_main (sess y ! k) = MWait"
    using bsys_inv_pos [OF inv that(1)] that
    by (intro inv_set_main inv brk_inv_simple) (auto simp: pc_defs)
qed

lemma bexec_inv:
  assumes inv: "bsys_inv y" and ex: "bexec ev y = Some (ls, y')"
  shows "bsys_inv y'"
proof (cases ev)
  case EvStart
  with ex bexec_inv_rest(1) [OF inv] show ?thesis by (auto split: if_splits)
next
  case (EvDialFailed k)
  with ex bexec_inv_dial(1) [OF inv] show ?thesis by (auto split: if_splits)
next
  case (EvDialPanic k)
  with ex inv show ?thesis by (auto simp: bsys_inv_def split: if_splits)
next
  case (EvChannelFailed k over)
  then have "k < length (sess y)" "s_main (sess y ! k) = MDial" using ex by (auto split: if_splits)
  from bexec_inv_dial(3) [OF inv this] ex EvChannelFailed show ?thesis by simp
next
  case (EvChannelOpen k)
  with ex bexec_inv_dial(2) [OF inv] show ?thesis by (auto split: if_splits)
next
  case (EvReady k)
  with ex bexec_inv_read(1) [OF inv] show ?thesis by (auto split: if_splits)
next
  case (EvReset k u t)
  then have "k < length (sess y)" "s_reader (sess y ! k) = RReading" using ex by (auto split: if_splits)
  from bexec_inv_read(2) [OF inv this] ex EvReset show ?thesis by simp
next
  case (EvMessage k m)
  with ex inv show ?thesis by (auto split: if_splits)
next
  case (EvRecvError k c over)
  then have "k < length (sess y)" "s_reader (sess y ! k) = RReading" using ex by (auto split: if_splits)
  from bexec_inv_read(3) [OF inv this] ex EvRecvError show ?thesis by simp
next
  case (EvTimer k)
  then have "k < length (sess y)" using ex by (auto split: if_splits)
  from bexec_inv_sleep(1) [OF inv this] ex EvTimer show ?thesis by simp
next
  case (EvSleepCancelled k)
  then have "k < length (sess y)" using ex by (auto split: if_splits)
  from bexec_inv_sleep(2) [OF inv this] ex EvSleepCancelled show ?thesis by simp
next
  case (EvReturned k)
  then have "k < length (sess y)" using ex by (auto split: if_splits)
  from bexec_inv_sleep(3) [OF inv this] ex EvReturned show ?thesis by simp
next
  case (EvWake k)
  with ex bexec_inv_rest(3) [OF inv] show ?thesis by (auto split: if_splits)
next
  case EvDone
  with ex bexec_inv_rest(2) [OF inv] show ?thesis by auto
qed

lemma breach_inv: "breach b0 y \<Longrightarrow> unstarted b0 \<Longrightarrow> bsys_inv y"
proof (induction rule: breach.induct)
  case breach_init
  then show ?case
    by (auto simp: unstarted_def bsys_inv_def bsys_init_def brk_inv_def new_broker_def SetCertPath_def
        backoff_steps_def)
next
  case (breach_step y ev ls y')
  then show ?case by (blast intro: bexec_inv)
qed

text \<open>Once the broker is done no event begins a session.\<close>

lemma bexec_done:
  assumes "bsys_inv y" and "resetDone (brk y)" and "bexec ev y = Some (ls, y')"
  shows "resetDone (brk y') \<and> length (sess y') = length (sess y)"
proof -
  have r: "resetDone b' = resetDone (brk y)" if "restart over (brk y) = (b', r)" for over b' r
    using brk_inv_restart [OF _ that] assms(1) by (auto simp: bsys_inv_def)
  have h: "resetDone b' = resetDone (brk y)" if "handleError c over (brk y) = (b', r)" for c over b' r
    using brk_inv_handleError [OF _ that] assms(1) by (auto simp: bsys_inv_def)
  have "\<not> k < length (sess y) \<or> (\<forall>c. s_main (sess y ! k) \<noteq> MBackoff c \<and> s_reader (sess y ! k) \<noteq> RBackoff c)" for k
    using bsys_inv_pos [OF assms(1), of k] assms(2) by (auto simp: pc_defs)
  moreover have "sess y \<noteq> []" using assms(1,2) by (simp add: bsys_inv_def)
  ultimately show ?thesis
    using assms(2,3) r h
    by (cases ev)
      (auto simp: set_main_def set_reader_def end_reader_def initResetProcess_def Let_def
        split: if_splits prod.splits restart_result.splits option.splits main_pc.splits reader_pc.splits outcome.splits)
qed

inductive bsteps :: "bsys \<Rightarrow> bsys \<Rightarrow> bool" where
  bsteps_refl: "bsteps y y"
| bsteps_step: "bsteps y z \<Longrightarrow> \<not> crashed z \<Longrightarrow> bexec ev z = Some (ls, z') \<Longrightarrow> bsteps y z'"

lemma bsteps_done:
  "bsteps y z \<Longrightarrow> bsys_inv y \<Longrightarrow> resetDone (brk y) \<Longrightarrow>
   bsys_inv z \<and> resetDone (brk z) \<and> length (sess z) = length (sess y)"
proof (induction rule: bsteps.induct)
  case (bsteps_step y z ev ls z')
  then show ?case using bexec_inv [of z ev ls z'] bexec_done [of z ev ls z'] by auto
qed simp

lemma reachable_Send_returns:
  assumes "breach b0 y" and "unstarted b0"
  shows "\<exists>r. Broker_Send cd stream_send p h (brk y) = Returns r"
  using breach_inv [OF assms]
  by (auto simp: Broker_Send_def bsys_inv_def brk_inv_def split: sum.split option.split)

section \<open>Asleep before a retry\<close>

lemma cancelled_mono:
  assumes "bexec ev y = Some (ls, y')"
  shows "bCancelled (brk y) \<subseteq> bCancelled (brk y')"
proof -
  have r: "bCancelled b' = bCancelled b" if "restart over b = (b', r)" for over b b' r
    using that by (auto simp: restart_def restart_tail_def Let_def split: if_splits option.splits)
  have h: "bCancelled b' = bCancelled b" if "handleError c over b = (b', r)" for c over b b' r
    using that r by (auto simp: handleError_def split: code.splits prod.splits)
  show ?thesis
    using assms r h
    by (cases ev)
      (auto simp: set_main_def set_reader_def end_reader_def begin_session_def broker_defs Let_def
        split: if_splits prod.splits restart_result.splits option.splits main_pc.splits reader_pc.splits outcome.splits)
qed

text \<open>The newest session sleeps before a retry, the broker is connected on its stream, nobody is to end.\<close>

definition asleep :: "nat \<Rightarrow> nat \<Rightarrow> bsys \<Rightarrow> bool" where
  "asleep k ctx y \<longleftrightarrow> Suc k = length (sess y) \<and> s_reader (sess y ! k) = RBackoff ctx \<and> ctx = k \<and>
     connected (brk y) \<and> stream (brk y) = Some k \<and> (\<forall>j < k. s_main (sess y ! j) \<noteq> MWait)"

lemma falls_asleep:
  assumes inv: "bsys_inv y" and k: "k < length (sess y)"
    and c: "connected (brk y)" "stream (brk y) = Some k" "\<forall>j < k. s_main (sess y ! j) \<noteq> MWait"
    and ex: "bexec (EvRecvError k e over) y = Some (ls, y')" and b: "s_reader (sess y' ! k) = RBackoff ctx"
  shows "asleep k ctx y' \<and> LDisconnect \<notin> set ls"
proof -
  note p = bsys_inv_pos [OF inv k]
  from ex have r: "s_reader (sess y ! k) = RReading" by (auto split: if_splits)
  with p k have last: "Suc k = length (sess y)" by (auto simp: sess_ok_def quiet_reader_def intro: Suc_lessI)
  have "bContext (brk y) = Some k" using conjunct1 [OF p] last by (auto simp: brk_inv_def)
  then have re: "connected b' \<and> stream b' = Some k \<and> (\<forall>d x. q = WaitFor d x \<longrightarrow> x = k)"
    if "restart over (brk y) = (b', q)" for b' q
    using that c by (auto simp: restart_def restart_tail_def Let_def split: if_splits option.splits)
  obtain b' q where h: "handleError e over (brk y) = (b', q)" by force
  with re c have f: "connected b'" "stream b' = Some k" "q = Some (WaitFor d x) \<Longrightarrow> x = k" for d x
    by (auto simp: handleError_def split: code.splits prod.splits)
  have "\<exists>d. q = Some (WaitFor d ctx)"
  proof (rule ccontr)
    assume "\<not> ?thesis"
    with ex h k r have "s_reader (sess y' ! k) = REnd \<or> (\<exists>d x. x \<noteq> ctx \<and> s_reader (sess y' ! k) = RBackoff x)"
      by (cases q; cases "the q") (auto simp: set_reader_def end_reader_def)
    with b show False by auto
  qed
  then obtain d where q: "q = Some (WaitFor d ctx)" by blast
  then have "y' = set_reader k (RBackoff ctx) (y\<lparr>brk := b'\<rparr>)" "ls = overstay_label over (brk y)"
    using ex h k r by simp_all
  then show ?thesis using f q last c(3) k by (auto simp: asleep_def set_reader_def overstay_label_def)
qed

lemma asleep_step:
  assumes inv: "bsys_inv y" and a: "asleep k ctx y" and ex: "bexec ev y = Some (ls, y')"
    and t: "ev \<noteq> EvTimer k" and c: "ctx \<notin> bCancelled (brk y')"
  shows "asleep k ctx y' \<and> (\<forall>j. ev \<noteq> EvWake j)"
proof -
  have c': "k \<notin> bCancelled (brk y)" using cancelled_mono [OF ex] c a by (auto simp: asleep_def)
  have last: "Suc k = length (sess y)" and r: "s_reader (sess y ! k) = RBackoff k" using a by (auto simp: asleep_def)
  have old: "quiet_main (s_main (sess y ! j)) \<and> quiet_reader (s_reader (sess y ! j))" if "j < k" for j
    using bsys_inv_pos [OF inv, of j] that last by (auto simp: sess_ok_def)
  have new: "quiet_main (s_main (sess y ! k))"
    using bsys_inv_pos [OF inv, of k] last r by (auto simp: sess_ok_def)
  have b: "bCancel (brk y) = Some k" using inv last by (auto simp: bsys_inv_def brk_inv_def)
  have pos: "j < k \<or> j = k" if "j < length (sess y)" for j using that last by auto
  have nr: "s_reader (sess y ! j) \<noteq> RReading" "s_main (sess y ! j) \<noteq> MDial" if "j < length (sess y)" for j
    using pos [OF that] old [of j] new r by (auto simp: quiet_main_def quiet_reader_def)
  have nw: "\<not> (s_main (sess y ! j) = MWait \<and> j \<in> bCancelled (brk y))" if "j < length (sess y)" for j
    using pos [OF that] a c' by (auto simp: asleep_def)
  have nt: "s_main (sess y ! j) \<noteq> MBackoff x" "s_reader (sess y ! j) = RBackoff x \<Longrightarrow> j = k \<and> x = k"
    if "j < length (sess y)" for j x
    using pos [OF that] old [of j] new r by (auto simp: quiet_main_def quiet_reader_def)
  have k: "k < length (sess y)" using last by simp
  show ?thesis
  proof (cases ev)
    case EvStart
    with ex k show ?thesis by (auto split: if_splits)
  next
    case (EvTimer j)
    with t have "j \<noteq> k" by simp
    with ex EvTimer nt [of j] show ?thesis by (auto split: if_splits main_pc.splits reader_pc.splits)
  next
    case (EvSleepCancelled j)
    with ex nt [of j] c' show ?thesis by (auto split: if_splits main_pc.splits reader_pc.splits)
  next
    case (EvReturned j)
    with ex have j: "j < length (sess y)" by (simp split: if_splits)
    from ex EvReturned j have "y' = set_main j MEnd y \<or> j \<noteq> k \<and> y' = end_reader j y"
      using r by (auto split: if_splits main_pc.splits reader_pc.splits)
    then show ?thesis using a EvReturned j
      by (auto simp: asleep_def set_main_def set_reader_def end_reader_def cancel_ctx_def nth_list_update
          split: if_splits)
  next
    case (EvWake j)
    with ex nw [of j] show ?thesis by (auto split: if_splits)
  next
    case EvDone
    with ex b c a have False by (auto simp: broker_defs asleep_def)
    then show ?thesis ..
  next
    case (EvDialFailed j)
    with ex nr(2) [of j] show ?thesis by (auto split: if_splits)
  next
    case (EvDialPanic j)
    with ex nr(2) [of j] show ?thesis by (auto split: if_splits)
  next
    case (EvChannelFailed j over)
    with ex nr(2) [of j] show ?thesis by (simp split: if_splits)
  next
    case (EvChannelOpen j)
    with ex nr(2) [of j] show ?thesis by (auto split: if_splits)
  next
    case (EvReady j)
    with ex nr(1) [of j] show ?thesis by (auto split: if_splits)
  next
    case (EvReset j u now)
    with ex nr(1) [of j] show ?thesis by (simp split: if_splits)
  next
    case (EvMessage j m)
    with ex nr(1) [of j] show ?thesis by (auto split: if_splits)
  next
    case (EvRecvError j e over)
    with ex nr(1) [of j] show ?thesis by (simp split: if_splits)
  qed
qed

lemma cancelled_run: "brun evs y = Some z \<Longrightarrow> bCancelled (brk y) \<subseteq> bCancelled (brk z)"
proof (induction evs arbitrary: y)
  case (Cons ev evs)
  then show ?case using cancelled_mono by (force split: if_splits option.splits)
qed simp

lemma stays_asleep:
  "brun evs y = Some z \<Longrightarrow> bsys_inv y \<Longrightarrow> asleep k ctx y \<Longrightarrow> EvTimer k \<notin> set evs \<Longrightarrow> ctx \<notin> bCancelled (brk z) \<Longrightarrow>
   asleep k ctx z \<and> (\<forall>ev \<in> set evs. \<forall>j. ev \<noteq> EvWake j)"
proof (induction evs arbitrary: y)
  case (Cons ev evs)
  then obtain ls x where x: "bexec ev y = Some (ls, x)" "brun evs x = Some z"
    by (auto split: if_splits option.splits)
  have "ctx \<notin> bCancelled (brk x)" using cancelled_run [OF x(2)] Cons.prems(5) by blast
  with asleep_step [OF Cons.prems(2,3) x(1)] Cons.prems(4)
  have "asleep k ctx x \<and> (\<forall>j. ev \<noteq> EvWake j)" by auto
  with Cons.IH [OF x(2) bexec_inv [OF Cons.prems(2) x(1)]] Cons.prems(4,5) show ?case by simp
qed simp

section \<open>Properties\<close>

text \<open>A broker as the server announced it, and its first connection becoming ready.\<close>

definition demo_b0 :: Broker where
  "demo_b0 = SetCertPath [] (new_broker ''b1'' ''host'' 443 False)"

lemma demo_b0: "unstarted demo_b0"
  unfolding unstarted_def demo_b0_def by blast

lemmas run_simps = bsys_init_def begin_session_def set_main_def set_reader_def end_reader_def
  demo_b0_def new_broker_def broker_defs handleError_def restart_def restart_tail_def Let_def
  durationMax_def fibo_values overstay_label_def asks_overstay_def

definition ready_run :: "bevent list" where
  "ready_run = [EvStart, EvChannelOpen 0, EvReady 0]"

text \<open>
  In every reachable state of a broker, whatever the network, the timers and callers of
  \<open>Done\<close> did, \<open>Send\<close> does not dereference a nil stream: a connected broker has a stream.
\<close>

lemma Send_never_panics:
  assumes "breach b0 y" and "unstarted b0"
  shows "Broker_Send cd stream_send p h (brk y) \<noteq> Panics e"
  using reachable_Send_returns [OF assms, of cd stream_send p h] by auto

lemma Send_never_panics_witness:
  "\<exists>y. breach demo_b0 y \<and> connected (brk y) \<and>
     (\<forall>e. Broker_Send \<lparr>marshal = Inr, unmarshal = Inr, pb_timestamp = (\<lambda>t. (0, 0))\<rparr> (\<lambda>s m. None)
        \<lparr>pID = ''i'', pPID = [], pName = ''e'', pProject = [], pPayload = [], pContext = Background,
          pTimestamp = demo_now, pSubscribed = False\<rparr> \<lparr>cell = (\<lambda>_. empty_MD), fresh = 0\<rparr> (brk y) \<noteq> Panics e)"
proof -
  obtain y where y: "brun ready_run (bsys_init demo_b0) = Some y" "connected (brk y)"
    by (simp add: ready_run_def run_simps)
  have r: "breach demo_b0 y" by (rule brun_breach [OF breach_init y(1)])
  show ?thesis using Send_never_panics [OF r demo_b0] r y(2) by blast
qed

text \<open>
  C16. One connection at a time: in every reachable state at most one session dials, reads or
  sleeps before a retry, it is the newest one, the contexts of all older sessions are cancelled,
  and the stored delay is one of the Fibonacci steps up to 24 seconds.
\<close>

theorem one_active_session:
  assumes "breach b0 y" and "unstarted b0"
  shows "(\<forall>k < length (sess y).
      \<not> (quiet_main (s_main (sess y ! k)) \<and> quiet_reader (s_reader (sess y ! k))) \<longrightarrow> Suc k = length (sess y)) \<and>
    (\<forall>k. Suc k < length (sess y) \<longrightarrow> k \<in> bCancelled (brk y)) \<and>
    bContext (brk y) = (if sess y = [] then None else Some (length (sess y) - 1)) \<and>
    duration (brk y) \<in> {0, 1, 2, 3, 5, 8, 13, 21, 24}"
  using breach_inv [OF assms] unfolding bsys_inv_def sess_ok_def brk_inv_def backoff_steps_def
  by (auto intro: Suc_lessI)

theorem one_active_session_witness:
  "\<exists>y. breach demo_b0 y \<and> length (sess y) = 2 \<and> s_reader (sess y ! 0) = RNested 1 \<and>
     0 \<in> bCancelled (brk y)"
proof -
  obtain y where y: "brun (ready_run @ [EvRecvError 0 Unavailable False, EvTimer 0]) (bsys_init demo_b0) = Some y"
    "length (sess y) = 2" "s_reader (sess y ! 0) = RNested 1"
    by (simp add: ready_run_def run_simps)
  have r: "breach demo_b0 y" by (rule brun_breach [OF breach_init y(1)])
  show ?thesis using one_active_session [OF r demo_b0] r y(2,3) by auto
qed

text \<open>
  C17. After the server's \<open>_.reset\<close> the broker does not reconnect by itself: from the moment it
  is marked done, no sequence of events begins another \<open>Start\<close> call.
\<close>

theorem no_reconnect_after_reset:
  assumes "breach b0 y" and "unstarted b0" and "resetDone (brk y)" and "bsteps y z"
  shows "length (sess z) = length (sess y) \<and> resetDone (brk z)"
  using bsteps_done [OF assms(4) breach_inv [OF assms(1,2)] assms(3)] by simp

theorem no_reconnect_after_reset_witness:
  "\<exists>y z. breach demo_b0 y \<and> resetDone (brk y) \<and> bsteps y z \<and> s_reader (sess z ! 0) = REnd \<and>
     length (sess z) = length (sess y)"
proof -
  obtain y where y: "brun (ready_run @ [EvReset 0 ''u'' (0, 0)]) (bsys_init demo_b0) = Some y"
    and d: "resetDone (brk y)" "\<not> crashed y"
    and z: "\<exists>ls z. bexec (EvRecvError 0 Unavailable False) y = Some (ls, z) \<and> s_reader (sess z ! 0) = REnd"
    by (simp add: ready_run_def run_simps)
  then obtain ls z where z: "bexec (EvRecvError 0 Unavailable False) y = Some (ls, z)"
    "s_reader (sess z ! 0) = REnd" by blast
  have r: "breach demo_b0 y" by (rule brun_breach [OF breach_init y])
  have s: "bsteps y z" by (rule bsteps_step [OF bsteps_refl d(2) z(1)])
  show ?thesis using no_reconnect_after_reset [OF r demo_b0 d(1) s] r d(1) s z(2) by blast
qed

text \<open>
  C38. A broken connection stays in service: take any reachable state of a broker that is connected on
  the stream of a session that reads, with no older session still to end. If the stream fails and the
  broker goes to sleep before a retry, then as long as it sleeps, that is whatever happens before the
  timer fires and before its context is cancelled, the broker counts as connected, no disconnection
  has been announced, and \<open>Send\<close> still hands every event to the dead stream.
\<close>

theorem dead_stream_stays_connected:
  assumes "breach b0 y" and "unstarted b0" and "k < length (sess y)"
    and "connected (brk y)" and "stream (brk y) = Some k" and "\<forall>j < k. s_main (sess y ! j) \<noteq> MWait"
    and "bexec (EvRecvError k c over) y = Some (ls, y')" and "s_reader (sess y' ! k) = RBackoff ctx"
    and "brun evs y' = Some z" and "EvTimer k \<notin> set evs" and "ctx \<notin> bCancelled (brk z)"
  shows "s_reader (sess z ! k) = RBackoff ctx \<and> connected (brk z) \<and> stream (brk z) = Some k \<and>
    LDisconnect \<notin> set ls \<and> (\<forall>ev \<in> set evs. \<forall>j. ev \<noteq> EvWake j) \<and>
    Broker_Send cd stream_send p h (brk z) =
      Returns (case GetEvent cd p h of Inl e \<Rightarrow> Some e | Inr msg \<Rightarrow> stream_send k msg)"
proof -
  have inv: "bsys_inv y" by (rule breach_inv [OF assms(1,2)])
  have inv': "bsys_inv y'" by (rule bexec_inv [OF inv assms(7)])
  have "asleep k ctx y' \<and> LDisconnect \<notin> set ls" by (rule falls_asleep [OF inv assms(3-8)])
  with stays_asleep [OF assms(9) inv' _ assms(10,11)]
  have z: "asleep k ctx z" "LDisconnect \<notin> set ls" "\<forall>ev \<in> set evs. \<forall>j. ev \<noteq> EvWake j" by blast+
  then show ?thesis by (auto simp: asleep_def Broker_Send_def split: sum.split)
qed

theorem dead_stream_stays_connected_witness:
  "\<exists>y y' z. breach demo_b0 y \<and> bexec (EvRecvError 0 Unavailable False) y = Some ([], y') \<and>
     brun [] y' = Some z \<and> connected (brk z) \<and> stream (brk z) = Some 0"
proof -
  obtain y where y: "brun ready_run (bsys_init demo_b0) = Some y" "length (sess y) = 1" "connected (brk y)"
    "stream (brk y) = Some 0"
    and e: "\<exists>y'. bexec (EvRecvError 0 Unavailable False) y = Some ([], y') \<and> s_reader (sess y' ! 0) = RBackoff 0 \<and>
      0 \<notin> bCancelled (brk y')"
    by (simp add: ready_run_def run_simps)
  then obtain y' where y': "bexec (EvRecvError 0 Unavailable False) y = Some ([], y')"
    "s_reader (sess y' ! 0) = RBackoff 0" "0 \<notin> bCancelled (brk y')" by blast
  have r: "breach demo_b0 y" by (rule brun_breach [OF breach_init y(1)])
  have b: "brun [] y' = Some y'" by simp
  from dead_stream_stays_connected [OF r demo_b0 _ y(3,4) _ y'(1,2) b _ y'(3),
      where cd = "\<lparr>marshal = Inr, unmarshal = Inr, pb_timestamp = (\<lambda>t. (0, 0))\<rparr>"] y(2)
  have "connected (brk y') \<and> stream (brk y') = Some 0" by simp
  with r y'(1) b show ?thesis by blast
qed

text \<open>
  The end of an old session can switch off its successor: there is a run in which the new
  session is ready on an uncancelled context when the old one, still at its \<open>ctx.Done()\<close>, clears
  \<open>connected\<close> and the stream and announces a disconnection.
\<close>

lemma stale_session_disconnects:
  "\<exists>y. breach demo_b0 y \<and> length (sess y) = 2 \<and> s_reader (sess y ! 1) = RReading \<and>
     s_main (sess y ! 1) = MWait \<and> 1 \<notin> bCancelled (brk y) \<and>
     (\<exists>z. breach demo_b0 z \<and> connected (brk z) \<and> stream (brk z) = Some 1 \<and>
        bexec (EvWake 0) z = Some ([LDisconnect], y)) \<and>
     \<not> connected (brk y) \<and> stream (brk y) = None"
proof -
  let ?evs = "ready_run @ [EvRecvError 0 Unavailable False, EvTimer 0, EvChannelOpen 1, EvReady 1]"
  obtain z where z: "brun ?evs (bsys_init demo_b0) = Some z" "\<not> crashed z"
    "connected (brk z) \<and> stream (brk z) = Some 1"
    and w: "\<exists>y. bexec (EvWake 0) z = Some ([LDisconnect], y) \<and> length (sess y) = 2 \<and>
      s_reader (sess y ! 1) = RReading \<and> s_main (sess y ! 1) = MWait \<and> 1 \<notin> bCancelled (brk y) \<and>
      \<not> connected (brk y) \<and> stream (brk y) = None"
    by (simp add: ready_run_def run_simps)
  have r: "breach demo_b0 z" by (rule brun_breach [OF breach_init z(1)])
  from w obtain y where y: "bexec (EvWake 0) z = Some ([LDisconnect], y)"
    "length (sess y) = 2" "s_reader (sess y ! 1) = RReading" "s_main (sess y ! 1) = MWait"
    "1 \<notin> bCancelled (brk y)" "\<not> connected (brk y)" "stream (brk y) = None" by blast
  have "breach demo_b0 y" by (rule breach_step [OF r z(2) y(1)])
  with r y z(3) show ?thesis by blast
qed

text \<open>
  A \<open>_.reset\<close> that arrives before \<open>_.ready\<close> panics: the acknowledgement is sent on a stream
  that is still nil, in the read goroutine, so the process ends.
\<close>

lemma reset_before_ready_panics:
  "\<exists>y z. breach demo_b0 y \<and> s_reader (sess y ! 0) = RReading \<and>
     bexec (EvReset 0 uuid now) y = Some ([LPanic], z) \<and> crashed z \<and>
     snd (initResetProcess uuid now (brk y)) = Panics NilDereference"
proof -
  obtain y where y: "brun [EvStart, EvChannelOpen 0] (bsys_init demo_b0) = Some y"
    "s_reader (sess y ! 0) = RReading"
    "\<exists>z. bexec (EvReset 0 uuid now) y = Some ([LPanic], z) \<and> crashed z"
    "snd (initResetProcess uuid now (brk y)) = Panics NilDereference"
    by (simp add: run_simps)
  have "breach demo_b0 y" by (rule brun_breach [OF breach_init y(1)])
  with y(2-4) show ?thesis by blast
qed

end
