(* ===== verification/Client_Send.thy ===== *)
theory Client_Send
  imports Client
begin

text \<open>
  Publishing (src/client/client.go: \<open>Pub\<close>, \<open>send\<close>). \<open>send\<close> calls itself until a broker takes the
  event, so it is a partial function, \<open>None\<close> when it never returns; \<open>ss i b\<close> is what stream
  sends through broker \<open>b\<close> do at the \<open>i\<close>-th attempt.
\<close>

section \<open>The code\<close>

type_synonym stream_env = "nat \<Rightarrow> nat \<Rightarrow> nat \<Rightarrow> Message \<Rightarrow> err option"

partial_function (option) send_from ::
  "'c codec \<Rightarrow> stream_env \<Rightarrow> 'c Pub \<Rightarrow> md_store \<Rightarrow> nat \<Rightarrow> Client \<Rightarrow> (err option outcome \<times> Client) option" where
  "send_from cd ss p h i c =
     (case nextBroker c of
        (Inl e, c) \<Rightarrow> Some (Returns (Some e), c)
      | (Inr bk, c) \<Rightarrow>
          (case Broker_Send cd (ss i bk) p h (clMem c bk) of
             Panics e \<Rightarrow> Some (Panics e, c)
           | Returns err \<Rightarrow> (if err \<noteq> None then send_from cd ss p h (Suc i) c else Some (Returns None, c))))"

definition Client_send :: "'c codec \<Rightarrow> stream_env \<Rightarrow> ('c, Client) send_fun" where
  "Client_send cd ss p h c = send_from cd ss p h 0 c"

definition Client_Pub ::
  "string \<Rightarrow> gotime \<Rightarrow> 'c ctx \<Rightarrow> string \<Rightarrow> bytes \<Rightarrow> Client \<Rightarrow> md_store \<Rightarrow> 'c Pub \<times> md_store" where
  "Client_Pub uuid now ctx name payload c h =
     (let (md, h) = MetaFromContext ctx h;
          h = md_write md ((cell h md)\<lparr>mdID := uuid\<rparr>) h
      in (\<lparr>pID = uuid, pPID = clPID c, pName = name, pProject = [], pPayload = payload,
           pContext = md_WithContext md ctx, pTimestamp = now, pSubscribed = False\<rparr>, h))"

text \<open>The functions \<open>Pub\<close> installs in the descriptor: the callback registry of this client.\<close>

definition RegisterCb :: "string \<Rightarrow> string \<Rightarrow> nat \<Rightarrow> Client \<Rightarrow> Client" where
  "RegisterCb event i cb c = c\<lparr>Callbacks := Callback_Register event i cb (Callbacks c)\<rparr>"

definition UnregisterCb :: "string \<Rightarrow> string \<Rightarrow> Client \<Rightarrow> Client" where
  "UnregisterCb event i c = c\<lparr>Callbacks := Callback_Unregister event i (Callbacks c)\<rparr>"

definition Client_Pub_Sub ::
  "'c codec \<Rightarrow> stream_env \<Rightarrow> (md_store \<times> Client \<Rightarrow> md_store \<times> Client) \<Rightarrow> (Client \<Rightarrow> wait_outcome) \<Rightarrow>
   string \<Rightarrow> nat \<Rightarrow> 'c Pub \<Rightarrow> md_store \<Rightarrow> Client \<Rightarrow> ('c sub_result outcome \<times> md_store \<times> Client) option" where
  "Client_Pub_Sub cd ss env await event ch p h c =
     Pub_Sub cd (Client_send cd ss) RegisterCb UnregisterCb env await event ch p h c"

section \<open>Choosing brokers in turn\<close>

definition listed :: "Client \<Rightarrow> bool" where
  "listed c \<longleftrightarrow> online c \<and> 0 < length (onlineBrokers c) \<and> length (onlineBrokers c) < 2 ^ 64"

abbreviation turn_of :: "Client \<Rightarrow> uint64 \<Rightarrow> nat" where
  "turn_of c k \<equiv> onlineBrokers c ! (unat k mod length (onlineBrokers c))"

lemma listed_upd [simp]: "listed (c\<lparr>currentSend := k\<rparr>) = listed c"
  by (simp add: listed_def)

lemma nextBroker_listed:
  assumes "listed c"
  shows "nextBroker c = (Inr (turn_of c (currentSend c)), c\<lparr>currentSend := currentSend c + 1\<rparr>)"
proof -
  let ?n = "of_nat (length (onlineBrokers c)) :: uint64"
  have n: "unat ?n = length (onlineBrokers c)"
    using assms by (simp add: listed_def unsigned_of_nat take_bit_nat_eq_self)
  then have "?n \<noteq> 0" using assms unfolding listed_def by (metis less_numeral_extra(3) unsigned_0)
  then show ?thesis using assms n by (simp add: nextBroker_def listed_def Let_def unat_mod)
qed

lemma nextBroker_frame: "\<exists>k. snd (nextBroker c) = c\<lparr>currentSend := k\<rparr>"
proof -
  have a: "\<exists>k. c = c\<lparr>currentSend := k\<rparr>" by (rule exI [of _ "currentSend c"]) simp
  have b: "\<exists>k. c\<lparr>currentSend := x\<rparr> = c\<lparr>currentSend := k\<rparr>" for x by blast
  show ?thesis unfolding nextBroker_def Let_def using a b by (simp only: snd_conv split: if_split) simp
qed

lemma nextBroker_offline: "\<not> online c \<Longrightarrow> nextBroker c = (Inl ErrClientNotConnected, c)"
  by (simp add: nextBroker_def)

fun next_brokers :: "nat \<Rightarrow> Client \<Rightarrow> nat result list" where
  "next_brokers 0 c = []"
| "next_brokers (Suc m) c = (let (r, c) = nextBroker c in r # next_brokers m c)"

lemma next_brokers_from:
  assumes "listed c" and "k + m \<le> 2 ^ 64" and "currentSend c = of_nat k"
  shows "next_brokers m c =
    map (\<lambda>j. Inr (onlineBrokers c ! (j mod length (onlineBrokers c)))) [k ..< k + m]"
  using assms
proof (induction m arbitrary: k c)
  case 0
  then show ?case by simp
next
  case (Suc m)
  have k: "unat (of_nat k :: uint64) = k"
    using Suc.prems(2) by (simp add: unsigned_of_nat take_bit_nat_eq_self)
  have "next_brokers m (c\<lparr>currentSend := of_nat (Suc k)\<rparr>) =
      map (\<lambda>j. Inr (onlineBrokers c ! (j mod length (onlineBrokers c)))) [Suc k ..< Suc k + m]"
    using Suc.IH [of "c\<lparr>currentSend := of_nat (Suc k)\<rparr>" "Suc k"] Suc.prems by simp
  moreover have "currentSend c + 1 = of_nat (Suc k)" using Suc.prems(3) by simp
  ultimately show ?case
    using Suc.prems(3) k
    by (simp add: nextBroker_listed [OF Suc.prems(1)] upt_conv_Cons del: of_nat_Suc upt_Suc)
qed

section \<open>Sending\<close>

text \<open>What \<open>send\<close> changes: the counter, nothing else.\<close>

lemma send_from_frame:
  assumes "send_from cd ss p h i c = Some (out, c')"
  shows "\<exists>k. c' = c\<lparr>currentSend := k\<rparr>"
proof -
  have "\<exists>k. snd y = c\<lparr>currentSend := k\<rparr>" if "send_from cd ss p h i c = Some y" for y
  proof (rule send_from.raw_induct
      [where P = "\<lambda>cd ss p h i c y. \<exists>k. snd y = c\<lparr>currentSend := k\<rparr>", OF _ that])
    fix send and cd :: "'a codec" and ss p h i c y
    assume IH: "\<And>cd ss p h i c y. send cd ss p h i c = Some y \<Longrightarrow> \<exists>k. snd y = c\<lparr>currentSend := k\<rparr>"
      and s: "(case nextBroker c of
          (Inl e, c) \<Rightarrow> Some (Returns (Some e), c)
        | (Inr bk, c) \<Rightarrow>
            (case Broker_Send cd (ss i bk) p h (clMem c bk) of
               Returns err \<Rightarrow> (if err \<noteq> None then send cd ss p h (Suc i) c else Some (Returns None, c))
             | Panics e \<Rightarrow> Some (Panics e, c))) = Some y"
    obtain r d where n: "nextBroker c = (r, d)" by force
    have d: "\<exists>k. d = c\<lparr>currentSend := k\<rparr>"
      using nextBroker_frame [of c] n by simp
    have "send cd ss p h (Suc i) d = Some y \<or> snd y = d"
    proof (cases r)
      case (Inr bk)
      with s n show ?thesis by (cases "Broker_Send cd (ss i bk) p h (clMem d bk)") (auto split: if_splits)
    qed (use s n in auto)
    then show "\<exists>k. snd y = c\<lparr>currentSend := k\<rparr>" using IH d by fastforce
  qed
  from this [OF assms] show ?thesis by simp
qed

lemma waiting_send:
  assumes "Client_send cd ss p h c = Some (out, c')"
  shows "waiting (Callbacks c') event i = waiting (Callbacks c) event i"
  using send_from_frame [OF assms [unfolded Client_send_def]] by auto

interpretation publish: publisher_env RegisterCb UnregisterCb
    "\<lambda>m c. c\<lparr>Callbacks := Callback_Recv m (Callbacks c)\<rparr>" "\<lambda>c. waiting (Callbacks c)"
    "\<lambda>c. cb_pending (Callbacks c)" plain_id "Client_send cd ss" for cd ss
  by unfold_locales
    (auto simp: RegisterCb_def UnregisterCb_def cb.waits_register cb.waits_unregister cb.waits_deliver
      cb.pending_register cb.pending_unregister cb.pending_deliver dest: waiting_send)

lemma send_from_step:
  assumes "listed c"
  shows "send_from cd ss p h i c =
    (let bk = turn_of c (currentSend c); c = c\<lparr>currentSend := currentSend c + 1\<rparr>
     in case Broker_Send cd (ss i bk) p h (clMem c bk) of
          Panics e \<Rightarrow> Some (Panics e, c)
        | Returns err \<Rightarrow> (if err \<noteq> None then send_from cd ss p h (Suc i) c else Some (Returns None, c)))"
  by (subst send_from.simps) (simp add: nextBroker_listed [OF assms] Let_def)

text \<open>The first broker in turn that takes the event gets it.\<close>

lemma send_first:
  assumes "listed c"
    and "\<And>m. m < n \<Longrightarrow> \<exists>e. Broker_Send cd (ss (i + m) (turn_of c (currentSend c + of_nat m))) p h
        (clMem c (turn_of c (currentSend c + of_nat m))) = Returns (Some e)"
    and "Broker_Send cd (ss (i + n) (turn_of c (currentSend c + of_nat n))) p h
        (clMem c (turn_of c (currentSend c + of_nat n))) = Returns None"
  shows "send_from cd ss p h i c =
    Some (Returns None, c\<lparr>currentSend := currentSend c + of_nat (Suc n)\<rparr>)"
  using assms
proof (induction n arbitrary: i c)
  case 0
  then show ?case by (simp add: send_from_step Let_def)
next
  case (Suc n)
  let ?c = "c\<lparr>currentSend := currentSend c + 1\<rparr>"
  obtain e where "Broker_Send cd (ss i (turn_of c (currentSend c))) p h
      (clMem c (turn_of c (currentSend c))) = Returns (Some e)"
    using Suc.prems(2) [of 0] by auto
  then have "send_from cd ss p h i c = send_from cd ss p h (Suc i) ?c"
    using Suc.prems(1) by (simp add: send_from_step Let_def)
  also have "\<dots> = Some (Returns None, ?c\<lparr>currentSend := currentSend ?c + of_nat (Suc n)\<rparr>)"
  proof (rule Suc.IH)
    show "\<exists>e. Broker_Send cd (ss (Suc i + m) (turn_of ?c (currentSend ?c + of_nat m))) p h
        (clMem ?c (turn_of ?c (currentSend ?c + of_nat m))) = Returns (Some e)" if "m < n" for m
      using Suc.prems(2) [of "Suc m"] that by (simp add: add.assoc)
  qed (use Suc.prems(1,3) in \<open>simp_all add: add.assoc\<close>)
  finally show ?case by (simp add: add.assoc)
qed

text \<open>Every position has its turn within two rounds, also when the counter wraps.\<close>

lemma turn_comes:
  assumes "listed c" and "j < length (onlineBrokers c)"
  shows "\<exists>n < 2 * length (onlineBrokers c). turn_of c (k + of_nat n) = onlineBrokers c ! j"
proof -
  let ?N = "length (onlineBrokers c)"
  have u: "unat (of_nat m :: uint64) = m" if "m < 2 ^ 64" for m
    using that by (simp add: unsigned_of_nat take_bit_nat_eq_self)
  have N: "0 < ?N" "?N < 2 ^ 64" using assms(1) by (simp_all add: listed_def)
  show ?thesis
  proof (cases "unat k + ?N \<le> 2 ^ 64")
    case True
    let ?n = "(j + (?N - unat k mod ?N)) mod ?N"
    have n: "?n < ?N" using N by simp
    then have "unat (k + of_nat ?n) = unat k + ?n"
      using True u [of ?n] N(2) by (subst unat_add_lem [THEN iffD1]) (simp_all)
    moreover have "(unat k + ?n) mod ?N = (unat k mod ?N + (j + (?N - unat k mod ?N))) mod ?N"
      by (simp only: mod_add_left_eq mod_add_right_eq)
    moreover have "unat k mod ?N + (j + (?N - unat k mod ?N)) = j + ?N"
      using N(1) mod_less_divisor [of ?N "unat k"] by linarith
    ultimately have "unat (k + of_nat ?n) mod ?N = j" using assms(2) by simp
    with n show ?thesis by (intro exI [of _ ?n]) simp
  next
    case False
    let ?w = "2 ^ 64 - unat k"
    have k: "unat k < 2 ^ 64" using unsigned_less [of k] by simp
    have "k + of_nat (?w + j) = of_nat (unat k + ?w + j)" by simp
    also have "unat k + ?w + j = 2 ^ 64 + j" using k by linarith
    finally have "unat (k + of_nat (?w + j)) = (2 ^ 64 + j) mod 2 ^ 64"
      by (simp only: unsigned_of_nat take_bit_eq_mod) simp
    then have "unat (k + of_nat (?w + j)) = j"
      using assms(2) N(2) by simp
    moreover have "?w + j < 2 * ?N" using False assms(2) k by linarith
    ultimately show ?thesis using assms(2) by (intro exI [of _ "?w + j"]) simp
  qed
qed

lemma send_refused_loops:
  assumes "listed c"
    and "\<And>i b. b \<in> set (onlineBrokers c) \<Longrightarrow> \<exists>e. Broker_Send cd (ss i b) p h (clMem c b) = Returns (Some e)"
  shows "send_from cd ss p h i c = None"
proof (cases "send_from cd ss p h i c")
  case (Some y)
  let ?P = "\<lambda>cd ss p h (i :: nat) c (y :: err option outcome \<times> Client). listed c \<longrightarrow>
    \<not> (\<forall>i. \<forall>b \<in> set (onlineBrokers c). \<exists>e. Broker_Send cd (ss i b) p h (clMem c b) = Returns (Some e))"
  have "?P cd ss p h i c y"
  proof (rule send_from.raw_induct [where P = ?P, OF _ Some], intro impI notI)
    fix send and cd :: "'a codec" and ss p h i c y
    assume IH: "\<And>cd ss p h i c y. send cd ss p h i c = Some y \<Longrightarrow> ?P cd ss p h i c y"
      and s: "(case nextBroker c of
          (Inl e, c) \<Rightarrow> Some (Returns (Some e), c)
        | (Inr bk, c) \<Rightarrow>
            (case Broker_Send cd (ss i bk) p h (clMem c bk) of
               Returns err \<Rightarrow> (if err \<noteq> None then send cd ss p h (Suc i) c else Some (Returns None, c))
             | Panics e \<Rightarrow> Some (Panics e, c))) = Some y"
      and l: "listed c"
      and r: "\<forall>i. \<forall>b \<in> set (onlineBrokers c). \<exists>e. Broker_Send cd (ss i b) p h (clMem c b) = Returns (Some e)"
    let ?bk = "turn_of c (currentSend c)" and ?c = "c\<lparr>currentSend := currentSend c + 1\<rparr>"
    have "?bk \<in> set (onlineBrokers c)" using l by (simp add: listed_def)
    then obtain e where "Broker_Send cd (ss i ?bk) p h (clMem c ?bk) = Returns (Some e)" using r by blast
    with s have "send cd ss p h (Suc i) ?c = Some y" by (simp add: nextBroker_listed [OF l])
    from IH [OF this] l r show False by simp
  qed
  with assms show ?thesis by blast
qed

text \<open>
  Some broker that always takes the event is found before two rounds are over.
\<close>

lemma send_delivers:
  assumes "listed c" and "b \<in> set (onlineBrokers c)"
    and "\<And>i. Broker_Send cd (ss i b) p h (clMem c b) = Returns None"
    and "\<And>i b'. b' \<in> set (onlineBrokers c) \<Longrightarrow> \<exists>e. Broker_Send cd (ss i b') p h (clMem c b') = Returns e"
  shows "\<exists>n < 2 * length (onlineBrokers c). Client_send cd ss p h c =
    Some (Returns None, c\<lparr>currentSend := currentSend c + of_nat (Suc n)\<rparr>)"
proof -
  let ?t = "\<lambda>m. turn_of c (currentSend c + of_nat m)"
  let ?takes = "\<lambda>m. Broker_Send cd (ss m (?t m)) p h (clMem c (?t m)) = Returns None"
  obtain j where "j < length (onlineBrokers c)" "onlineBrokers c ! j = b"
    using assms(2) by (auto simp: in_set_conv_nth)
  then obtain n where n: "n < 2 * length (onlineBrokers c)" "?t n = b"
    using turn_comes [OF assms(1)] by metis
  then have "?takes n" using assms(3) by simp
  then have least: "?takes (LEAST m. ?takes m)" "(LEAST m. ?takes m) \<le> n"
    by (rule LeastI, rule Least_le)
  have "\<exists>e. Broker_Send cd (ss (0 + m) (?t m)) p h (clMem c (?t m)) = Returns (Some e)"
    if "m < (LEAST m. ?takes m)" for m
  proof -
    have "?t m \<in> set (onlineBrokers c)" using assms(1) by (simp add: listed_def)
    then obtain e where "Broker_Send cd (ss m (?t m)) p h (clMem c (?t m)) = Returns e"
      using assms(4) by blast
    moreover have "\<not> ?takes m" using that by (rule not_less_Least)
    ultimately show ?thesis by (cases e) auto
  qed
  from send_first [OF assms(1) this] least(1)
  have "Client_send cd ss p h c =
      Some (Returns None, c\<lparr>currentSend := currentSend c + of_nat (Suc (LEAST m. ?takes m))\<rparr>)"
    by (simp add: Client_send_def)
  moreover have "(LEAST m. ?takes m) < 2 * length (onlineBrokers c)" using least(2) n(1) by simp
  ultimately show ?thesis by blast
qed

text \<open>A concrete setting: both brokers of \<open>demo_cli\<close> online, the second one with a working stream.\<close>

definition demo_on :: Client where
  "demo_on = demo_cli\<lparr>onlineBrokers := [0, 1], online := True\<rparr>"

definition demo_ss :: stream_env where
  "demo_ss i b s msg = (if b = 1 then None else Some (LibErr ''EOF''))"

lemma demo_on [simp]: "listed demo_on" "onlineBrokers demo_on = [0, 1]" "currentSend demo_on = 0"
  by (simp_all add: listed_def demo_on_def demo_cli_def)

lemma demo_Broker_Send: "Broker_Send unary_codec (demo_ss i b) (demo_pub Background) empty_store (clMem demo_on b) =
    Returns (if b = 1 then None else Some (LibErr ''EOF''))"
proof -
  have "\<exists>msg. GetEvent unary_codec (demo_pub Background) empty_store = Inr msg"
    using GetEvent_fails [of unary_codec "demo_pub Background" empty_store]
    by (cases "GetEvent unary_codec (demo_pub Background) empty_store") (auto simp: unary_codec_def)
  then show ?thesis
    by (auto simp: Broker_Send_def demo_on_def demo_cli_def on_ready_def demo_ss_def)
qed

section \<open>Properties\<close>

text \<open>
  Round robin: from a fresh counter (which every connect and disconnect leaves) the calls of
  \<open>nextBroker\<close> return the online list in order, again and again, so that over any number of whole
  rounds every entry has been chosen equally often.
\<close>

lemma nextBroker_rotates:
  assumes "listed c" and "currentSend c = 0" and "m \<le> 2 ^ 64"
  shows "next_brokers m c =
    map (\<lambda>j. Inr (onlineBrokers c ! (j mod length (onlineBrokers c)))) [0 ..< m]"
  using next_brokers_from [of c 0 m] assms by simp

lemma nextBroker_rotates_witness:
  "next_brokers 3 demo_on = [Inr 0, Inr 1, Inr 0]"
  using nextBroker_rotates [of demo_on 3] by (simp add: upt_rec)

text \<open>
  C36. \<open>send\<close> has no other way to stop: offline it returns \<open>ErrClientNotConnected\<close> at once, but
  while a broker is listed and all listed brokers keep refusing it recurses for ever. An event whose
  typed context cannot be encoded is refused by every broker, whatever the streams would do.
\<close>

theorem send_unencodable_diverges:
  assumes "listed c" and "message_Context (pContext p) = Inr x" and "marshal cd x = Inl e"
  shows "Client_send cd ss p h c = None \<and>
    Client_send cd ss p h (c\<lparr>online := False\<rparr>) =
      Some (Returns (Some ErrClientNotConnected), c\<lparr>online := False\<rparr>)"
proof -
  have "GetEvent cd p h = Inl e" using assms(2,3) by (auto simp: GetEvent_fails)
  then have "\<exists>e. Broker_Send cd (ss i b) p h (clMem c b) = Returns (Some e)" for i b
    by (simp add: Broker_Send_def)
  then have "Client_send cd ss p h c = None"
    unfolding Client_send_def by (intro send_refused_loops assms(1))
  then show ?thesis by (simp add: Client_send_def send_from.simps nextBroker_offline)
qed

theorem send_unencodable_diverges_witness:
  "Client_send (unary_codec\<lparr>marshal := \<lambda>c. Inl (LibErr ''json'')\<rparr>) demo_ss
     (demo_pub (message_WithContext Background 3)) empty_store demo_on = None"
  using send_unencodable_diverges [of demo_on "demo_pub (message_WithContext Background 3)" 3
      "unary_codec\<lparr>marshal := \<lambda>c. Inl (LibErr ''json'')\<rparr>"]
  by (simp add: demo_pub_def)

text \<open>
  \<open>Sub\<close> of a published event leaves no callback behind: on every way out (offline, a response,
  a cancelled context, a panic) the caller's registration is gone; and while the event was being
  sent the caller was registered, so that a response cannot be missed.
\<close>

lemma Pub_Sub_callback:
  assumes "plain_id (pID p)"
    and "Client_Pub_Sub cd ss env await event ch p h c = Some (r, h', c')"
  shows "waiting (Callbacks c') event (pID p) = None \<and>
    Client_Pub_Sub cd ss env await event ch p h c =
      Pub_Sub cd (\<lambda>q g t. if waiting (Callbacks t) event (pID p) = Some ch then Client_send cd ss q g t
          else None)
        RegisterCb UnregisterCb env await event ch p h c"
  using publish.Sub_unregisters [OF assms(1) assms(2) [unfolded Client_Pub_Sub_def]]
    publish.Sub_registers_first [OF assms(1), where other = "\<lambda>q g t. None"]
  by (simp add: Client_Pub_Sub_def)

lemma Pub_Sub_callback_witness:
  "case Client_Pub_Sub unary_codec demo_ss (\<lambda>x. x) (\<lambda>w. Cancelled (LibErr ''deadline'')) ''res'' 7
      (demo_pub Background) empty_store demo_cli of
     None \<Rightarrow> False
   | Some (r, h, c) \<Rightarrow> waiting (Callbacks c) ''res'' ''a-1'' = None"
proof -
  let ?run = "Client_Pub_Sub unary_codec demo_ss (\<lambda>x. x) (\<lambda>w. Cancelled (LibErr ''deadline'')) ''res'' 7
      (demo_pub Background) empty_store demo_cli"
  have i: "pID (demo_pub ctx) = ''a-1''" for ctx by (simp add: demo_pub_def)
  have "\<not> online (RegisterCb e j n demo_cli)" for e j n by (simp add: RegisterCb_def demo_cli_def)
  then have "\<exists>r h c. ?run = Some (r, h, c)"
    by (simp add: Client_Pub_Sub_def Pub_Sub_def Client_send_def send_from.simps nextBroker_offline Let_def)
  then obtain r h c where run: "?run = Some (r, h, c)" by blast
  have "plain_id (pID (demo_pub Background))" by (simp add: i plain_id_def)
  from conjunct1 [OF Pub_Sub_callback [OF this run]] show ?thesis
    unfolding run i by simp
qed

end
