(* ===== verification/Subs_Interleaving.thy ===== *)
theory Subs_Interleaving
  imports Subs
begin

text \<open>
  \<open>Store.Register\<close> and \<open>Store.Unregister\<close> (src/sub/store.go) cut where they release a lock, and
  any interleaving of their callers. A caller is at one of the points below; the constructor
  holds the local variables that are live there.
\<close>

datatype sub_pc =
    RLookup string nat string         \<comment> \<open>\<open>Register(name, fn)\<close> before the read lock\<close>
  | RInsert string nat nat string     \<comment> \<open>no entry was found, a new \<open>Sub\<close> is about to be stored\<close>
  | RAppend nat nat string            \<comment> \<open>before \<open>ss.Register(id, fn)\<close>\<close>
  | ULookup string string             \<comment> \<open>\<open>Unregister(name, id)\<close> before the read lock\<close>
  | URemove string nat string         \<comment> \<open>before \<open>ss.Unregister(id)\<close>\<close>
  | UDelete string                    \<comment> \<open>the \<open>Sub\<close> was empty, before \<open>delete(s.list, name)\<close>\<close>
  | Halt

fun sub_step :: "sub_pc \<Rightarrow> Store \<Rightarrow> sub_pc \<times> Store" where
  "sub_step (RLookup name fn i) st =
     (case slist st name of
        Some p \<Rightarrow> (RAppend p fn i, st)
      | None \<Rightarrow> (let (p, st) = sub_alloc st in (RInsert name p fn i, st)))"
| "sub_step (RInsert name p fn i) st = (RAppend p fn i, st\<lparr>slist := (slist st)(name \<mapsto> p)\<rparr>)"
| "sub_step (RAppend p fn i) st = (Halt, sub_write p (Sub_Register i fn (sheap st p)) st)"
| "sub_step (ULookup name i) st =
     (case slist st name of None \<Rightarrow> (Halt, st) | Some p \<Rightarrow> (URemove name p i, st))"
| "sub_step (URemove name p i) st =
     (let (ok, s) = Sub_Unregister i (sheap st p)
      in (if ok then UDelete name else Halt, sub_write p s st))"
| "sub_step (UDelete name) st = (Halt, st\<lparr>slist := (slist st)(name := None)\<rparr>)"
| "sub_step Halt st = (Halt, st)"

text \<open>Callers and store; one step moves one caller that has not returned.\<close>

inductive sub_sys :: "sub_pc list \<times> Store \<Rightarrow> sub_pc list \<times> Store \<Rightarrow> bool" where
  step: "k < length ts \<Longrightarrow> ts ! k \<noteq> Halt \<Longrightarrow> sub_step (ts ! k) st = (t, st') \<Longrightarrow>
    sub_sys (ts, st) (ts[k := t], st')"

inductive_cases sub_sysE: "sub_sys (ts, st) (ts', st')"

definition sub_run :: "sub_pc list \<times> Store \<Rightarrow> sub_pc list \<times> Store \<Rightarrow> bool" where
  "sub_run = sub_sys\<^sup>*\<^sup>*"

text \<open>A caller that runs alone does what the sequential operation does.\<close>

fun run_alone :: "nat \<Rightarrow> sub_pc \<times> Store \<Rightarrow> sub_pc \<times> Store" where
  "run_alone 0 c = c"
| "run_alone (Suc k) (t, st) = run_alone k (sub_step t st)"

lemma Register_alone:
  "run_alone 3 (RLookup name fn i, st) = (Halt, snd (Store_Register name fn i st))"
  by (auto simp: Store_Register_def eval_nat_numeral sub_alloc_def sub_write_def Let_def
      split: option.split)

lemma Unregister_alone:
  "run_alone 3 (ULookup name i, st) = (Halt, Store_Unregister name i st)"
  by (auto simp: Store_Unregister_def eval_nat_numeral sub_write_def Let_def
      split: option.split prod.split)

section \<open>Schedules\<close>

text \<open>Runs a list of caller indices; used to exhibit interleavings.\<close>

fun schedule :: "nat list \<Rightarrow> sub_pc list \<times> Store \<Rightarrow> (sub_pc list \<times> Store) option" where
  "schedule [] c = Some c"
| "schedule (k # ks) (ts, st) =
     (if k < length ts \<and> ts ! k \<noteq> Halt
      then (let (t, st') = sub_step (ts ! k) st in schedule ks (ts[k := t], st')) else None)"

lemma schedule_run: "schedule ks c = Some c' \<Longrightarrow> sub_run c c'"
proof (induction ks c rule: schedule.induct)
  case (1 c)
  then show ?case by (simp add: sub_run_def)
next
  case (2 k ks ts st)
  obtain t st' where s: "sub_step (ts ! k) st = (t, st')" by force
  with "2.prems" have k: "k < length ts" "ts ! k \<noteq> Halt" and r: "schedule ks (ts[k := t], st') = Some c'"
    by (auto split: if_splits)
  have "sub_run (ts[k := t], st') c'" by (rule "2.IH" [OF _ s [symmetric] refl r]) (use k in simp)
  moreover have "sub_sys (ts, st) (ts[k := t], st')" by (rule sub_sys.step [OF k s])
  ultimately show ?case unfolding sub_run_def by (rule converse_rtranclp_into_rtranclp [rotated])
qed

section \<open>Registrations of an event that has an entry\<close>

text \<open>
  The handlers a caller still owes to the \<open>Sub\<close> at \<open>p\<close>. Through any interleaving of
  registrations of existing events, the handlers present and the handlers owed stay the same.
\<close>

definition existing_reg :: "Store \<Rightarrow> sub_pc \<Rightarrow> bool" where
  "existing_reg st t =
     (case t of RLookup n f i \<Rightarrow> slist st n \<noteq> None | RAppend p f i \<Rightarrow> True | Halt \<Rightarrow> True | _ \<Rightarrow> False)"

definition owed :: "Store \<Rightarrow> nat \<Rightarrow> sub_pc \<Rightarrow> (string \<times> nat) multiset" where
  "owed st p t =
     (case t of
        RLookup n f i \<Rightarrow> (if slist st n = Some p then {#(i, f)#} else {#})
      | RAppend q f i \<Rightarrow> (if q = p then {#(i, f)#} else {#})
      | _ \<Rightarrow> {#})"

definition present :: "Store \<Rightarrow> nat \<Rightarrow> (string \<times> nat) multiset" where
  "present st p = mset (map (\<lambda>h. (hid h, hcb h)) (handlers (sheap st p)))"

definition all_owed :: "Store \<Rightarrow> nat \<Rightarrow> sub_pc list \<Rightarrow> (string \<times> nat) multiset" where
  "all_owed st p ts = sum_list (map (owed st p) ts)"

lemma sum_list_update_mset:
  "k < length ts \<Longrightarrow>
   sum_list (map f (ts[k := t])) + f (ts ! k) = (sum_list (map f ts) + f t :: 'a multiset)"
proof (induction ts arbitrary: k)
  case (Cons x xs)
  then show ?case by (cases k) (auto simp: ac_simps)
qed simp

lemma existing_step:
  assumes "existing_reg st t" and "sub_step t st = (t', st')"
  shows "slist st' = slist st \<and> existing_reg st' t' \<and>
    present st' p + owed st' p t' = present st p + owed st p t"
  using assms
  by (cases t) (auto simp: existing_reg_def owed_def present_def sub_write_def Sub_Register_def
      split: option.splits)

lemma existing_reg_cong: "slist st' = slist st \<Longrightarrow> existing_reg st' t = existing_reg st t"
  by (simp add: existing_reg_def split: sub_pc.split)

lemma owed_cong: "slist st' = slist st \<Longrightarrow> owed st' p t = owed st p t"
  by (simp add: owed_def split: sub_pc.split)

lemma existing_sys:
  assumes "sub_sys (ts, st) (ts', st')" and "\<forall>t \<in> set ts. existing_reg st t"
  shows "slist st' = slist st \<and> (\<forall>t \<in> set ts'. existing_reg st' t) \<and>
    present st' p + all_owed st' p ts' = present st p + all_owed st p ts"
proof -
  obtain k t where k: "k < length ts" and ts': "ts' = ts[k := t]" and t: "sub_step (ts ! k) st = (t, st')"
    using assms(1) by (elim sub_sysE)
  have "existing_reg st (ts ! k)" using assms(2) k by simp
  note s = existing_step [OF this t]
  have sl: "slist st' = slist st" using s by simp
  have "\<forall>u \<in> set ts'. existing_reg st' u"
    using assms(2) s existing_reg_cong [OF sl] set_update_subset_insert [of ts k t]
    unfolding ts' by blast
  moreover have "present st' p + all_owed st' p ts' = present st p + all_owed st p ts"
  proof -
    have o: "all_owed st' p us = all_owed st p us" for us
      unfolding all_owed_def by (rule arg_cong [of _ _ sum_list], rule map_cong)
        (simp_all add: owed_cong [OF sl])
    have e: "present st' p + owed st p t = present st p + owed st p (ts ! k)"
      using s by (simp add: owed_cong [OF sl])
    have a: "all_owed st p ts' + owed st p (ts ! k) = all_owed st p ts + owed st p t"
      unfolding all_owed_def ts'
      by (rule sum_list_update_mset) (rule k)
    have "present st' p + all_owed st p ts' + (owed st p t + owed st p (ts ! k)) =
        (present st' p + owed st p t) + (all_owed st p ts' + owed st p (ts ! k))"
      by (simp add: ac_simps)
    also have "\<dots> = present st p + all_owed st p ts + (owed st p t + owed st p (ts ! k))"
      unfolding e a by (simp add: ac_simps)
    finally show ?thesis unfolding o by simp
  qed
  ultimately show ?thesis using sl by blast
qed

lemma existing_run:
  assumes "sub_run (ts, st) (ts', st')" and "\<forall>t \<in> set ts. existing_reg st t"
  shows "slist st' = slist st \<and> (\<forall>t \<in> set ts'. existing_reg st' t) \<and>
    present st' p + all_owed st' p ts' = present st p + all_owed st p ts"
  using assms unfolding sub_run_def
proof (induction "(ts', st')" arbitrary: ts' st' rule: rtranclp_induct)
  case base
  then show ?case by simp
next
  case (step c)
  obtain us su where c: "c = (us, su)" by force
  from step.hyps(3) [OF c step.prems] have IH: "slist su = slist st"
    "\<forall>t \<in> set us. existing_reg su t"
    "present su p + all_owed su p us = present st p + all_owed st p ts" by auto
  show ?case using existing_sys [OF step.hyps(2) [unfolded c] IH(2), of p] IH by auto
qed

lemma all_owed_regs:
  assumes "\<And>n. slist st n = Some p \<longleftrightarrow> n = name"
  shows "all_owed st p (map (\<lambda>(n, f, i). RLookup n f i) reqs) =
    mset (map (\<lambda>(n, f, i). (i, f)) (filter (\<lambda>(n, f, i). n = name) reqs))"
  unfolding all_owed_def by (induction reqs) (auto simp: owed_def assms)

section \<open>One operation at a time on each event\<close>

text \<open>
  Operations on different events overlap, those on one event do not. Each call is at \<open>t\<close> in \<open>name\<close>;
  \<open>due\<close> is what the event's handlers will be when it has returned.
\<close>

definition settled :: "Store \<Rightarrow> string \<Rightarrow> bool" where
  "settled st name \<longleftrightarrow> (slist st name \<noteq> None \<longrightarrow> routes st name \<noteq> [])"

definition due :: "Store \<Rightarrow> string \<Rightarrow> sub_pc \<Rightarrow> (string \<times> nat) list" where
  "due st name t =
     (case t of
        RLookup n fn i \<Rightarrow> routes st name @ [(i, fn)]
      | RInsert n p fn i \<Rightarrow> [(i, fn)]
      | RAppend p fn i \<Rightarrow> routes st name @ [(i, fn)]
      | ULookup n i \<Rightarrow> filter (\<lambda>h. fst h \<noteq> i) (routes st name)
      | URemove n p i \<Rightarrow> filter (\<lambda>h. fst h \<noteq> i) (routes st name)
      | UDelete n \<Rightarrow> []
      | Halt \<Rightarrow> routes st name)"

text \<open>What a call at \<open>t\<close> relies on; \<open>q\<close> is the event's \<open>Sub\<close>, stored or about to be.\<close>

definition sub_ok :: "Store \<Rightarrow> nat option \<Rightarrow> string \<Rightarrow> sub_pc \<Rightarrow> bool" where
  "sub_ok st q name t \<longleftrightarrow>
     (case t of
        RLookup n fn i \<Rightarrow> n = name \<and> settled st name
      | RInsert n p fn i \<Rightarrow> n = name \<and> slist st name = None \<and> q = Some p \<and> handlers (sheap st p) = []
      | RAppend p fn i \<Rightarrow> slist st name = Some p
      | ULookup n i \<Rightarrow> n = name \<and> settled st name
      | URemove n p i \<Rightarrow> n = name \<and> slist st name = Some p
      | UDelete n \<Rightarrow> n = name
      | Halt \<Rightarrow> settled st name)"

definition own_ok :: "(string \<rightharpoonup> nat) \<Rightarrow> Store \<Rightarrow> bool" where
  "own_ok P st \<longleftrightarrow> (\<forall>n m p. P n = Some p \<longrightarrow> P m = Some p \<longrightarrow> n = m) \<and>
     (\<forall>n p. P n = Some p \<longrightarrow> p < sfresh st) \<and> (\<forall>n p. slist st n = Some p \<longrightarrow> P n = Some p)"

text \<open>A step of a call keeps the other events as they are.\<close>

definition same_event :: "Store \<Rightarrow> Store \<Rightarrow> (string \<rightharpoonup> nat) \<Rightarrow> string \<Rightarrow> bool" where
  "same_event st st' P m \<longleftrightarrow> slist st' m = slist st m \<and> (\<forall>p. P m = Some p \<longrightarrow> sheap st' p = sheap st p)"

lemma same_event_routes:
  "own_ok P st \<Longrightarrow> same_event st st' P m \<Longrightarrow> routes st' m = routes st m"
  by (auto simp: own_ok_def same_event_def routes_def split: option.split)

lemma same_event_ok:
  assumes "own_ok P st" and "same_event st st' P m"
  shows "sub_ok st (P m) m t \<Longrightarrow> sub_ok st' (P m) m t" and "due st' m t = due st m t"
  using assms(2) same_event_routes [OF assms]
  by (auto simp: sub_ok_def settled_def same_event_def due_def split: sub_pc.splits)

lemma own_ok_same:
  "own_ok P st \<Longrightarrow> sfresh st' = sfresh st \<Longrightarrow> (\<And>n. slist st' n = slist st n \<or> slist st' n = None) \<Longrightarrow> own_ok P st'"
  unfolding own_ok_def by (metis option.distinct(1))

lemma sub_step_serial:
  assumes o: "own_ok P st" and c: "sub_ok st (P name) name t" and s: "sub_step t st = (t', st')"
  obtains q where "own_ok (P(name := q)) st'" "sub_ok st' q name t'" "due st' name t' = due st name t"
    "\<And>m. m \<noteq> name \<Longrightarrow> same_event st st' P m"
proof (cases t)
  case (RLookup n fn i)
  show thesis
  proof (cases "slist st name")
    case None
    have f: "P n \<noteq> Some (sfresh st)" for n using o by (force simp: own_ok_def)
    have "st' = st\<lparr>sheap := (sheap st)(sfresh st := zero_Sub), sfresh := Suc (sfresh st)\<rparr>"
      "t' = RInsert name (sfresh st) fn i"
      using s c RLookup None by (auto simp: sub_ok_def sub_alloc_def Let_def)
    moreover from this have "own_ok (P(name \<mapsto> sfresh st)) st'"
      using o None f by (fastforce simp: own_ok_def less_Suc_eq)
    ultimately show thesis using that [of "Some (sfresh st)"] RLookup None f
      by (auto simp: sub_ok_def due_def routes_def same_event_def zero_Sub_def)
  next
    case (Some p)
    then show thesis using that [of "P name"] o c s RLookup
      by (auto simp: sub_ok_def due_def same_event_def)
  qed
next
  case (RInsert n p fn i)
  then have n: "n = name" "slist st name = None" "P name = Some p" "handlers (sheap st p) = []"
    and r: "t' = RAppend p fn i" "st' = st\<lparr>slist := (slist st)(name \<mapsto> p)\<rparr>" using c s by (simp_all add: sub_ok_def)
  have "P(name := P name) = P" by simp
  moreover have "own_ok P st'" using o n(3) by (simp add: own_ok_def r(2))
  moreover have "sub_ok st' (P name) name t'" "due st' name t' = due st name t"
    by (simp_all add: sub_ok_def due_def r RInsert routes_def n(4))
  moreover have "same_event st st' P m" if "m \<noteq> name" for m using that by (simp add: same_event_def r(2))
  ultimately show thesis using that [of "P name"] by simp
next
  case (RAppend p fn i)
  then have p: "slist st name = Some p" "P name = Some p" using o c by (auto simp: own_ok_def sub_ok_def)
  have r: "t' = Halt" "st' = sub_write p (Sub_Register i fn (sheap st p)) st" using s RAppend by simp_all
  have "own_ok P st'" by (rule own_ok_same [OF o]) (simp_all add: r sub_write_def)
  moreover have "sub_ok st' (P name) name t'" "due st' name t' = due st name t"
    using p by (simp_all add: sub_ok_def settled_def due_def r RAppend routes_def sub_write_def Sub_Register_def)
  moreover have "same_event st st' P m" if "m \<noteq> name" for m
    using that o p(2) unfolding same_event_def own_ok_def r(2) sub_write_def by auto
  ultimately show thesis using that [of "P name"] by simp
next
  case (ULookup n i)
  then show thesis using that [of "P name"] o c s
    by (auto simp: sub_ok_def due_def same_event_def routes_def settled_def split: option.splits)
next
  case (URemove n p i)
  then have p: "slist st name = Some p" "P name = Some p" "n = name" using o c by (auto simp: own_ok_def sub_ok_def)
  define hs where "hs = filter (\<lambda>h. hid h \<noteq> i) (handlers (sheap st p))"
  have r: "t' = (if hs = [] then UDelete name else Halt)" "st' = sub_write p ((sheap st p)\<lparr>handlers := hs\<rparr>) st"
    using s p(3) URemove by (auto simp: Sub_Unregister_def Let_def hs_def)
  have "own_ok P st'" by (rule own_ok_same [OF o]) (simp_all add: r sub_write_def)
  moreover have "routes st' name = filter (\<lambda>h. fst h \<noteq> i) (routes st name)"
    using p(1) by (simp add: r(2) routes_def sub_write_def hs_def filter_map o_def)
  moreover from this have "sub_ok st' (P name) name t'" "due st' name t' = due st name t"
    using p by (auto simp: sub_ok_def settled_def due_def r URemove routes_def sub_write_def)
  moreover have "same_event st st' P m" if "m \<noteq> name" for m
    using that o p(2) unfolding same_event_def own_ok_def r(2) sub_write_def by auto
  ultimately show thesis using that [of "P name"] by simp
next
  case (UDelete n)
  then have r: "t' = Halt" "st' = st\<lparr>slist := (slist st)(name := None)\<rparr>" using c s by (simp_all add: sub_ok_def)
  have "own_ok P st'" by (rule own_ok_same [OF o]) (simp_all add: r)
  then show thesis using that [of "P name"] UDelete
    by (simp add: r sub_ok_def due_def same_event_def routes_def settled_def)
next
  case Halt
  then show thesis using that [of "P name"] o c s by (auto simp: same_event_def)
qed

text \<open>
  \<open>tracks\<close> relates a store with calls under way to a table of handlers: no two calls that have not
  returned are on one event, and the table is what the store will hold.
\<close>

definition pending :: "(string \<times> sub_pc) list \<Rightarrow> string \<Rightarrow> bool" where
  "pending cs name \<longleftrightarrow> (\<exists>t. (name, t) \<in> set cs \<and> t \<noteq> Halt)"

definition one_each :: "(string \<times> sub_pc) list \<Rightarrow> bool" where
  "one_each cs \<longleftrightarrow> (\<forall>j k. j < length cs \<longrightarrow> k < length cs \<longrightarrow> snd (cs ! j) \<noteq> Halt \<longrightarrow>
     snd (cs ! k) \<noteq> Halt \<longrightarrow> fst (cs ! j) = fst (cs ! k) \<longrightarrow> j = k)"

definition tracks :: "(string \<times> sub_pc) list \<Rightarrow> Store \<Rightarrow> (string \<Rightarrow> (string \<times> nat) list) \<Rightarrow> bool" where
  "tracks cs st T \<longleftrightarrow> one_each cs \<and> (\<exists>P. own_ok P st \<and>
     (\<forall>name t. (name, t) \<in> set cs \<longrightarrow> t \<noteq> Halt \<longrightarrow> sub_ok st (P name) name t \<and> T name = due st name t) \<and>
     (\<forall>name. \<not> pending cs name \<longrightarrow> settled st name \<and> T name = routes st name))"

lemma tracks_New: "tracks [] Store_New (\<lambda>_. [])"
  by (auto simp: tracks_def one_each_def own_ok_def Store_New_def pending_def settled_def routes_New [unfolded Store_New_def]
      intro!: exI [of _ Map.empty])

lemma tracks_idle: "tracks cs st T \<Longrightarrow> \<not> pending cs name \<Longrightarrow> routes st name = T name"
  by (auto simp: tracks_def)

lemma tracks_spawn:
  assumes tr: "tracks cs st T" and p: "\<not> pending cs name" and t: "t \<noteq> Halt"
    and c: "\<And>q. settled st name \<Longrightarrow> sub_ok st q name t"
  shows "tracks (cs @ [(name, t)]) st (T(name := due st name t))"
proof -
  obtain P where P: "own_ok P st"
    "\<And>n u. (n, u) \<in> set cs \<Longrightarrow> u \<noteq> Halt \<Longrightarrow> sub_ok st (P n) n u \<and> T n = due st n u"
    "\<And>n. \<not> pending cs n \<Longrightarrow> settled st n \<and> T n = routes st n" and o: "one_each cs"
    using tr by (auto simp: tracks_def)
  have away: "fst (cs ! j) \<noteq> name" if "j < length cs" "snd (cs ! j) \<noteq> Halt" for j
    using p that nth_mem [of j cs] by (auto simp: pending_def)
  have "one_each (cs @ [(name, t)])" using o away
    unfolding one_each_def by (auto simp: nth_append less_Suc_eq split: if_splits)
  moreover have "sub_ok st (P n) n u \<and> (T(name := due st name t)) n = due st n u"
    if "(n, u) \<in> set (cs @ [(name, t)])" "u \<noteq> Halt" for n u
    using that P(2) P(3) [OF p] c p by (auto simp: pending_def)
  moreover have "settled st n \<and> (T(name := due st name t)) n = routes st n"
    if "\<not> pending (cs @ [(name, t)]) n" for n
    using that P(3) [of n] t by (auto simp: pending_def)
  ultimately show ?thesis using P(1) unfolding tracks_def by blast
qed

lemma tracks_move:
  assumes tr: "tracks cs st T" and k: "k < length cs" and u: "cs ! k = (name, t)" "t \<noteq> Halt"
    and s: "sub_step t st = (t', st')"
  shows "tracks (cs[k := (name, t')]) st' T"
proof -
  obtain P where P: "own_ok P st"
    "\<And>n u. (n, u) \<in> set cs \<Longrightarrow> u \<noteq> Halt \<Longrightarrow> sub_ok st (P n) n u \<and> T n = due st n u"
    "\<And>n. \<not> pending cs n \<Longrightarrow> settled st n \<and> T n = routes st n" and o: "one_each cs"
    using tr by (auto simp: tracks_def)
  have ok: "sub_ok st (P name) name t" "T name = due st name t" using P(2) [of name t] k u nth_mem by fastforce+
  obtain q where q: "own_ok (P(name := q)) st'" "sub_ok st' q name t'" "due st' name t' = due st name t"
    and m: "\<And>m. m \<noteq> name \<Longrightarrow> same_event st st' P m" using sub_step_serial [OF P(1) ok(1) s] by metis
  have only: "n \<noteq> name" if "j < length cs" "j \<noteq> k" "cs ! j = (n, u)" "u \<noteq> Halt" for j n u
    using o k assms(3,4) that unfolding one_each_def by fastforce
  have mem: "(n = name \<and> u = t') \<or> (n \<noteq> name \<and> (n, u) \<in> set cs)"
    if "(n, u) \<in> set (cs[k := (name, t')])" "u \<noteq> Halt" for n u
  proof -
    note h = that
    from h(1) obtain j where j: "j < length cs" "cs[k := (name, t')] ! j = (n, u)"
      by (auto simp: in_set_conv_nth)
    show ?thesis
    proof (cases "j = k")
      case True
      then show ?thesis using j by simp
    next
      case False
      then have "cs ! j = (n, u)" using j by simp
      then show ?thesis using only [OF j(1) False _ h(2)] j(1) by (metis nth_mem)
    qed
  qed
  have rest: "(n, u) \<in> set (cs[k := (name, t')])" if "(n, u) \<in> set cs" "n \<noteq> name" for n u
    using that k assms(3) by (auto simp: in_set_conv_nth nth_list_update) (metis fst_conv)
  have "one_each (cs[k := (name, t')])"
    using o k assms(3,4) unfolding one_each_def by (auto simp: nth_list_update)
  moreover have "sub_ok st' ((P(name := q)) n) n u \<and> T n = due st' n u"
    if "(n, u) \<in> set (cs[k := (name, t')])" "u \<noteq> Halt" for n u
    using mem [OF that] q(2,3) ok(2) P(2) [of n u] that(2) same_event_ok [OF P(1) m, of n u] by auto
  moreover have "settled st' n \<and> T n = routes st' n" if n: "\<not> pending (cs[k := (name, t')]) n" for n
  proof (cases "n = name")
    case True
    have "(name, t') \<in> set (cs[k := (name, t')])" using k by (simp add: set_update_memI)
    then have "t' = Halt" using n True by (auto simp: pending_def)
    then show ?thesis using q(2,3) ok(2) True by (auto simp: sub_ok_def due_def)
  next
    case False
    then have "\<not> pending cs n" using n rest by (auto simp: pending_def)
    then show ?thesis using P(3) [of n] same_event_routes [OF P(1) m [OF False]] m [OF False]
      by (auto simp: settled_def same_event_def)
  qed
  ultimately show ?thesis using q(1) unfolding tracks_def by blast
qed

section \<open>Properties\<close>

text \<open>
  C14. Run one after the other, the store's operations are those of an event router: \<open>Register\<close>
  returns the fresh identifier and appends the handler to its event, \<open>Unregister\<close> removes
  exactly the named handler and drops an event left without handlers, other events are
  untouched, and \<open>Recv\<close> calls each handler of the message's event once, in registration order.
\<close>

theorem store_refines_router:
  assumes "store_inv st"
  shows "(case Store_Register name fn i st of
            (r, st') \<Rightarrow> r = i \<and> store_inv st' \<and>
              routes st' = (routes st)(name := routes st name @ [(i, fn)])) \<and>
    store_inv (Store_Unregister name i st) \<and>
    routes (Store_Unregister name i st) = (routes st)(name := filter (\<lambda>h. fst h \<noteq> i) (routes st name)) \<and>
    (slist (Store_Unregister name i st) name = None) = (filter (\<lambda>h. fst h \<noteq> i) (routes st name) = []) \<and>
    Store_Recv ctx evt st = map (\<lambda>(i, f). (f, ctx, Payload evt)) (routes st (Name evt))"
proof -
  have "store_inv (Store_Unregister name i st)" by (rule router.unregister_inv [OF assms])
  from store_inv_entry [OF this] show ?thesis
    using Store_Register_refines [OF assms] Store_Unregister_refines [OF assms]
    by (auto simp: Store_Recv_routes)
qed

theorem store_refines_router_witness:
  "Store_Recv (Background :: nat ctx) (zero_message\<lparr>Name := ''e'', Payload := [1]\<rparr>)
     (snd (Store_Register ''e'' 9 ''i'' Store_New)) = [(9, Background, [1])]"
proof -
  have "store_inv (snd (Store_Register ''e'' 9 ''i'' Store_New)) \<and>
      routes (snd (Store_Register ''e'' 9 ''i'' Store_New)) ''e'' = [(''i'', 9)]"
    using store_refines_router [OF store_inv_New, where name = "''e''" and fn = 9 and i = "''i''" and
        ctx = "Background :: nat ctx" and evt = zero_message]
    by (auto simp: routes_New case_prod_beta)
  then show ?thesis
    using store_refines_router [where st = "snd (Store_Register ''e'' 9 ''i'' Store_New)" and
        name = "''e''" and fn = 9 and i = "''j''" and ctx = "Background :: nat ctx" and evt = "zero_message\<lparr>Name := ''e'', Payload := [1]\<rparr>"] by simp
qed

text \<open>
  C15. Once an event has an entry, registrations may interleave in any way: when the callers
  have all returned, each event has exactly its former handlers and one for each caller that
  registered for it.
\<close>

theorem concurrent_Register_keeps_all:
  assumes "sub_run (map (\<lambda>(n, f, i). RLookup n f i) reqs, st) (ts', st')"
    and "\<forall>t \<in> set ts'. t = Halt"
    and "\<forall>(n, f, i) \<in> set reqs. slist st n \<noteq> None"
    and "store_inv st"
  shows "mset (routes st' name) =
    mset (routes st name) + mset (map (\<lambda>(n, f, i). (i, f)) (filter (\<lambda>(n, f, i). n = name) reqs))"
proof -
  let ?ts = "map (\<lambda>(n, f, i). RLookup n f i) reqs"
  have "\<forall>t \<in> set ?ts. existing_reg st t"
    using assms(3) by (auto simp: existing_reg_def)
  note r = existing_run [OF assms(1) this]
  have none_owed: "all_owed st' p ts' = {#}" for p
    unfolding all_owed_def using assms(2)
    by (induction ts') (auto simp: owed_def)
  show ?thesis
  proof (cases "slist st name")
    case None
    then have "filter (\<lambda>(n, f, i). n = name) reqs = []"
      using assms(3) by (auto simp: filter_empty_conv)
    then show ?thesis using None r by (simp add: routes_def)
  next
    case (Some p)
    have "slist st n = Some p \<longleftrightarrow> n = name" for n
      using Some assms(4) by (auto simp: store_inv_def)
    then have "all_owed st p ?ts =
        mset (map (\<lambda>(n, f, i). (i, f)) (filter (\<lambda>(n, f, i). n = name) reqs))"
      by (rule all_owed_regs)
    moreover have "present st' p = present st p + all_owed st p ?ts"
      using r [of p] none_owed [of p] by simp
    moreover have "slist st' name = Some p" using r Some by simp
    ultimately show ?thesis using Some by (simp add: routes_def present_def)
  qed
qed

text \<open>A store where the event \<open>e\<close> has one handler.\<close>

definition demo_store :: Store where
  "demo_store = snd (Store_Register ''e'' 1 ''a'' Store_New)"

lemma demo_store: "store_inv demo_store" "slist demo_store ''e'' = Some 0"
  "routes demo_store ''e'' = [(''a'', 1)]"
  using router.register_inv [OF store_inv_New]
  by (auto simp: demo_store_def store_ops Store_New_def routes_def zero_Sub_def)

theorem concurrent_Register_keeps_all_witness:
  "\<exists>st'. sub_run ([RLookup ''e'' 2 ''b'', RLookup ''e'' 3 ''c''], demo_store) ([Halt, Halt], st') \<and>
    mset (routes st' ''e'') = {#(''a'', 1), (''b'', 2), (''c'', 3)#}"
proof -
  obtain st' where "schedule [0, 1, 1, 0]
      ([RLookup ''e'' 2 ''b'', RLookup ''e'' 3 ''c''], demo_store) = Some ([Halt, Halt], st')"
    by (simp add: demo_store)
  then have r: "sub_run ([RLookup ''e'' 2 ''b'', RLookup ''e'' 3 ''c''], demo_store) ([Halt, Halt], st')"
    by (rule schedule_run)
  then show ?thesis
    using concurrent_Register_keeps_all [of "[(''e'', 2, ''b''), (''e'', 3, ''c'')]" demo_store
        "[Halt, Halt]" st' "''e''"] demo_store
    by (auto simp: add_mset_commute)
qed

text \<open>
  C37. The first registrations of an event race: two callers that both find no entry both store
  a new \<open>Sub\<close>, and there is an interleaving after which both calls have returned but the
  handler of the first is reachable from no event and never called.
\<close>

theorem concurrent_Register_loses_handler:
  "\<exists>st. sub_run ([RLookup n f i, RLookup n g j], Store_New) ([Halt, Halt], st) \<and>
    routes st n = [(j, g)]"
proof -
  obtain st where "schedule [0, 1, 0, 0, 1, 1] ([RLookup n f i, RLookup n g j], Store_New) =
      Some ([Halt, Halt], st)" and "routes st n = [(j, g)]"
    by (simp add: store_ops Store_New_def routes_def zero_Sub_def)
  then show ?thesis using schedule_run by blast
qed

text \<open>
  A cancelled subscription can take a new one with it: \<open>Unregister\<close> deletes the event after
  releasing the \<open>Sub\<close>'s lock, so a registration that comes in between returns its identifier
  but is not called.
\<close>

lemma concurrent_Unregister_loses_handler:
  "\<exists>st. sub_run ([ULookup n i, RLookup n g j], snd (Store_Register n f i Store_New)) ([Halt, Halt], st) \<and>
    routes st n = []"
proof -
  obtain st where "schedule [0, 0, 1, 1, 0]
      ([ULookup n i, RLookup n g j], snd (Store_Register n f i Store_New)) = Some ([Halt, Halt], st)"
    and "routes st n = []"
    by (simp add: store_ops Store_New_def routes_def zero_Sub_def)
  then show ?thesis using schedule_run by blast
qed

end
