(* ===== verification/Client_System.thy ===== *)
theory Client_System
  imports Client_Reset Broker_Lifecycle Client_Send Subs_Interleaving
begin

text \<open>
  The client together with the connections it launches: the goroutines of theory \<open>Client_Reset\<close> and,
  for every broker pointer, the sessions of theory \<open>Broker_Lifecycle\<close>, over one memory of \<open>Broker\<close>
  structs. A broker's callbacks (src/client/client.go, lines 192 to 196) are goroutine positions of
  the client: a session that calls one is blocked until it has ended, and a session that called
  \<open>ConnectFunc\<close> holds its broker's lock meanwhile (src/broker/broker.go, lines 177 to 183).
\<close>

section \<open>State\<close>

datatype role = Main | Reader

type_synonym caller = "nat \<times> nat \<times> role"

record 'c system =
  threads :: "rpc list"
  client :: Client
  sessions :: "nat \<Rightarrow> session list"
  heap :: md_store
  handled :: "(nat \<times> 'c ctx \<times> bytes) list"
  acks :: "(nat \<times> nat \<times> Message) list"
  callee :: "caller \<rightharpoonup> nat"
  asked :: "caller \<rightharpoonup> nat"
  tookover :: "nat set"
  subs :: "(string \<times> sub_pc) list"
  down :: bool

text \<open>
  \<open>callee\<close> is the goroutine position that a session waits for, \<open>asked\<close> the call of \<open>owerstaying\<close> whose
  answer it waits for, \<open>tookover\<close> the calls that answered yes, \<open>subs\<close> are the calls of \<open>Register\<close> and
  \<open>Unregister\<close> on the subscription store, each with its event, cut where they release a lock (theory
  \<open>Subs_Interleaving\<close>), and \<open>down\<close> holds after a panic.
\<close>

datatype sys_event =
    SClient revent
  | SAsk nat nat role                \<comment> \<open>a session calls \<open>OwerstayingFunc\<close>\<close>
  | SBroker nat bevent
  | SSub string nat string           \<comment> \<open>\<open>Sub\<close> is called: event, function, identifier drawn\<close>
  | SCancel string string            \<comment> \<open>the context of a subscription ends, \<open>Unregister\<close> is called\<close>
  | SSubStep nat                     \<comment> \<open>one of these calls goes on to its next lock\<close>
  | SRegister string string nat      \<comment> \<open>a waiting publisher\<close>
  | SUnregister string string

definition view :: "'c system \<Rightarrow> nat \<Rightarrow> bsys" where
  "view s p = \<lparr>brk = clMem (client s) p, sess = sessions s p, crashed = False\<rparr>"

definition put_view :: "nat \<Rightarrow> bsys \<Rightarrow> 'c system \<Rightarrow> 'c system" where
  "put_view p y s = s\<lparr>client := (client s)\<lparr>clMem := (clMem (client s))(p := brk y)\<rparr>,
     sessions := (sessions s)(p := sess y)\<rparr>"

section \<open>Who is blocked\<close>

definition ended :: "'c system \<Rightarrow> nat option \<Rightarrow> bool" where
  "ended s t = (case t of None \<Rightarrow> True | Some t \<Rightarrow> threads s ! t = Ended)"

text \<open>The session is in none of its callbacks.\<close>

definition free :: "'c system \<Rightarrow> caller \<Rightarrow> bool" where
  "free s w \<longleftrightarrow> ended s (callee s w) \<and> asked s w = None"

text \<open>Where the session reaches \<open>restart\<close>: \<open>OwerstayingFunc\<close> has answered \<open>over\<close>, or is not asked.\<close>

definition answered :: "'c system \<Rightarrow> caller \<Rightarrow> bool \<Rightarrow> bool" where
  "answered s w over \<longleftrightarrow> ended s (callee s w) \<and>
     (if asks_overstay (clMem (client s) (fst w)) then
        (case asked s w of
           None \<Rightarrow> False
         | Some t \<Rightarrow> threads s ! t = Ended \<and> (over \<longleftrightarrow> t \<in> tookover s))
      else asked s w = None)"

definition in_connect :: "rpc \<Rightarrow> bool" where
  "in_connect t \<longleftrightarrow> (case t of CGet i \<Rightarrow> True | CSet b \<Rightarrow> True | _ \<Rightarrow> False)"

text \<open>Some session of the broker is inside \<open>ConnectFunc\<close> and holds the broker's lock.\<close>

definition lock_held :: "'c system \<Rightarrow> nat \<Rightarrow> bool" where
  "lock_held s p \<longleftrightarrow> (\<exists>k < length (sessions s p).
     case callee s (p, k, Reader) of None \<Rightarrow> False | Some t \<Rightarrow> in_connect (threads s ! t))"

definition nested_done :: "'c system \<Rightarrow> nat \<Rightarrow> nat \<Rightarrow> bool" where
  "nested_done s p k =
     (case (s_main (sessions s p ! k), s_reader (sessions s p ! k)) of
        (MNested n, _) \<Rightarrow> ended s (callee s (p, n, Main))
      | (_, RNested n) \<Rightarrow> ended s (callee s (p, n, Main))
      | _ \<Rightarrow> True)"

definition permitted :: "'c system \<Rightarrow> nat \<Rightarrow> bevent \<Rightarrow> bool" where
  "permitted s p ev =
     (case ev of
        EvStart \<Rightarrow> \<not> lock_held s p
      | EvDialFailed k \<Rightarrow> free s (p, k, Main)
      | EvDialPanic k \<Rightarrow> free s (p, k, Main)
      | EvChannelFailed k over \<Rightarrow> answered s (p, k, Main) over
      | EvChannelOpen k \<Rightarrow> free s (p, k, Main)
      | EvReady k \<Rightarrow> free s (p, k, Reader) \<and> \<not> lock_held s p
      | EvReset k uuid now \<Rightarrow> free s (p, k, Reader) \<and> \<not> lock_held s p
      | EvMessage k msg \<Rightarrow> free s (p, k, Reader)
      | EvRecvError k c over \<Rightarrow>
          (if c = InvalidArgument \<or> c = Unauthenticated then free s (p, k, Reader)
           else answered s (p, k, Reader) over)
      | EvTimer k \<Rightarrow> \<not> lock_held s p
      | EvSleepCancelled k \<Rightarrow> True
      | EvReturned k \<Rightarrow> nested_done s p k
      | EvWake k \<Rightarrow> \<not> lock_held s p
      | EvDone \<Rightarrow> False)"

text \<open>
  \<open>c.brokers.Done()\<close> visits every stored broker, in an order \<open>ks\<close>, and takes its lock.
\<close>

definition stored :: "'c system \<Rightarrow> nat \<Rightarrow> bool" where
  "stored s p \<longleftrightarrow> (case clBrokers (client s) of
     None \<Rightarrow> False
   | Some st \<Rightarrow> brokers st (bID (clMem (client s) p)) = Some p)"

definition covers :: "string list \<Rightarrow> 'c system \<Rightarrow> bool" where
  "covers ks s \<longleftrightarrow> (\<forall>p < clFresh (client s). stored s p \<longrightarrow> bID (clMem (client s) p) \<in> set ks)"

definition can_visit :: "string \<Rightarrow> 'c system \<Rightarrow> bool" where
  "can_visit i s \<longleftrightarrow> (case clBrokers (client s) of
     None \<Rightarrow> True
   | Some st \<Rightarrow> (case brokers st i of None \<Rightarrow> True | Some p \<Rightarrow> \<not> lock_held s p))"

definition client_permitted :: "'c system \<Rightarrow> revent \<Rightarrow> bool" where
  "client_permitted s ev =
     (case ev of
        Spawn t \<Rightarrow> t = NextCall
      | Step k ks n \<Rightarrow>
          (case threads s ! k of
             SStop w \<Rightarrow> covers ks s
           | SVisit w (i # js) \<Rightarrow> can_visit i s
           | _ \<Rightarrow> True)
      | _ \<Rightarrow> True)"

section \<open>Steps\<close>

text \<open>A session calls back: the client's goroutine position is a new one.\<close>

definition call_back :: "caller \<Rightarrow> rpc \<Rightarrow> 'c system \<Rightarrow> 'c system" where
  "call_back w t s = s\<lparr>threads := threads s @ [t], callee := (callee s)(w \<mapsto> length (threads s))\<rparr>"

text \<open>\<open>RecvFunc\<close>: the broker wraps the message and the client hands it to handlers and waiters.\<close>

definition receive :: "'c codec \<Rightarrow> Message \<Rightarrow> 'c system \<Rightarrow> 'c system" where
  "receive cd msg s =
     (let ((ctx, msg), h) = handleRecv cd msg (heap s);
          (calls, c) = Client_recv ctx msg (client s)
      in s\<lparr>heap := h, client := c, handled := handled s @ calls\<rparr>)"

definition event_caller :: "nat \<Rightarrow> bevent \<Rightarrow> caller" where
  "event_caller p ev =
     (case ev of
        EvReady k \<Rightarrow> (p, k, Reader) | EvReset k uuid now \<Rightarrow> (p, k, Reader)
      | EvRecvError k c over \<Rightarrow> (p, k, Reader) | EvChannelFailed k over \<Rightarrow> (p, k, Main)
      | EvWake k \<Rightarrow> (p, k, Main) | _ \<Rightarrow> (p, 0, Main))"

definition sys_label :: "'c codec \<Rightarrow> caller \<Rightarrow> blabel \<Rightarrow> 'c system \<Rightarrow> 'c system" where
  "sys_label cd w l s =
     (let i = bID (clMem (client s) (fst w)) in
      case l of
        LConnect \<Rightarrow> call_back w (CGet i) s
      | LDisconnect \<Rightarrow> call_back w (DDelete i) s
      | LReset \<Rightarrow> call_back w ResetCall s
      | LPanic \<Rightarrow> s\<lparr>down := True\<rparr>
      | LSend strm msg \<Rightarrow> s\<lparr>acks := acks s @ [(fst w, strm, msg)]\<rparr>
      | LRecv msg \<Rightarrow> receive cd msg s
      | LOverstay over \<Rightarrow> s\<lparr>asked := (asked s)(w := None)\<rparr>)"

fun sys_labels :: "'c codec \<Rightarrow> caller \<Rightarrow> blabel list \<Rightarrow> 'c system \<Rightarrow> 'c system" where
  "sys_labels cd w [] s = s"
| "sys_labels cd w (l # ls) s = sys_labels cd w ls (sys_label cd w l s)"

definition at_restart :: "session \<Rightarrow> role \<Rightarrow> bool" where
  "at_restart x r = (case r of Main \<Rightarrow> s_main x = MDial | Reader \<Rightarrow> s_reader x = RReading)"

text \<open>The last step of \<open>owerstaying\<close> when it took over: it answers yes.\<close>

definition took_over :: "rpc \<Rightarrow> bool" where
  "took_over t \<longleftrightarrow> (case t of SLaunch w auth pid bks \<Rightarrow> w = ByOverstay \<and> bks = [] | _ \<Rightarrow> False)"

definition sys_client :: "start_fun \<Rightarrow> revent \<Rightarrow> 'c system \<Rightarrow> 'c system option" where
  "sys_client start ev s =
     (if client_permitted s ev then
        (case rexec start ev (threads s, client s) of
           None \<Rightarrow> None
         | Some (ts, c) \<Rightarrow>
             Some (s\<lparr>threads := ts, client := c,
               tookover := (case ev of
                   Step k ks n \<Rightarrow> if took_over (threads s ! k) then insert k (tookover s) else tookover s
                 | _ \<Rightarrow> tookover s)\<rparr>))
      else None)"

definition sys_broker :: "'c codec \<Rightarrow> nat \<Rightarrow> bevent \<Rightarrow> 'c system \<Rightarrow> 'c system option" where
  "sys_broker cd p ev s =
     (if p < clFresh (client s) \<and> permitted s p ev then
        (case bexec ev (view s p) of
           None \<Rightarrow> None
         | Some (ls, y) \<Rightarrow> Some (sys_labels cd (event_caller p ev) ls (put_view p y s)))
      else None)"

definition sys_ask :: "nat \<Rightarrow> nat \<Rightarrow> role \<Rightarrow> 'c system \<Rightarrow> 'c system option" where
  "sys_ask p k r s =
     (if p < clFresh (client s) \<and> k < length (sessions s p) \<and> at_restart (sessions s p ! k) r \<and>
         free s (p, k, r) \<and> asks_overstay (clMem (client s) p)
      then Some (s\<lparr>threads := threads s @ [OCall],
             asked := (asked s)((p, k, r) \<mapsto> length (threads s))\<rparr>)
      else None)"

text \<open>\<open>Register\<close> and \<open>Unregister\<close> go from lock to lock.\<close>

definition sub_call :: "string \<Rightarrow> sub_pc \<Rightarrow> 'c system \<Rightarrow> 'c system" where
  "sub_call name t s = s\<lparr>subs := subs s @ [(name, t)]\<rparr>"

definition sub_move :: "nat \<Rightarrow> 'c system \<Rightarrow> 'c system option" where
  "sub_move k s =
     (if k < length (subs s) \<and> snd (subs s ! k) \<noteq> Halt then
        (let (t, st) = sub_step (snd (subs s ! k)) (SubsStore (client s))
         in Some (s\<lparr>client := (client s)\<lparr>SubsStore := st\<rparr>, subs := (subs s)[k := (fst (subs s ! k), t)]\<rparr>))
      else None)"

text \<open>
  The scheduler: every event is a step of one goroutine. It models no code of its own; what a step does
  is said by the definitions it dispatches to.
\<close>

fun sys_exec :: "start_fun \<Rightarrow> 'c codec \<Rightarrow> sys_event \<Rightarrow> 'c system \<Rightarrow> 'c system option" where
  "sys_exec start cd (SClient ev) s = sys_client start ev s"
| "sys_exec start cd (SAsk p k r) s = sys_ask p k r s"
| "sys_exec start cd (SBroker p ev) s = sys_broker cd p ev s"
| "sys_exec start cd (SSub name fn uuid) s = Some (sub_call name (RLookup name fn uuid) s)"
| "sys_exec start cd (SCancel name i) s = Some (sub_call name (ULookup name i) s)"
| "sys_exec start cd (SSubStep k) s = sub_move k s"
| "sys_exec start cd (SRegister event i ch) s = Some (s\<lparr>client := RegisterCb event i ch (client s)\<rparr>)"
| "sys_exec start cd (SUnregister event i) s = Some (s\<lparr>client := UnregisterCb event i (client s)\<rparr>)"

text \<open>\<open>pubsub.New\<close> returns the client and launches its \<open>Start\<close>.\<close>

definition sys_init :: "Client \<Rightarrow> 'c system" where
  "sys_init c =
     \<lparr>threads = [SMake ByNew], client = c, sessions = (\<lambda>p. []), heap = empty_store, handled = [], acks = [],
      callee = Map.empty, asked = Map.empty, tookover = {}, subs = [], down = False\<rparr>"

inductive sreach :: "start_fun \<Rightarrow> 'c codec \<Rightarrow> Client \<Rightarrow> 'c system \<Rightarrow> bool" for start cd c0 where
  sreach_init: "sreach start cd c0 (sys_init c0)"
| sreach_step: "sreach start cd c0 s \<Longrightarrow> \<not> down s \<Longrightarrow> sys_exec start cd ev s = Some s' \<Longrightarrow> sreach start cd c0 s'"

section \<open>Pointers\<close>

text \<open>Every pointer the client holds is allocated, and the store is keyed by identifier.\<close>

definition ptr_ok :: "Client \<Rightarrow> bool" where
  "ptr_ok c \<longleftrightarrow>
     (\<forall>st. clBrokers c = Some st \<longrightarrow> bstore_inv (clMem c) st \<and> (\<forall>b \<in> ran (brokers st). b < clFresh c)) \<and>
     (\<forall>b \<in> set (onlineBrokers c). b < clFresh c)"

text \<open>The online flag agrees with the list.\<close>

definition flag_ok :: "Client \<Rightarrow> bool" where
  "flag_ok c \<longleftrightarrow> (online c \<longleftrightarrow> onlineBrokers c \<noteq> [])"

text \<open>
  What the client's goroutines do to the memory: they allocate unstarted brokers and cancel
  connections, and leave subscriptions and waiting callers alone.
\<close>

definition grows :: "Client \<Rightarrow> Client \<Rightarrow> bool" where
  "grows c c' \<longleftrightarrow>
     clFresh c \<le> clFresh c' \<and> SubsStore c' = SubsStore c \<and> Callbacks c' = Callbacks c \<and>
     (\<forall>p < clFresh c. clMem c' p = clMem c p \<or> clMem c' p = Broker_Done (clMem c p)) \<and>
     (\<forall>p. clFresh c \<le> p \<longrightarrow> p < clFresh c' \<longrightarrow> unstarted (clMem c' p)) \<and>
     (ptr_ok c \<longrightarrow> ptr_ok c') \<and> (clBrokers c \<noteq> None \<longrightarrow> clBrokers c' \<noteq> None) \<and>
     (flag_ok c \<longrightarrow> flag_ok c')"

lemma unstarted_Done: "unstarted b \<Longrightarrow> Broker_Done b = b"
  by (auto simp: unstarted_def new_broker_def broker_defs)

lemma grows_trans:
  assumes "grows c d" and "grows d e"
  shows "grows c e"
proof -
  have "clMem e p = clMem c p \<or> clMem e p = Broker_Done (clMem c p)" if "p < clFresh c" for p
  proof -
    have "p < clFresh d" using assms(1) that by (simp add: grows_def)
    then show ?thesis using assms that unfolding grows_def by (metis Broker_Done_idem)
  qed
  moreover have "unstarted (clMem e p)" if "clFresh c \<le> p" "p < clFresh e" for p
  proof (cases "p < clFresh d")
    case True
    then have "unstarted (clMem d p)" using assms(1) that(1) by (simp add: grows_def)
    then show ?thesis using assms(2) True unstarted_Done unfolding grows_def by metis
  next
    case False
    then show ?thesis using assms(2) that(2) by (simp add: grows_def)
  qed
  ultimately show ?thesis using assms unfolding grows_def by auto
qed

lemma grows_same:
  assumes "clFresh c' = clFresh c" and "clMem c' = clMem c" and "SubsStore c' = SubsStore c"
    and "Callbacks c' = Callbacks c" and "clBrokers c' = clBrokers c"
    and "\<And>b. ptr_ok c \<Longrightarrow> b \<in> set (onlineBrokers c') \<Longrightarrow> b < clFresh c"
    and "flag_ok c \<Longrightarrow> flag_ok c'"
  shows "grows c c'"
proof -
  have "ptr_ok c'" if "ptr_ok c"
    using that assms(6) [OF that] assms(1,2,5) unfolding ptr_ok_def by metis
  then show ?thesis unfolding grows_def using assms(1-5,7) by simp
qed

lemma grows_delete: "grows c (Client_delete i c)"
  by (rule grows_same) (auto simp: Client_delete_def Let_def ptr_ok_def flag_ok_def)

lemma grows_set: "b < clFresh c \<Longrightarrow> grows c (Client_set b c)"
  by (rule grows_same) (auto simp: Client_set_def Let_def ptr_ok_def flag_ok_def)

lemma grows_make_stop: "grows c (make_stop c)"
  by (rule grows_same) (auto simp: make_stop_def ptr_ok_def flag_ok_def)

lemma grows_flag: "grows c (c\<lparr>resetProcess := x\<rparr>)" "grows c (c\<lparr>overstayProcess := x\<rparr>)" "grows c c"
    "grows c (c\<lparr>overstayProcess := x, resetProcess := y\<rparr>)"
  by (rule grows_same; auto simp: ptr_ok_def flag_ok_def)+

lemma grows_next: "grows c (snd (nextBroker c))"
  using nextBroker_frame [of c] by (auto intro!: grows_same simp: ptr_ok_def flag_ok_def)

lemma grows_set_up: "grows c (set_up pid c)"
  by (auto simp: grows_def set_up_def Let_def ptr_ok_def flag_ok_def bstore_inv_New BrokerStore_New_def bstore_inv_def)

lemma grows_Done:
  assumes "brokers_Done ks c = Returns c'" and "ptr_ok c"
  shows "grows c c'"
proof -
  from assms(1) obtain st where st: "clBrokers c = Some st" by (auto simp: brokers_Done_def split: option.splits)
  with assms(2) have inv: "bstore_inv (clMem c) st" by (simp add: ptr_ok_def)
  let ?mem = "\<lambda>b. if \<exists>k \<in> set ks. brokers st k = Some b then Broker_Done (clMem c b) else clMem c b"
  let ?st = "st\<lparr>brokers := \<lambda>k. if k \<in> set ks then None else brokers st k\<rparr>"
  have c': "c' = c\<lparr>clMem := ?mem, clBrokers := Some ?st\<rparr>"
    using assms(1) st by (simp add: brokers_Done_def BrokerStore_Done_spec [OF inv])
  have "bstore_inv ?mem ?st" using inv by (auto simp: bstore_inv_def)
  moreover have "\<forall>b \<in> ran (brokers ?st). b < clFresh c"
    using assms(2) st by (auto simp: ptr_ok_def ran_def split: if_splits)
  ultimately show ?thesis using assms(2) by (simp add: c' grows_def ptr_ok_def flag_ok_def)
qed

lemma grows_launch:
  assumes "unstarted bk" and "d = c\<lparr>clMem := (clMem c)(clFresh c := bk), clFresh := Suc (clFresh c)\<rparr>"
  shows "grows c (d\<lparr>clBrokers := map_option (BrokerStore_Set (clFresh c) (clMem d)) (clBrokers d)\<rparr>)"
proof -
  have "ptr_ok (d\<lparr>clBrokers := map_option (BrokerStore_Set (clFresh c) (clMem d)) (clBrokers d)\<rparr>)" if "ptr_ok c"
  proof -
    have "bstore_inv (clMem d) (BrokerStore_Set (clFresh c) (clMem d) st) \<and>
        (\<forall>b \<in> ran (brokers (BrokerStore_Set (clFresh c) (clMem d) st)). b < clFresh d)"
      if st: "clBrokers c = Some st" for st
    proof -
      have old: "bstore_inv (clMem c) st" "\<And>k b. brokers st k = Some b \<Longrightarrow> b < clFresh c"
        using \<open>ptr_ok c\<close> st by (auto simp: ptr_ok_def ran_def)
      then have "bstore_inv (clMem d) st" by (fastforce simp: bstore_inv_def assms(2))
      then have "bstore_inv (clMem d) (BrokerStore_Set (clFresh c) (clMem d) st)" by (rule bstore_inv_Set)
      moreover have "\<forall>b \<in> ran (brokers (BrokerStore_Set (clFresh c) (clMem d) st)). b < clFresh d"
        using old(2) by (auto simp: BrokerStore_Set_def ran_def assms(2) less_Suc_eq split: if_splits)
      ultimately show ?thesis by blast
    qed
    then show ?thesis using that by (auto simp: ptr_ok_def assms(2))
  qed
  then show ?thesis using assms(1) by (auto simp: grows_def assms(2) less_Suc_eq flag_ok_def)
qed

section \<open>What \<open>Start\<close> leaves\<close>

text \<open>
  JSON sets the exported fields of a broker and leaves the connection state at its zero values, as
  \<open>encoding/json\<close> documents for unexported fields.
\<close>

definition decodes_fresh :: "(bytes \<Rightarrow> Broker option list Response result) \<Rightarrow> bool" where
  "decodes_fresh dec \<longleftrightarrow> (\<forall>body res bk. dec body = Inr res \<longrightarrow> Some bk \<in> set (rsData res) \<longrightarrow>
     (\<exists>i host port ins. bk = new_broker i host port ins))"

definition fresh_broker :: "Broker \<Rightarrow> bool" where
  "fresh_broker bk \<longleftrightarrow> (\<exists>i host port ins. bk = new_broker i host port ins)"

definition sound_start :: "start_fun \<Rightarrow> bool" where
  "sound_start start \<longleftrightarrow> (\<forall>n c pid bks bk. start n c = Some (pid, bks) \<longrightarrow> Some bk \<in> set bks \<longrightarrow> fresh_broker bk)"

lemma unstarted_with_cert: "unstarted (with_cert certs (new_broker i host port ins))"
proof -
  have "new_broker i host port ins = SetCertPath [] (new_broker i host port ins)"
    by (simp add: SetCertPath_def new_broker_def)
  then show ?thesis unfolding unstarted_def with_cert_def by (metis option.exhaust option.simps(4,5))
qed

lemma grows_launch_one:
  assumes "fresh_broker bk"
  shows "grows c (fst (launch_one auth pid bk c))"
proof -
  let ?bk = "with_cert (Certs c) bk"
  let ?d = "c\<lparr>clMem := (clMem c)(clFresh c := ?bk), clFresh := Suc (clFresh c)\<rparr>"
  have "unstarted ?bk" using assms by (auto simp: fresh_broker_def unstarted_with_cert)
  from grows_launch [OF this, of ?d] show ?thesis by (simp add: launch_one_def Let_def)
qed

lemma Start_sound:
  assumes "decodes_fresh dec"
  shows "sound_start (start_in url_parse enc dec hostname envs uuid)"
  unfolding sound_start_def
proof (intro allI impI)
  fix n c pid bks bk
  assume "start_in url_parse enc dec hostname envs uuid n c = Some (pid, bks)" and bk: "Some bk \<in> set bks"
  then obtain ch slept where
    req: "Request url_parse enc dec ch (request_options c) (envs n) = Some (Inr bks, slept)"
    by (auto simp: start_in_def answered_request_def split: outcome.splits option.splits sum.splits prod.splits)
  from request_loop_result [OF req [unfolded Request_def]] obtain m where
    "request_turn url_parse enc dec ch (request_options c) (envs n m) = Finish (Inr bks)" by auto
  then obtain body res where "dec body = Inr res" "bks = rsData res"
    by (auto simp: request_turn_Finish accept_response_Inr dest!: sym [of "Inr bks"])
  then show "fresh_broker bk" using assms bk by (auto simp: decodes_fresh_def fresh_broker_def)
qed

section \<open>Steps of the client\<close>

text \<open>A goroutine position holds only allocated pointers; a new one is no wait for a store.\<close>

definition thread_ok :: "Client \<Rightarrow> rpc \<Rightarrow> bool" where
  "thread_ok c t \<longleftrightarrow>
     (case t of
        CSet b \<Rightarrow> b < clFresh c
      | SLaunch w auth pid bks \<Rightarrow> (\<forall>bk. Some bk \<in> set bks \<longrightarrow> fresh_broker bk)
      | _ \<Rightarrow> True)"

lemma thread_ok_simps [simp]:
  "thread_ok c Ended" "thread_ok c DCheck" "thread_ok c DSignal" "thread_ok c (DSend ch)" "thread_ok c RSelect" "thread_ok c (RWait ch)"
  "thread_ok c (SStop w)" "thread_ok c (SVisit w js)" "thread_ok c (SMake w)" "thread_ok c (SRequest w)"
  "thread_ok c NextCall" "thread_ok c OCall" "thread_ok c ResetCall" "thread_ok c (CGet i)" "thread_ok c (DDelete i)"
  "thread_ok c (CSet b) = (b < clFresh c)"
  by (simp_all add: thread_ok_def)

lemma thread_ok_grows: "thread_ok c t \<Longrightarrow> grows c c' \<Longrightarrow> thread_ok c' t"
  by (auto simp: thread_ok_def grows_def split: rpc.splits)

lemma rmove_grows:
  assumes m: "rmove start ks n ts c t t' c' new" and st: "sound_start start" and ok: "ptr_ok c" "thread_ok c t"
  shows "grows c c' \<and> thread_ok c' t' \<and> (\<forall>u \<in> set new. thread_ok c' u)"
  using m
proof cases
  case (known st i b)
  then have "b \<in> ran (brokers st)" by (auto simp: BrokerStore_Get_def ran_def)
  then show ?thesis using known ok(1) by (auto simp: ptr_ok_def grows_flag)
next
  case (request pid bks w)
  then show ?thesis using st unfolding sound_start_def by (auto simp: thread_ok_def grows_set_up)
next
  case (launch w auth pid bk bks)
  then show ?thesis using ok(2) by (auto simp: thread_ok_def grows_launch_one)
qed (use ok in \<open>auto simp: grows_flag grows_delete grows_next grows_make_stop intro: grows_set grows_Done\<close>)

lemma rstep_grows:
  assumes st: "sound_start start" and ok: "ptr_ok c" "thread_ok c (ts ! k)" and k: "k < length ts"
    and step: "rstep start k ks n (ts, c) = Some (ts', c')"
  shows "grows c c' \<and> (\<forall>t \<in> set ts'. t \<in> set ts \<or> thread_ok c' t)"
proof -
  obtain t new where m: "rmove start ks n ts c (ts ! k) t c' new" and ts': "ts' = ts[k := t] @ new"
    using step k by (auto elim: rstepE)
  show ?thesis using rmove_grows [OF m st ok] upd_mem by (fastforce simp: ts')
qed

lemma rexec_grows:
  assumes st: "sound_start start" and ok: "ptr_ok c" "\<forall>t \<in> set ts. thread_ok c t"
    and step: "rexec start ev (ts, c) = Some (ts', c')"
  shows "grows c c' \<and> (\<forall>t \<in> set ts'. thread_ok c' t)"
proof -
  have keep: ?thesis if "grows c c'" "\<forall>t \<in> set ts'. t \<in> set ts \<or> thread_ok c' t"
    using that ok(2) thread_ok_grows by blast
  show ?thesis
  proof (cases ev)
    case (Spawn t)
    with step have "c' = c" "ts' = ts @ [t]" "entry t" by (auto split: if_splits)
    moreover have "thread_ok c t" using \<open>entry t\<close> by (cases t) (simp_all add: entry_def)
    ultimately show ?thesis using ok(2) by (auto simp: grows_flag)
  next
    case (Step k ks n)
    with step have k: "k < length ts" and "rstep start k ks n (ts, c) = Some (ts', c')" by (auto split: if_splits)
    then show ?thesis using rstep_grows [OF st ok(1) _ k] ok(2) keep by (meson nth_mem)
  next
    case (Timer k)
    with step have "c' = c" "ts' = ts[k := SStop ByReset]" by (auto simp: go_def split: if_splits rpc.splits)
    moreover from this have "t \<in> set ts \<or> t = SStop ByReset" if "t \<in> set ts'" for t using upd_mem that by metis
    ultimately show ?thesis by (intro keep) (simp add: grows_flag, metis thread_ok_simps(7))
  next
    case (Sync k j)
    with step have "c' = c" "ts' = ts[k := Ended, j := SStop ByReset]"
      by (auto simp: go_def split: if_splits rpc.splits)
    moreover from this have "t \<in> set ts \<or> t = SStop ByReset \<or> t = Ended" if "t \<in> set ts'" for t
      using upd_mem that by metis
    ultimately show ?thesis by (intro keep) (simp add: grows_flag, metis thread_ok_simps(1,7))
  qed
qed

section \<open>Steps of a broker\<close>

text \<open>A broker keeps its identifier, whatever its goroutines do.\<close>

lemma restart_bID: "restart over b = (b', r) \<Longrightarrow> bID b' = bID b"
  by (auto simp: restart_def restart_tail_def Let_def split: if_splits option.splits)

lemma handleError_bID: "handleError c over b = (b', r) \<Longrightarrow> bID b' = bID b"
  by (cases c) (auto simp: handleError_def split: prod.splits dest: restart_bID)

lemma bID_simps [simp]:
  "bID (cancel_ctx c b) = bID b" "bID (on_ready k b) = bID b" "bID (Start_end b) = bID b"
  "bID (snd (Start_begin b)) = bID b"
  by (simp_all add: broker_defs Let_def split: option.split)

lemma brk_set [simp]: "brk (set_main k m y) = brk y" "brk (set_reader k r y) = brk y"
  by (simp_all add: set_main_def set_reader_def)

lemma bexec_bID:
  assumes "bexec ev y = Some (ls, y')"
  shows "bID (brk y') = bID (brk y)"
  using assms
  by (cases ev)
    (auto simp: begin_session_def end_reader_def initResetProcess_def Let_def
      split: if_splits prod.splits restart_result.splits option.splits main_pc.splits reader_pc.splits
        outcome.splits dest: restart_bID handleError_bID)

section \<open>The invariant of the whole\<close>

text \<open>
  Pointers are allocated and typed: an online list that agrees with its flag, connections whose sessions fit their struct, none for unallocated addresses. Before the
  first \<open>Start\<close> has got its answer there is no store of brokers, no broker, and no goroutine that would
  need one.
\<close>

definition quiet :: "rpc \<Rightarrow> bool" where
  "quiet t \<longleftrightarrow> (case t of NextCall \<Rightarrow> True | Ended \<Rightarrow> True | SMake w \<Rightarrow> w = ByNew | SRequest w \<Rightarrow> w = ByNew | _ \<Rightarrow> False)"

definition sys_inv :: "'c system \<Rightarrow> bool" where
  "sys_inv s \<longleftrightarrow>
     flag_ok (client s) \<and> ptr_ok (client s) \<and> locks_ok (threads s) \<and> (\<forall>t \<in> set (threads s). thread_ok (client s) t) \<and>
     (\<forall>p < clFresh (client s). bsys_inv (view s p)) \<and>
     (\<forall>p. clFresh (client s) \<le> p \<longrightarrow> sessions s p = []) \<and>
     (clBrokers (client s) = None \<longrightarrow> clFresh (client s) = 0 \<and> (\<forall>t \<in> set (threads s). quiet t))"

lemma sys_invI:
  assumes "flag_ok (client s)" and "ptr_ok (client s)" and "locks_ok (threads s)"
    and "\<And>t. t \<in> set (threads s) \<Longrightarrow> thread_ok (client s) t"
    and "\<And>p. p < clFresh (client s) \<Longrightarrow> bsys_inv (view s p)"
    and "\<And>p. clFresh (client s) \<le> p \<Longrightarrow> sessions s p = []"
    and "clBrokers (client s) = None \<Longrightarrow> clFresh (client s) = 0 \<and> (\<forall>t \<in> set (threads s). quiet t)"
  shows "sys_inv s"
  using assms unfolding sys_inv_def by blast

lemma sys_invD:
  assumes "sys_inv s"
  shows "flag_ok (client s)" and "ptr_ok (client s)"
    and "t \<in> set (threads s) \<Longrightarrow> thread_ok (client s) t" and "locks_ok (threads s)"
    and "p < clFresh (client s) \<Longrightarrow> bsys_inv (view s p)"
    and "clFresh (client s) \<le> p \<Longrightarrow> sessions s p = []"
    and "clBrokers (client s) = None \<Longrightarrow> clFresh (client s) = 0"
    and "clBrokers (client s) = None \<Longrightarrow> t \<in> set (threads s) \<Longrightarrow> quiet t"
  using assms unfolding sys_inv_def by blast+

lemma bsys_inv_view:
  "bsys_inv (view s p) \<longleftrightarrow> bsys_inv \<lparr>brk = clMem (client s) p, sess = sessions s p, crashed = x\<rparr>"
  by (simp add: view_def bsys_inv_def)

lemma bsys_inv_unstarted: "unstarted b \<Longrightarrow> bsys_inv \<lparr>brk = b, sess = [], crashed = False\<rparr>"
  using breach_inv [OF breach_init, of b] by (simp add: bsys_init_def)

lemma grows_views:
  assumes inv: "sys_inv s" and g: "grows (client s) c"
  shows "p < clFresh c \<Longrightarrow> bsys_inv \<lparr>brk = clMem c p, sess = sessions s p, crashed = False\<rparr>"
    and "clFresh c \<le> p \<Longrightarrow> sessions s p = []"
proof -
  show "clFresh c \<le> p \<Longrightarrow> sessions s p = []" using sys_invD(6) [OF inv] g by (simp add: grows_def)
  assume p: "p < clFresh c"
  show "bsys_inv \<lparr>brk = clMem c p, sess = sessions s p, crashed = False\<rparr>"
  proof (cases "p < clFresh (client s)")
    case True
    then have "bsys_inv (view s p)" by (rule sys_invD(5) [OF inv])
    with bexec_inv_rest(2) [OF this]
    have "bsys_inv (view s p)" "bsys_inv ((view s p)\<lparr>brk := Broker_Done (clMem (client s) p)\<rparr>)"
      by (simp_all add: view_def)
    moreover have "clMem c p = clMem (client s) p \<or> clMem c p = Broker_Done (clMem (client s) p)"
      using g True by (simp add: grows_def)
    ultimately show ?thesis by (auto simp: view_def)
  next
    case False
    then have "sessions s p = []" "unstarted (clMem c p)"
      using sys_invD(6) [OF inv] g p by (simp_all add: grows_def)
    then show ?thesis using bsys_inv_unstarted by simp
  qed
qed

lemma sys_inv_spawn:
  assumes "sys_inv s" and "entry t" and "clBrokers (client s) \<noteq> None"
  shows "sys_inv (s\<lparr>threads := threads s @ [t], callee := f, asked := g\<rparr>)"
proof -
  have "thread_ok c t" for c using assms(2) by (cases t) (simp_all add: entry_def)
  moreover have "locks_ok (threads s @ [t])"
    using assms(2) sys_invD(4) [OF assms(1)] by (intro locks_ok_append) (auto simp: entry_def split: rpc.splits)
  ultimately show ?thesis
    using sys_invD [OF assms(1)] assms(3) by (intro sys_invI) (auto simp: view_def)
qed

text \<open>Fields that carry no pointer.\<close>

lemma sys_inv_same:
  assumes "sys_inv s" and "threads s' = threads s" and "sessions s' = sessions s"
    and "online (client s') = online (client s)" and "onlineBrokers (client s') = onlineBrokers (client s)"
    and "clMem (client s') = clMem (client s)" and "clFresh (client s') = clFresh (client s)"
    and "clBrokers (client s') = clBrokers (client s)"
  shows "sys_inv s'"
proof -
  have "flag_ok (client s')" using sys_invD(1) [OF assms(1)] assms(4,5) by (simp add: flag_ok_def)
  moreover have "ptr_ok (client s')" using sys_invD(2) [OF assms(1)] assms(5-8) by (simp add: ptr_ok_def)
  moreover have "thread_ok (client s') t = thread_ok (client s) t" for t
    using assms(7) by (cases t) (simp_all add: thread_ok_def)
  ultimately show ?thesis
    using sys_invD(3-8) [OF assms(1)] assms(2,3,6-8) by (intro sys_invI) (auto simp: view_def)
qed

lemma sys_inv_receive:
  assumes "sys_inv s"
  shows "sys_inv (receive cd msg s)"
  by (rule sys_inv_same [OF assms]) (simp_all add: receive_def Client_recv_def split: prod.split)

lemma label_brokers: "clBrokers (client (sys_label cd w l s)) = clBrokers (client s)"
  by (auto simp: sys_label_def call_back_def receive_def Client_recv_def Let_def split: blabel.split prod.split)

lemma sys_inv_label:
  assumes "sys_inv s" and "clBrokers (client s) \<noteq> None"
  shows "sys_inv (sys_label cd w l s)"
proof (cases l)
  case (LRecv msg)
  with assms sys_inv_receive show ?thesis by (simp add: sys_label_def)
next
  case (LOverstay over)
  then show ?thesis using assms by (auto simp: sys_label_def sys_inv_def view_def)
next
  case LPanic
  then show ?thesis using assms by (auto simp: sys_label_def sys_inv_def view_def)
next
  case (LSend strm msg)
  then show ?thesis using assms by (auto simp: sys_label_def sys_inv_def view_def)
qed (use sys_inv_spawn [OF assms(1) _ assms(2), where g = "asked s"] assms(2) in
  \<open>simp_all add: sys_label_def call_back_def entry_def\<close>)

lemma sys_inv_labels: "sys_inv s \<Longrightarrow> clBrokers (client s) \<noteq> None \<Longrightarrow> sys_inv (sys_labels cd w ls s)"
  by (induction ls arbitrary: s) (simp_all add: sys_inv_label label_brokers)

lemma sys_inv_put:
  assumes inv: "sys_inv s" and p: "p < clFresh (client s)" and y: "bsys_inv y"
    and i: "bID (brk y) = bID (clMem (client s) p)"
  shows "sys_inv (put_view p y s)"
proof -
  let ?c = "(client s)\<lparr>clMem := (clMem (client s))(p := brk y)\<rparr>"
  have "flag_ok ?c" using sys_invD(1) [OF inv] by (simp add: flag_ok_def)
  moreover have "ptr_ok ?c"
    using sys_invD(2) [OF inv] i by (auto simp: ptr_ok_def bstore_inv_def)
  moreover have "thread_ok ?c t = thread_ok (client s) t" for t by (cases t) (simp_all add: thread_ok_def)
  moreover have "bsys_inv (view (put_view p y s) q)" if "q < clFresh (client s)" for q
    using sys_invD(5) [OF inv that] y by (simp add: view_def put_view_def bsys_inv_def)
  ultimately show ?thesis
    using sys_invD(3,4,6-8) [OF inv] p by (intro sys_invI) (auto simp: put_view_def)
qed

text \<open>Until the first \<open>Start\<close> has got its answer.\<close>

lemma quiet_rexec:
  assumes q: "\<And>t. t \<in> set ts \<Longrightarrow> quiet t" and sp: "\<And>t. ev = Spawn t \<Longrightarrow> t = NextCall"
    and ex: "rexec start ev (ts, c) = Some (ts', c')" and c: "clBrokers c' = None"
  shows "clBrokers c = None \<and> clFresh c' = clFresh c \<and> (\<forall>t \<in> set ts'. quiet t)"
proof -
  have move: "\<forall>u \<in> set (ts[k := t]). quiet u" if "quiet t" for k t using that q upd_mem by metis
  show ?thesis
  proof (cases ev)
    case (Spawn t)
    with ex sp q c show ?thesis by (auto simp: quiet_def split: if_splits)
  next
    case (Step k ks n)
    with ex have k: "k < length ts" and "rstep start k ks n (ts, c) = Some (ts', c')" by (auto split: if_splits)
    then obtain t new where m: "rmove start ks n ts c (ts ! k) t c' new" and ts': "ts' = ts[k := t] @ new"
      by (auto elim: rstepE)
    have qk: "quiet (ts ! k)" using q k by simp
    obtain x where nb: "snd (nextBroker c) = c\<lparr>currentSend := x\<rparr>" using nextBroker_frame by blast
    from m have "quiet t \<and> new = [] \<and> clBrokers c = None \<and> clFresh c' = clFresh c"
      by cases (use qk nb c in \<open>auto simp: quiet_def make_stop_def set_up_def Let_def split: if_splits\<close>)
    then show ?thesis using move by (auto simp: ts')
  next
    case (Timer k)
    with ex obtain ch where "k < length ts" "ts ! k = RWait ch" by (auto split: if_splits rpc.splits)
    then show ?thesis using q [of "ts ! k"] nth_mem [of k ts] by (simp add: quiet_def)
  next
    case (Sync k j)
    with ex obtain ch where "j < length ts" "ts ! j = RWait ch" by (auto split: if_splits rpc.splits)
    then show ?thesis using q [of "ts ! j"] nth_mem [of j ts] by (simp add: quiet_def)
  qed
qed

lemma sys_inv_grows:
  assumes inv: "sys_inv s" and g: "grows (client s) c" and "locks_ok ts"
    and "\<And>t. t \<in> set ts \<Longrightarrow> thread_ok c t"
    and "clBrokers c = None \<Longrightarrow> clFresh c = 0 \<and> (\<forall>t \<in> set ts. quiet t)"
  shows "sys_inv (s\<lparr>threads := ts, client := c, tookover := x\<rparr>)"
  using grows_views [OF inv g] sys_invD(1,2) [OF inv] g assms(3-5)
  by (intro sys_invI) (auto simp: view_def grows_def)

lemma sys_inv_sclient:
  assumes inv: "sys_inv s" and st: "sound_start start" and step: "sys_client start ev s = Some s'"
  shows "sys_inv s'"
proof -
  from step obtain ts c where ex: "rexec start ev (threads s, client s) = Some (ts, c)"
    and perm: "client_permitted s ev"
    and s': "\<exists>x. s' = s\<lparr>threads := ts, client := c, tookover := x\<rparr>"
    by (auto simp: sys_client_def split: if_splits option.splits)
  have g: "grows (client s) c" and t: "\<And>t. t \<in> set ts \<Longrightarrow> thread_ok c t"
    using rexec_grows [OF st sys_invD(2) [OF inv] _ ex] sys_invD(3) [OF inv] by blast+
  have "clFresh c = 0 \<and> (\<forall>t \<in> set ts. quiet t)" if c: "clBrokers c = None"
  proof -
    have n: "clBrokers (client s) = None" using g c unfolding grows_def by blast
    have "t = NextCall" if "ev = Spawn t" for t using perm that by (simp add: client_permitted_def)
    from quiet_rexec [OF sys_invD(8) [OF inv n] this ex c] sys_invD(7) [OF inv n] show ?thesis by simp
  qed
  then have "sys_inv (s\<lparr>threads := ts, client := c, tookover := x\<rparr>)" for x
    by (intro sys_inv_grows [OF inv g rexec_locks [OF sys_invD(4) [OF inv] ex]] t) simp_all
  with s' show ?thesis by (elim exE) simp
qed

lemma sys_inv_sbroker:
  assumes inv: "sys_inv s" and step: "sys_broker cd p ev s = Some s'"
  shows "sys_inv s'"
proof -
  from step obtain ls y where p: "p < clFresh (client s)" and ex: "bexec ev (view s p) = Some (ls, y)"
    and s': "s' = sys_labels cd (event_caller p ev) ls (put_view p y s)"
    by (auto simp: sys_broker_def split: if_splits option.splits)
  have "bID (brk y) = bID (clMem (client s) p)" using bexec_bID [OF ex] by (simp add: view_def)
  moreover have "bsys_inv y" by (rule bexec_inv [OF sys_invD(5) [OF inv p] ex])
  ultimately have "sys_inv (put_view p y s)" by (intro sys_inv_put inv p)
  moreover have "clBrokers (client (put_view p y s)) \<noteq> None"
    using sys_invD(7) [OF inv] p by (auto simp: put_view_def)
  ultimately show ?thesis unfolding s' by (rule sys_inv_labels)
qed

lemma sub_move_client:
  assumes "sub_move k s = Some s'"
  obtains st ts where "s' = s\<lparr>client := (client s)\<lparr>SubsStore := st\<rparr>, subs := ts\<rparr>"
  using assms by (auto simp: sub_move_def Let_def split: if_splits prod.splits)

lemma sys_exec_inv:
  assumes inv: "sys_inv s" and st: "sound_start start" and step: "sys_exec start cd ev s = Some s'"
  shows "sys_inv s'"
proof (cases ev)
  case (SClient ev)
  with step sys_inv_sclient [OF inv st] show ?thesis by simp
next
  case (SAsk p k r)
  with step have p: "p < clFresh (client s)"
    and s': "s' = s\<lparr>threads := threads s @ [OCall], callee := callee s,
      asked := (asked s)((p, k, r) \<mapsto> length (threads s))\<rparr>"
    by (auto simp: sys_ask_def split: if_splits)
  have "clBrokers (client s) \<noteq> None" using p sys_invD(7) [OF inv] by auto
  then show ?thesis unfolding s' by (intro sys_inv_spawn inv) (simp_all add: entry_def)
next
  case (SBroker p ev)
  with step sys_inv_sbroker [OF inv] show ?thesis by simp
next
  case (SSubStep k)
  with step show ?thesis by (auto elim!: sub_move_client intro: sys_inv_same [OF inv])
qed (use step in \<open>auto simp: sub_call_def RegisterCb_def UnregisterCb_def intro: sys_inv_same [OF inv]\<close>)

text \<open>A client as \<open>pubsub.New\<close> makes it.\<close>

definition unbooted :: "Client \<Rightarrow> bool" where
  "unbooted c \<longleftrightarrow> clBrokers c = None \<and> clFresh c = 0 \<and> \<not> online c \<and> onlineBrokers c = [] \<and>
     \<not> resetProcess c \<and> store_inv (SubsStore c)"

lemma sys_init_inv: "unbooted c \<Longrightarrow> sys_inv (sys_init c)"
  by (intro sys_invI) (auto simp: sys_init_def unbooted_def flag_ok_def ptr_ok_def quiet_def locks_ok_def alone_def)

lemma sreach_inv: "sreach start cd c0 s \<Longrightarrow> unbooted c0 \<Longrightarrow> sound_start start \<Longrightarrow> sys_inv s"
proof (induction rule: sreach.induct)
  case sreach_init
  then show ?case by (simp add: sys_init_inv)
next
  case (sreach_step s ev s')
  then show ?case using sys_exec_inv by blast
qed

end
