(* ===== verification/Client_Service.thy ===== *)
theory Client_Service
  imports Client_System
begin

text \<open>
  What the client and its brokers do together (src/client, src/broker): the properties of the
  composed system of theory \<open>Client_System\<close>, and its runs.
\<close>

section \<open>Runs\<close>

fun srun :: "start_fun \<Rightarrow> 'c codec \<Rightarrow> sys_event list \<Rightarrow> 'c system \<Rightarrow> 'c system option" where
  "srun start cd [] s = Some s"
| "srun start cd (ev # evs) s =
     (if down s then None
      else case sys_exec start cd ev s of None \<Rightarrow> None | Some s' \<Rightarrow> srun start cd evs s')"

lemma srun_sreach: "sreach start cd c0 s \<Longrightarrow> srun start cd evs s = Some s' \<Longrightarrow> sreach start cd c0 s'"
  by (induction evs arbitrary: s) (auto split: if_splits option.splits intro: sreach_step)

lemma srun_append:
  "srun start cd (evs @ evs') s =
     (case srun start cd evs s of None \<Rightarrow> None | Some s' \<Rightarrow> srun start cd evs' s')"
  by (induction evs arbitrary: s) (auto split: option.split)

text \<open>
  A concrete service: the client of theory \<open>Client_Start\<close> before its first \<open>Start\<close>, and a server
  that assigns it the brokers \<open>a\<close> and \<open>b\<close> on every request.
\<close>

definition boot_cli :: Client where
  "boot_cli = start_cli\<lparr>Certs := Map.empty, clBrokers := None, clFresh := 0,
     clMem := (\<lambda>p. new_broker [] [] 0 False)\<rparr>"

definition demo_brokers :: "Broker list" where
  "demo_brokers = [new_broker ''a'' ''h'' 443 False, new_broker ''b'' ''h'' 444 False]"

abbreviation demo_decode :: "bytes \<Rightarrow> Broker option list Response result" where
  "demo_decode \<equiv> demo_dec (map Some demo_brokers)"

definition demo_start :: start_fun where
  "demo_start = start_in Inr demo_enc demo_decode ''pod'' (\<lambda>n m. demo_turn True) (\<lambda>n. ''uuid'')"

lemma demo_decodes: "decodes_fresh demo_decode"
  by (auto simp: decodes_fresh_def demo_dec_def demo_brokers_def)

lemma demo_sound: "sound_start demo_start"
  unfolding demo_start_def by (rule Start_sound [OF demo_decodes])

lemma boot_cli: "unbooted boot_cli"
  by (simp add: unbooted_def boot_cli_def start_cli_def demo_cli_def store_inv_New)

lemma boot_settings: "http_client c = demo_client" "request_options c = demo_opts"
    "HttpClient_New (http_options c) = Returns demo_client" "Certs c = Map.empty"
  if "clProject c = clProject boot_cli" "clModule c = clModule boot_cli" "clHost c = clHost boot_cli"
    "AuthSkew c = AuthSkew boot_cli" "AuthTTL c = AuthTTL boot_cli" "clSecret c = clSecret boot_cli"
    "Certs c = Certs boot_cli" "clSubs c = clSubs boot_cli" "clPubs c = clPubs boot_cli"
proof -
  have "http_client c = http_client start_cli" "request_options c = request_options start_cli"
    using that by (simp_all add: http_client_def request_options_def Client_auth_def boot_cli_def)
  with start_cli show h: "http_client c = demo_client" "request_options c = demo_opts" by simp_all
  show "HttpClient_New (http_options c) = Returns demo_client"
    using start_cli(3-5) that h(1) by (simp add: HttpClient_New_options boot_cli_def http_client_def)
  show "Certs c = Map.empty" using that by (simp add: boot_cli_def)
qed

text \<open>The server's answer puts \<open>a\<close> and \<open>b\<close> at the next two addresses.\<close>

definition settings :: "Client \<Rightarrow> bool" where
  "settings c \<longleftrightarrow> clProject c = clProject boot_cli \<and> clModule c = clModule boot_cli \<and>
     clHost c = clHost boot_cli \<and> AuthSkew c = AuthSkew boot_cli \<and> AuthTTL c = AuthTTL boot_cli \<and>
     clSecret c = clSecret boot_cli \<and> Certs c = Certs boot_cli \<and> clSubs c = clSubs boot_cli \<and>
     clPubs c = clPubs boot_cli"

lemma demo_answers:
  assumes "settings c"
  shows "demo_start n c = Some (''pod'', map Some demo_brokers)"
proof -
  have "HttpClient_New (http_options c) = Returns demo_client" "request_options c = demo_opts"
    using boot_settings [of c] assms by (simp_all add: settings_def)
  then show ?thesis by (simp add: demo_start_def start_in_def answered_request_def demo_Request)
qed

definition up_a :: "sys_event list" where
  "up_a = [SBroker 0 EvStart, SBroker 0 (EvChannelOpen 0), SBroker 0 (EvReady 0),
     SClient (Step 1 [] 0), SClient (Step 1 [] 0)]"

lemmas srun_simps = sys_init_def sys_client_def sys_broker_def sys_ask_def client_permitted_def
  permitted_def lock_held_def nested_done_def free_def answered_def ended_def in_connect_def
  stored_def covers_def can_visit_def took_over_def call_back_def event_caller_def sys_label_def at_restart_def view_def put_view_def

text \<open>The first \<open>Start\<close>: two steps to the answer, one for each broker, and the last.\<close>

definition boot :: "sys_event list" where
  "boot = replicate 5 (SClient (Step 0 [] 0))"

definition booted :: "'c system" where
  "booted = (sys_init (boot_cli\<lparr>clPID := ''pod'', stopResetProcess := 1,
     clMem := (\<lambda>p. new_broker [] [] 0 False)(0 := new_broker ''a'' ''h'' 443 False,
       1 := new_broker ''b'' ''h'' 444 False),
     clFresh := 2, clBrokers := Some \<lparr>brokers = [''a'' \<mapsto> 0, ''b'' \<mapsto> 1]\<rparr>\<rparr>))\<lparr>threads := [Ended]\<rparr>"

lemmas restart_simps = demo_answers settings_def make_stop_def set_up_def launch_one_def with_cert_def
  BrokerStore_Set_def BrokerStore_New_def demo_brokers_def eval_nat_numeral

lemmas eval_simps = srun_simps booted_def boot_cli_def start_cli_def demo_cli_def run_simps rrun_simps
  BrokerStore_Get_def Client_set_def

lemma boot_run: "srun demo_start cd boot (sys_init boot_cli) = Some booted"
  by (simp add: boot_def restart_simps eval_simps)

lemma booted: "sreach demo_start cd boot_cli booted"
  by (rule srun_sreach [OF sreach_init boot_run])

lemma not_down: "\<not> down booted" "\<not> down (booted\<lparr>client := c\<rparr>)"
  by (simp_all add: booted_def sys_init_def)

lemma demo_reach_inv: "sreach demo_start cd boot_cli s \<Longrightarrow> sys_inv s"
  by (rule sreach_inv [OF _ boot_cli demo_sound])

section \<open>Lemmas\<close>

lemma meta_message_FromRecv [simp]: "meta (message_FromRecv cd ctx msg) h = meta ctx h"
  by (simp add: message_FromRecv_def split: option.split sum.split)

lemma meta_Background [simp]: "meta Background h = empty_MD"
  by (simp add: meta_store)

lemma handleRecv_meta:
  "handleRecv cd msg h = ((ctx, msg'), h') \<Longrightarrow> meta ctx h' = FromRecv_MD msg empty_MD \<and> msg' = msg"
  using meta_FromRecv [of Background msg h] by (auto simp: handleRecv_def Let_def split: prod.splits)

lemma GetEvent_unary: "\<exists>msg. GetEvent unary_codec p h = Inr msg"
  using GetEvent_fails [of unary_codec p h] by (cases "GetEvent unary_codec p h") (auto simp: unary_codec_def)

lemma inv_Send_returns:
  assumes "bsys_inv y"
  shows "\<exists>r. Broker_Send cd strm p h (brk y) = Returns r"
  using assms by (auto simp: Broker_Send_def bsys_inv_def brk_inv_def split: sum.split option.split)

lemma sys_Send_returns:
  assumes "sys_inv s" and "b < clFresh (client s)"
  shows "\<exists>r. Broker_Send cd strm p h (clMem (client s) b) = Returns r"
  using inv_Send_returns [OF sys_invD(5) [OF assms]] by (simp add: view_def)

lemma sys_listed_allocated: "sys_inv s \<Longrightarrow> b \<in> set (onlineBrokers (client s)) \<Longrightarrow> b < clFresh (client s)"
  using sys_invD(2) [of s] by (simp add: ptr_ok_def)

text \<open>A run of \<open>send\<close> panics only if some broker's \<open>Send\<close> does.\<close>

lemma send_from_returns:
  assumes "send_from cd ss p h i c = Some (out, c')"
    and "\<And>b strm. b \<in> set (onlineBrokers c) \<Longrightarrow> \<exists>r. Broker_Send cd strm p h (clMem c b) = Returns r"
    and "length (onlineBrokers c) < 2 ^ 64"
  shows "out \<noteq> Panics e"
proof -
  let ?P = "\<lambda>cd ss p h (i :: nat) c (y :: err option outcome \<times> Client).
    (\<forall>b \<in> set (onlineBrokers c). \<forall>strm. \<exists>r. Broker_Send cd strm p h (clMem c b) = Returns r) \<longrightarrow>
    length (onlineBrokers c) < 2 ^ 64 \<longrightarrow> fst y \<noteq> Panics e"
  have "?P cd ss p h i c (out, c')"
  proof (rule send_from.raw_induct [where P = ?P, OF _ assms(1)], intro impI)
    fix send and cd :: "'a codec" and ss p h i c y
    assume IH: "\<And>cd ss p h i c y. send cd ss p h i c = Some y \<Longrightarrow> ?P cd ss p h i c y"
      and s: "(case nextBroker c of
          (Inl e, c) \<Rightarrow> Some (Returns (Some e), c)
        | (Inr bk, c) \<Rightarrow>
            (case Broker_Send cd (ss i bk) p h (clMem c bk) of
               Returns err \<Rightarrow> (if err \<noteq> None then send cd ss p h (Suc i) c else Some (Returns None, c))
             | Panics e \<Rightarrow> Some (Panics e, c))) = Some y"
      and r: "\<forall>b \<in> set (onlineBrokers c). \<forall>strm. \<exists>r. Broker_Send cd strm p h (clMem c b) = Returns r"
      and l: "length (onlineBrokers c) < 2 ^ 64"
    show "fst y \<noteq> Panics e"
    proof (cases "listed c")
      case True
      let ?bk = "turn_of c (currentSend c)" and ?c = "c\<lparr>currentSend := currentSend c + 1\<rparr>"
      have "?bk \<in> set (onlineBrokers c)" using True by (simp add: listed_def)
      then obtain err where "Broker_Send cd (ss i ?bk) p h (clMem c ?bk) = Returns err" using r by blast
      with s have "y = (Returns None, ?c) \<or> send cd ss p h (Suc i) ?c = Some y"
        by (auto simp: nextBroker_listed [OF True] split: if_splits)
      then show ?thesis using IH [of cd ss p h "Suc i" ?c y] r l by auto
    next
      case False
      then have "nextBroker c = (Inl ErrClientNotConnected, c)"
        using l by (auto simp: listed_def nextBroker_def Let_def)
      with s show ?thesis by auto
    qed
  qed
  then show ?thesis using assms(2,3) by auto
qed

text \<open>
  The subscriptions as the run asked for them: an abstract table of handlers per event. A run is in
  turn when no call of \<open>Register\<close> or \<open>Unregister\<close> starts while another one on the same event is under
  way; calls on different events overlap freely.
\<close>

fun sub_spec :: "sys_event \<Rightarrow> (string \<Rightarrow> (string \<times> nat) list) \<Rightarrow> string \<Rightarrow> (string \<times> nat) list" where
  "sub_spec (SSub name fn uuid) t = t(name := t name @ [(uuid, fn)])"
| "sub_spec (SCancel name i) t = t(name := filter (\<lambda>h. fst h \<noteq> i) (t name))"
| "sub_spec ev t = t"

fun in_turn :: "'c system \<Rightarrow> sys_event \<Rightarrow> bool" where
  "in_turn s (SSub name fn uuid) = (\<not> pending (subs s) name)"
| "in_turn s (SCancel name i) = (\<not> pending (subs s) name)"
| "in_turn s ev = True"

fun turn_run :: "start_fun \<Rightarrow> 'c codec \<Rightarrow> sys_event list \<Rightarrow> 'c system \<Rightarrow> 'c system option" where
  "turn_run start cd [] s = Some s"
| "turn_run start cd (ev # evs) s =
     (if down s \<or> \<not> in_turn s ev then None
      else case sys_exec start cd ev s of None \<Rightarrow> None | Some s' \<Rightarrow> turn_run start cd evs s')"

lemma turn_run_append:
  "turn_run start cd (evs @ evs') s =
     (case turn_run start cd evs s of None \<Rightarrow> None | Some s' \<Rightarrow> turn_run start cd evs' s')"
  by (induction evs arbitrary: s) (auto split: option.split)

lemma turn_run_srun: "turn_run start cd evs s = Some s' \<Longrightarrow> srun start cd evs s = Some s'"
  by (induction evs arbitrary: s) (auto split: if_splits option.splits)

lemma label_subs:
  "SubsStore (client (sys_label cd w l s)) = SubsStore (client s)" "subs (sys_label cd w l s) = subs s"
  by (auto simp: sys_label_def call_back_def receive_def Client_recv_def Let_def split: blabel.split prod.split)

lemma labels_subs:
  "SubsStore (client (sys_labels cd w ls s)) = SubsStore (client s)" "subs (sys_labels cd w ls s) = subs s"
  by (induction ls arbitrary: s) (simp_all add: label_subs)

lemma exec_tracks:
  assumes inv: "sys_inv s" and st: "sound_start start" and step: "sys_exec start cd ev s = Some s'"
    and ok: "in_turn s ev" and tr: "tracks (subs s) (SubsStore (client s)) T"
  shows "tracks (subs s') (SubsStore (client s')) (sub_spec ev T)"
proof (cases ev)
  case (SClient e)
  with step obtain ts c where "rexec start e (threads s, client s) = Some (ts, c)" "client s' = c" "subs s' = subs s"
    by (auto simp: sys_client_def split: if_splits option.splits)
  moreover from this have "grows (client s) c"
    using rexec_grows [OF st sys_invD(2) [OF inv]] sys_invD(3) [OF inv] by blast
  ultimately show ?thesis using SClient tr by (simp add: grows_def)
next
  case (SBroker p e)
  with step tr show ?thesis
    by (auto simp: sys_broker_def labels_subs put_view_def split: if_splits option.splits)
next
  case (SSub name fn uuid)
  with ok have i: "\<not> pending (subs s) name" by simp
  have "tracks (subs s @ [(name, RLookup name fn uuid)]) (SubsStore (client s))
      (T(name := due (SubsStore (client s)) name (RLookup name fn uuid)))"
    by (rule tracks_spawn [OF tr i]) (simp_all add: sub_ok_def)
  moreover have "sub_spec ev T = T(name := due (SubsStore (client s)) name (RLookup name fn uuid))"
    using tracks_idle [OF tr i] by (simp add: SSub due_def)
  moreover have "subs s' = subs s @ [(name, RLookup name fn uuid)]" "client s' = client s"
    using step SSub by (auto simp: sub_call_def)
  ultimately show ?thesis by (simp only:)
next
  case (SCancel name i)
  with ok have p: "\<not> pending (subs s) name" by simp
  have "tracks (subs s @ [(name, ULookup name i)]) (SubsStore (client s))
      (T(name := due (SubsStore (client s)) name (ULookup name i)))"
    by (rule tracks_spawn [OF tr p]) (simp_all add: sub_ok_def)
  moreover have "sub_spec ev T = T(name := due (SubsStore (client s)) name (ULookup name i))"
    using tracks_idle [OF tr p] by (simp add: SCancel due_def)
  moreover have "subs s' = subs s @ [(name, ULookup name i)]" "client s' = client s"
    using step SCancel by (auto simp: sub_call_def)
  ultimately show ?thesis by (simp only:)
next
  case (SSubStep k)
  obtain name t where u: "subs s ! k = (name, t)" by force
  obtain t' st where m: "sub_step t (SubsStore (client s)) = (t', st)" by force
  have "k < length (subs s)" "t \<noteq> Halt" "subs s' = (subs s)[k := (name, t')]" "SubsStore (client s') = st"
    using step SSubStep u m by (auto simp: sub_move_def Let_def split: if_splits)
  with tracks_move [OF tr _ u _ m] SSubStep show ?thesis by simp
qed (use step tr in \<open>auto simp: sys_ask_def RegisterCb_def UnregisterCb_def split: if_splits\<close>)

lemma turn_run_tracks:
  assumes "turn_run start cd evs s = Some s'" and "sys_inv s" and "sound_start start"
    and "tracks (subs s) (SubsStore (client s)) T"
  shows "tracks (subs s') (SubsStore (client s')) (fold sub_spec evs T)"
  using assms
proof (induction evs arbitrary: s T)
  case (Cons ev evs)
  then obtain t where t: "sys_exec start cd ev s = Some t" "turn_run start cd evs t = Some s'" "in_turn s ev"
    by (auto split: if_splits option.splits)
  show ?case
    using Cons.IH [OF t(2) sys_exec_inv [OF Cons.prems(2,3) t(1)] Cons.prems(3)
        exec_tracks [OF Cons.prems(2,3) t(1,3) Cons.prems(4)]] by simp
qed simp

text \<open>A call that runs alone does what the operation of theory \<open>Client\<close> says.\<close>

lemma subscribe_alone:
  assumes "\<not> down s"
  shows "\<exists>m \<le> 3. srun start cd (SSub name fn i # replicate m (SSubStep (length (subs s)))) s =
    Some (s\<lparr>client := snd (Client_Sub name fn i (client s)), subs := subs s @ [(name, Halt)]\<rparr>)"
proof (cases "slist (SubsStore (client s)) name")
  case None
  then show ?thesis using assms
    by (intro exI [of _ 3]) (simp add: eval_nat_numeral sub_call_def sub_move_def Client_Sub_def store_ops)
next
  case (Some p)
  then show ?thesis using assms
    by (intro exI [of _ 2]) (simp add: eval_nat_numeral sub_call_def sub_move_def Client_Sub_def store_ops)
qed

lemma cancel_alone:
  assumes "\<not> down s"
  shows "\<exists>m \<le> 3. srun start cd (SCancel name i # replicate m (SSubStep (length (subs s)))) s =
    Some (s\<lparr>client := Client_Sub_cancelled name i (client s), subs := subs s @ [(name, Halt)]\<rparr>)"
proof (cases "slist (SubsStore (client s)) name")
  case None
  then show ?thesis using assms
    by (intro exI [of _ 1]) (simp add: sub_call_def sub_move_def Client_Sub_cancelled_def store_ops)
next
  case (Some p)
  let ?empty = "fst (Sub_Unregister i (sheap (SubsStore (client s)) p))"
  from Some show ?thesis using assms
    by (intro exI [of _ "if ?empty then 3 else 2"])
      (simp add: eval_nat_numeral sub_call_def sub_move_def Client_Sub_cancelled_def store_ops)
qed

section \<open>Properties\<close>

text \<open>
  C12. The running system is well formed: whatever the server, the network, the timers, the publishers
  and the subscribers did since \<open>New\<close>, every pointer in the broker store, in the online list and held
  by a goroutine is a broker that \<open>Start\<close> allocated; the store is keyed by the brokers' identifiers
  and exists as soon as a goroutine that needs it runs; the client is online exactly while its list is non-empty; a broker
  has a stream exactly while it is connected, one context per session, and a Fibonacci delay; and at
  most one goroutine holds the client's write lock, with no reader beside it, and one the store's.
\<close>

theorem system_well_formed:
  assumes "sreach (start_in url_parse enc dec hostname envs uuid) cd c0 s"
    and "unbooted c0" and "decodes_fresh dec"
  shows "let c = client s in
    (\<forall>st i b. clBrokers c = Some st \<longrightarrow> BrokerStore_Get i st = Some b \<longrightarrow> b < clFresh c \<and> bID (clMem c b) = i) \<and>
    (\<forall>b. b \<in> set (onlineBrokers c) \<or> CSet b \<in> set (threads s) \<longrightarrow> b < clFresh c) \<and>
    (\<forall>t \<in> set (threads s). \<not> quiet t \<longrightarrow> clBrokers c \<noteq> None) \<and> (online c \<longleftrightarrow> onlineBrokers c \<noteq> []) \<and>
    (\<forall>b < clFresh c. (connected (clMem c b) \<longleftrightarrow> stream (clMem c b) \<noteq> None) \<and>
       bStarts (clMem c b) = length (sessions s b) \<and> duration (clMem c b) \<in> backoff_steps) \<and>
    (\<forall>b \<ge> clFresh c. sessions s b = []) \<and>
    alone holds_write (threads s) \<and> alone holds_store (threads s) \<and>
    (\<forall>u \<in> set (threads s). holds_write u \<longrightarrow> (\<forall>t \<in> set (threads s). \<not> holds_read t))"
proof -
  have inv: "sys_inv s" by (rule sreach_inv [OF assms(1,2) Start_sound [OF assms(3)]])
  have "b < clFresh (client s) \<and> bID (clMem (client s) b) = i"
    if "clBrokers (client s) = Some st" "BrokerStore_Get i st = Some b" for st i b
    using sys_invD(2) [OF inv] that by (auto simp: ptr_ok_def bstore_inv_def BrokerStore_Get_def ran_def)
  moreover have "b < clFresh (client s)" if "CSet b \<in> set (threads s)" for b
    using sys_invD(3) [OF inv that] by (simp add: thread_ok_def)
  moreover have "brk_inv (length (sessions s b)) (clMem (client s) b)" if "b < clFresh (client s)" for b
    using sys_invD(5) [OF inv that] by (simp add: bsys_inv_def view_def)
  ultimately show ?thesis
    using sys_listed_allocated [OF inv] sys_invD(4,6,8) [OF inv] sys_invD(1) [OF inv]
    unfolding Let_def brk_inv_def flag_ok_def locks_ok_def by blast
qed

theorem system_well_formed_witness:
  "\<exists>s. sreach demo_start unary_codec boot_cli s \<and> onlineBrokers (client s) = [0] \<and> online (client s) \<and>
     length (sessions s 0) = 1 \<and> bStarts (clMem (client s) 0) = length (sessions s 0)"
proof -
  obtain s where s: "srun demo_start unary_codec up_a booted = Some s" "onlineBrokers (client s) = [0]"
    "length (sessions s 0) = 1" "clFresh (client s) = 2"
    by (simp add: up_a_def eval_simps)
  have r: "sreach demo_start unary_codec boot_cli s" by (rule srun_sreach [OF booted s(1)])
  show ?thesis
    using system_well_formed [OF r [unfolded demo_start_def] boot_cli demo_decodes] r s(2-4)
    by (auto simp: Let_def)
qed

text \<open>
  C13. No nil is dereferenced outside the decoding of the broker list and the reset handler: in every
  reachable state a goroutine that is about to look a broker up or to stop the brokers finds the
  broker store, \<open>Send\<close> on any broker a goroutine may hold returns, and so \<open>send\<close>, if it returns at all,
  does not panic.
\<close>

theorem no_nil_dereference:
  assumes "sreach (start_in url_parse enc dec hostname envs uuid) cd c0 s"
    and "unbooted c0" and "decodes_fresh dec"
  shows "(CGet i \<in> set (threads s) \<longrightarrow> (\<exists>c. Client_connect i (client s) = Returns c)) \<and>
    (SStop w \<in> set (threads s) \<longrightarrow> (\<exists>c. brokers_Done ks (client s) = Returns c)) \<and>
    (SVisit w js \<in> set (threads s) \<longrightarrow> (\<exists>c. brokers_Done js (client s) = Returns c)) \<and>
    (\<forall>b < clFresh (client s). \<exists>r. Broker_Send cd' strm p h (clMem (client s) b) = Returns r) \<and>
    (length (onlineBrokers (client s)) < 2 ^ 64 \<longrightarrow>
      Client_send cd' ss p h (client s) \<noteq> Some (Panics e, c'))"
proof -
  have inv: "sys_inv s" by (rule sreach_inv [OF assms(1,2) Start_sound [OF assms(3)]])
  have st: "clBrokers (client s) \<noteq> None" if "t \<in> set (threads s)" "\<not> quiet t" for t
    using sys_invD(8) [OF inv] that by blast
  have "\<exists>c. Client_connect i (client s) = Returns c" if "clBrokers (client s) \<noteq> None" for i
    using that by (auto simp: Client_connect_def split: option.split)
  moreover have "\<exists>c. brokers_Done ks (client s) = Returns c" if "clBrokers (client s) \<noteq> None" for ks
    using that by (auto simp: brokers_Done_def split: option.split prod.split)
  moreover have "\<not> quiet (CGet i)" "\<not> quiet (SStop w)" "\<not> quiet (SVisit w js)" by (simp_all add: quiet_def)
  moreover have "Client_send cd' ss p h (client s) \<noteq> Some (Panics e, c')"
    if l: "length (onlineBrokers (client s)) < 2 ^ 64"
  proof
    assume "Client_send cd' ss p h (client s) = Some (Panics e, c')"
    from send_from_returns [OF this [unfolded Client_send_def] _ l, of e]
      sys_Send_returns [OF inv sys_listed_allocated [OF inv]]
    show False by blast
  qed
  ultimately show ?thesis using sys_Send_returns [OF inv] st by blast
qed

theorem no_nil_dereference_witness:
  "\<exists>s. sreach demo_start unary_codec boot_cli s \<and> CGet ''a'' \<in> set (threads s) \<and>
     (\<exists>c. Client_connect ''a'' (client s) = Returns c) \<and>
     (\<exists>r. Broker_Send unary_codec (\<lambda>strm msg. None) (demo_pub Background) empty_store (clMem (client s) 0) = Returns r)"
proof -
  obtain s where s: "srun demo_start unary_codec (take 3 up_a) booted = Some s" "CGet ''a'' \<in> set (threads s)"
    "clFresh (client s) = 2"
    by (simp add: up_a_def eval_simps)
  have r: "sreach demo_start unary_codec boot_cli s" by (rule srun_sreach [OF booted s(1)])
  show ?thesis
    using no_nil_dereference [OF r [unfolded demo_start_def] boot_cli demo_decodes] r s(2-3) by fastforce
qed

text \<open>
  C8. The running system routes events as an abstract table of subscriptions says. In any run in which
  no two calls of \<open>Register\<close> and \<open>Unregister\<close> on one event overlap (on different events they may, and with
  everything else), a message that a reading connection receives while none is under way on its event is
  handed to exactly the handlers subscribed and not cancelled in the run, in the order of subscription, with
  its payload and a context that carries its metadata; then it is offered to the waiting callers. Without
  the condition a subscribed handler can be lost (\<open>concurrent_Register_loses_handler\<close>).
\<close>

theorem service_routes_events:
  assumes "turn_run (start_in url_parse enc dec hostname envs uuid) cd evs (sys_init c0) = Some s"
    and "unbooted c0" and "SubsStore c0 = Store_New" and "decodes_fresh dec"
    and "p < clFresh (client s)" and "k < length (sessions s p)"
    and "s_reader (sessions s p ! k) = RReading" and "free s (p, k, Reader)"
    and "Name msg \<noteq> ''_.ready''" and "Name msg \<noteq> ''_.reset''" and "\<not> pending (subs s) (Name msg)"
  shows "\<exists>s' ctx. sys_exec (start_in url_parse enc dec hostname envs uuid) cd (SBroker p (EvMessage k msg)) s = Some s' \<and>
    handled s' = handled s @
      map (\<lambda>(i, fn). (fn, ctx, Payload msg)) (fold sub_spec evs (\<lambda>name. []) (Name msg)) \<and>
    meta ctx (heap s') = FromRecv_MD msg empty_MD \<and>
    Callbacks (client s') = Callback_Recv msg (Callbacks (client s))"
proof -
  have "tracks (subs (sys_init c0)) (SubsStore (client (sys_init c0))) (\<lambda>name. [])"
    using assms(3) tracks_New by (simp add: sys_init_def)
  from turn_run_tracks [OF assms(1) sys_init_inv [OF assms(2)] Start_sound [OF assms(4)] this]
  have r: "routes (SubsStore (client s)) (Name msg) = fold sub_spec evs (\<lambda>name. []) (Name msg)"
    by (rule tracks_idle) (rule assms(11))
  obtain ctx msg' h where rc: "handleRecv cd msg (heap s) = ((ctx, msg'), h)" by (metis prod.collapse)
  have "put_view p (view s p) s = s" by (simp add: put_view_def view_def)
  then have "sys_exec (start_in url_parse enc dec hostname envs uuid) cd (SBroker p (EvMessage k msg)) s =
      Some (receive cd msg s)"
    using assms(5-10) by (simp add: sys_broker_def permitted_def view_def sys_label_def)
  moreover have "handled (receive cd msg s) = handled s @
      map (\<lambda>(i, fn). (fn, ctx, Payload msg)) (fold sub_spec evs (\<lambda>name. []) (Name msg))"
    "meta ctx (heap (receive cd msg s)) = FromRecv_MD msg empty_MD"
    "Callbacks (client (receive cd msg s)) = Callback_Recv msg (Callbacks (client s))"
    using handleRecv_meta [OF rc] by (simp_all add: receive_def rc Client_recv_def Store_Recv_routes r)
  ultimately show ?thesis by blast
qed

text \<open>Three handlers of \<open>e\<close> one after the other and one of \<open>g\<close> meanwhile; then one of them is cancelled.\<close>

definition subscribe :: "sys_event list" where
  "subscribe = [SSub ''e'' 7 ''i'', SSub ''g'' 5 ''m'', SSubStep 0, SSubStep 1, SSubStep 0, SSubStep 0,
     SSub ''e'' 8 ''j'', SSubStep 2, SSubStep 1, SSubStep 2, SSub ''e'' 9 ''l'', SSubStep 3, SSubStep 3,
     SCancel ''e'' ''j'', SSubStep 4, SSubStep 1, SSubStep 4]"

definition subscribed :: "'c system \<Rightarrow> Store \<Rightarrow> 'c system" where
  "subscribed s st = s\<lparr>client := (client s)\<lparr>SubsStore := st\<rparr>,
     subs := [(''e'', Halt), (''g'', Halt), (''e'', Halt), (''e'', Halt), (''e'', Halt)]\<rparr>"

lemma subscribe_run: "\<exists>st. turn_run demo_start cd subscribe booted = Some (subscribed booted st)"
  by (simp add: subscribe_def sub_call_def sub_move_def pending_def booted_def sys_init_def boot_cli_def
      start_cli_def demo_cli_def Store_New_def sub_alloc_def sub_write_def Sub_Register_def zero_Sub_def
      Sub_Unregister_def Let_def eval_nat_numeral subscribed_def)

theorem service_routes_events_witness:
  "\<exists>(s' :: nat system) ctx. sreach demo_start unary_codec boot_cli s' \<and>
     handled s' = [(7, ctx, [1]), (9, ctx, [1])]"
proof -
  let ?evs = "(boot @ subscribe) @ up_a"
  let ?msg = "zero_message\<lparr>Name := ''e'', Payload := [1]\<rparr>"
  have "turn_run demo_start unary_codec boot (sys_init boot_cli) = Some (booted :: nat system)"
    by (simp add: boot_def restart_simps eval_simps)
  then obtain st where x: "turn_run demo_start unary_codec (boot @ subscribe) (sys_init boot_cli) =
      Some (subscribed (booted :: nat system) st)"
    using subscribe_run [of unary_codec] by (auto simp: turn_run_append)
  have "\<exists>s. turn_run demo_start unary_codec up_a (subscribed (booted :: nat system) st) = Some s \<and>
      clFresh (client s) = 2 \<and> handled s = [] \<and> \<not> down s \<and> \<not> pending (subs s) ''e'' \<and>
      length (sessions s 0) = 1 \<and> s_reader (sessions s 0 ! 0) = RReading \<and> free s (0, 0, Reader)"
    by (simp add: up_a_def eval_simps subscribed_def pending_def)
  then obtain s where s: "turn_run demo_start unary_codec ?evs (sys_init boot_cli) = Some s"
    "clFresh (client s) = 2" "handled s = []" "\<not> down s" "\<not> pending (subs s) ''e''" "length (sessions s 0) = 1"
    "s_reader (sessions s 0 ! 0) = RReading" "free s (0, 0, Reader)"
    using turn_run_append [of demo_start unary_codec "boot @ subscribe" up_a] x by auto
  have "SubsStore boot_cli = Store_New" by (simp add: boot_cli_def start_cli_def demo_cli_def)
  from service_routes_events [OF s(1) [unfolded demo_start_def] boot_cli this demo_decodes, of 0 0 ?msg,
      folded demo_start_def] s(2-8)
  obtain s' ctx where s': "sys_exec demo_start unary_codec (SBroker 0 (EvMessage 0 ?msg)) s = Some s'"
    "handled s' = [(7, ctx, [1]), (9, ctx, [1])]" by (auto simp: up_a_def boot_def subscribe_def eval_nat_numeral)
  have "sreach demo_start unary_codec boot_cli s" by (rule srun_sreach [OF sreach_init turn_run_srun [OF s(1)]])
  then have "sreach demo_start unary_codec boot_cli s'" using s(4) s'(1) by (rule sreach_step)
  with s'(2) show ?thesis by blast
qed

end
