(* ===== verification/Client_Races.thy ===== *)
theory Client_Races
  imports Client_Service
begin

text \<open>
  Two ways in which a restart and a connection come to harm each other (src/client/client.go:
  \<open>reset\<close>, \<open>owerstaying\<close>, \<open>connect\<close>, \<open>disconnect\<close>; src/broker/store.go: \<open>Done\<close>; src/broker/broker.go: the
  \<open>_.ready\<close> handler), in the composed system of theory \<open>Client_System\<close>.
\<close>

section \<open>A broker that becomes ready during a restart\<close>

text \<open>
  A restart is inside \<open>Done\<close>, holds the store's lock, and wants the lock of the stored broker \<open>p\<close>;
  the read goroutine of \<open>p\<close> holds that one, inside \<open>connect\<close>, and wants the store's lock or, if the
  restart is that of \<open>owerstaying\<close>, the client's.
\<close>

definition waits_for :: "runner \<Rightarrow> rpc \<Rightarrow> bool" where
  "waits_for w t \<longleftrightarrow> (case t of CGet i \<Rightarrow> True | CSet b \<Rightarrow> w = ByOverstay | _ \<Rightarrow> False)"

definition embraced :: "runner \<Rightarrow> string \<Rightarrow> string list \<Rightarrow> rpc \<Rightarrow> nat \<Rightarrow> nat \<Rightarrow> nat \<Rightarrow> nat \<Rightarrow> 'c system \<Rightarrow> bool" where
  "embraced w i js x t u p k s \<longleftrightarrow>
     t < length (threads s) \<and> threads s ! t = SVisit w (i # js) \<and>
     u < length (threads s) \<and> threads s ! u = x \<and> waits_for w x \<and>
     (\<exists>st. clBrokers (client s) = Some st \<and> brokers st i = Some p) \<and>
     k < length (sessions s p) \<and> callee s (p, k, Reader) = Some u"

lemma embraced_held: "embraced w i js x t u p k s \<Longrightarrow> lock_held s p \<and> \<not> can_visit i s"
  by (fastforce simp: embraced_def lock_held_def in_connect_def can_visit_def waits_for_def split: rpc.splits)

lemma embraced_store: "embraced w i js x t u p k s \<Longrightarrow> \<not> can_store (threads s)"
  unfolding embraced_def can_store_def using holds_store_simps(1) by (metis nth_mem)

lemma embraced_locked:
  "embraced ByOverstay i js x t u p k s \<Longrightarrow> \<not> can_write (threads s) \<and> \<not> can_read (threads s)"
  unfolding embraced_def can_write_def can_read_def using holds_simps(2) by (metis nth_mem)

text \<open>Nobody else gets on in \<open>Done\<close>, in the loop of \<open>Start\<close> or in \<open>connect\<close>, so the store stays as it is.\<close>

lemma embraced_rstep:
  assumes inv: "sys_inv s" and e: "embraced w i js x t u p k s" and j: "j < length (threads s)"
    and fin: "client_permitted s (Step j ks n)"
    and step: "rstep start j ks n (threads s, client s) = Some (ts, c)"
  shows "j \<noteq> t \<and> j \<noteq> u \<and> (\<exists>y. ts = (threads s)[j := y] \<or> ts = (threads s)[j := y] @ [RSelect]) \<and>
    clBrokers c = clBrokers (client s)"
proof -
  have st: "\<not> can_store (threads s)" by (rule embraced_store [OF e])
  have t: "t < length (threads s)" "threads s ! t = SVisit w (i # js)" and u: "threads s ! u = x" "waits_for w x"
    and bs: "clBrokers (client s) \<noteq> None" using e by (auto simp: embraced_def)
  have jt: "j \<noteq> t"
    using fin t(2) embraced_held [OF e] by (auto simp: client_permitted_def)
  have ju: "j \<noteq> u"
  proof
    assume "j = u"
    then show False
      using step st u embraced_locked [of i js x t u p k s] e
      by (cases x) (auto simp: rstep_def waits_for_def split: if_splits)
  qed
  have "\<not> holds_store (threads s ! j)"
    using sys_invD(4) [OF inv] j t jt by (auto simp: locks_ok_def alone_def)
  then have "(\<exists>y. ts = (threads s)[j := y] \<or> ts = (threads s)[j := y] @ [RSelect]) \<and>
      clBrokers c = clBrokers (client s)"
    using step st bs j
    by (cases "threads s ! j")
      (auto simp: rstep_def go_def Client_reset_def Client_delete_def Client_set_def make_stop_def set_up_def
        Let_def nextBroker_def list_update_append split: if_splits option.splits list.splits)
  with jt ju show ?thesis by blast
qed

lemma embraced_threads:
  assumes "embraced w i js x t u p k s" and "t < length ts" and "u < length ts"
    and "ts ! t = threads s ! t" and "ts ! u = threads s ! u"
    and "clBrokers c = clBrokers (client s)" and "f (p, k, Reader) = callee s (p, k, Reader)"
  shows "embraced w i js x t u p k (s\<lparr>threads := ts, client := c, callee := f, asked := g, tookover := z\<rparr>)"
  using assms by (auto simp: embraced_def)

lemma bexec_calls:
  assumes "bexec ev y = Some (ls, y')" and "l \<in> set ls" and "l = LConnect \<or> l = LReset \<or> l = LDisconnect"
  shows "(\<exists>k. ev = EvReady k) \<or> (\<exists>k uuid now. ev = EvReset k uuid now) \<or> (\<exists>k. ev = EvWake k)"
  using assms
  by (cases ev)
    (auto simp: overstay_label_def split: if_splits prod.splits restart_result.splits option.splits
      main_pc.splits reader_pc.splits)

lemma bexec_length:
  assumes "bexec ev y = Some (ls, y')"
  shows "length (sess y) \<le> length (sess y')"
  using assms
  by (cases ev)
    (auto simp: begin_session_def end_reader_def set_main_def set_reader_def
      split: if_splits prod.splits restart_result.splits option.splits main_pc.splits reader_pc.splits outcome.splits)

lemma embraced_label:
  assumes e: "embraced w i js x t u p k s" and "l = LConnect \<or> l = LReset \<or> l = LDisconnect \<longrightarrow> v \<noteq> (p, k, Reader)"
  shows "embraced w i js x t u p k (sys_label cd v l s)"
proof -
  have call: "embraced w i js x t u p k (call_back v y s)" if "v \<noteq> (p, k, Reader)" for y
    using e that by (auto simp: embraced_def call_back_def nth_append)
  show ?thesis
  proof (cases l)
    case (LRecv msg)
    then show ?thesis
      using e by (auto simp: sys_label_def receive_def Client_recv_def embraced_def split: prod.split)
  qed (use assms call in \<open>auto simp: sys_label_def embraced_def\<close>)
qed

lemma embraced_labels:
  assumes "embraced w i js x t u p k s"
    and "\<And>l. l \<in> set ls \<Longrightarrow> l = LConnect \<or> l = LReset \<or> l = LDisconnect \<Longrightarrow> v \<noteq> (p, k, Reader)"
  shows "embraced w i js x t u p k (sys_labels cd v ls s)"
  using assms
proof (induction ls arbitrary: s)
  case (Cons l ls)
  have "embraced w i js x t u p k (sys_label cd v l s)"
    using Cons.prems by (intro embraced_label) auto
  then have "embraced w i js x t u p k (sys_labels cd v ls (sys_label cd v l s))"
    by (rule Cons.IH) (rule Cons.prems(2), simp_all)
  then show ?case by simp
qed simp

lemma embraced_sbroker:
  assumes e: "embraced w i js x t u p k s" and step: "sys_broker cd q ev s = Some s'"
  shows "embraced w i js x t u p k s'"
proof -
  from step obtain ls y where perm: "permitted s q ev" and ex: "bexec ev (view s q) = Some (ls, y)"
    and s': "s' = sys_labels cd (event_caller q ev) ls (put_view q y s)"
    by (auto simp: sys_broker_def split: if_splits option.splits)
  have "length (sessions s q) \<le> length (sess y)" using bexec_length [OF ex] by (simp add: view_def)
  then have "embraced w i js x t u p k (put_view q y s)"
    using e by (auto simp: embraced_def put_view_def)
  moreover have "event_caller q ev \<noteq> (p, k, Reader)"
    if "l \<in> set ls" "l = LConnect \<or> l = LReset \<or> l = LDisconnect" for l
  proof -
    have "x \<noteq> Ended" using e by (auto simp: embraced_def waits_for_def)
    then have "\<not> free s (p, k, Reader)" using e by (auto simp: embraced_def free_def ended_def)
    then show ?thesis using bexec_calls [OF ex that] perm by (auto simp: event_caller_def permitted_def)
  qed
  ultimately show ?thesis unfolding s' by (rule embraced_labels)
qed

lemma embraced_sclient:
  assumes inv: "sys_inv s" and e: "embraced w i js x t u p k s" and step: "sys_client start ev s = Some s'"
  shows "embraced w i js x t u p k s'"
proof -
  from step obtain ts c z where ex: "rexec start ev (threads s, client s) = Some (ts, c)"
    and perm: "client_permitted s ev"
    and s': "s' = s\<lparr>threads := ts, client := c, callee := callee s, asked := asked s, tookover := z\<rparr>"
    by (auto simp: sys_client_def split: if_splits option.splits)
  have t: "t < length (threads s)" "u < length (threads s)" "threads s ! t = SVisit w (i # js)"
    "threads s ! u = x" "waits_for w x" using e by (auto simp: embraced_def)
  have "t < length ts \<and> u < length ts \<and> ts ! t = threads s ! t \<and> ts ! u = threads s ! u \<and>
      clBrokers c = clBrokers (client s)"
  proof (cases ev)
    case (Spawn r)
    with ex t show ?thesis by (auto simp: nth_append split: if_splits)
  next
    case (Step j ks n)
    with ex have j: "j < length (threads s)" "rstep start j ks n (threads s, client s) = Some (ts, c)"
      by (auto split: if_splits)
    from embraced_rstep [OF inv e j(1) perm [unfolded Step] j(2)] t show ?thesis by (auto simp: nth_append)
  next
    case (Timer j)
    with ex t show ?thesis by (auto simp: go_def nth_list_update waits_for_def split: if_splits rpc.splits)
  next
    case (Sync i j)
    with ex t show ?thesis by (auto simp: go_def nth_list_update waits_for_def split: if_splits rpc.splits)
  qed
  then show ?thesis unfolding s' by (intro embraced_threads e) simp_all
qed

lemma embraced_exec:
  assumes inv: "sys_inv s" and e: "embraced w i js x t u p k s" and step: "sys_exec start cd ev s = Some s'"
  shows "embraced w i js x t u p k s'"
proof -
  have upd: "embraced w i js x t u p k (s\<lparr>client := c\<rparr>)" if "clBrokers c = clBrokers (client s)" for c
    using e that by (auto simp: embraced_def)
  show ?thesis
  proof (cases ev)
    case (SAsk q j r)
    with step have "s' = s\<lparr>threads := threads s @ [OCall], client := client s, callee := callee s,
        asked := (asked s)((q, j, r) \<mapsto> length (threads s)), tookover := tookover s\<rparr>"
      by (auto simp: sys_ask_def split: if_splits)
    with e show ?thesis by (auto simp: embraced_def nth_append)
  next
    case (SClient e')
    with step embraced_sclient [OF inv e] show ?thesis by simp
  next
    case (SBroker q e')
    with step embraced_sbroker [OF e] show ?thesis by simp
  next
    case (SSubStep j)
    with step e show ?thesis by (auto simp: embraced_def elim!: sub_move_client)
  next
    case (SSub name fn uuid)
    with step e show ?thesis by (auto simp: embraced_def sub_call_def)
  next
    case (SCancel name i')
    with step e show ?thesis by (auto simp: embraced_def sub_call_def)
  qed (use step in \<open>auto simp: RegisterCb_def UnregisterCb_def intro!: upd\<close>)
qed

inductive ssteps :: "start_fun \<Rightarrow> 'c codec \<Rightarrow> 'c system \<Rightarrow> 'c system \<Rightarrow> bool" for start cd where
  ssteps_refl: "ssteps start cd s s"
| ssteps_step: "ssteps start cd s t \<Longrightarrow> \<not> down t \<Longrightarrow> sys_exec start cd ev t = Some t' \<Longrightarrow> ssteps start cd s t'"

lemma embraced_for_ever:
  "ssteps start cd s s' \<Longrightarrow> sys_inv s \<Longrightarrow> sound_start start \<Longrightarrow> embraced w i js x t u p k s \<Longrightarrow>
   sys_inv s' \<and> embraced w i js x t u p k s'"
proof (induction rule: ssteps.induct)
  case (ssteps_step s a ev a')
  then show ?case using sys_exec_inv embraced_exec by blast
qed simp

section \<open>Runs\<close>

text \<open>Events of one broker that call nothing outside leave the rest of the system as it is.\<close>

definition calls_out :: "bevent \<Rightarrow> bsys \<Rightarrow> bool" where
  "calls_out ev y \<longleftrightarrow>
     (case ev of
        EvDone \<Rightarrow> True | EvChannelFailed k over \<Rightarrow> asks_overstay (brk y)
      | EvRecvError k c over \<Rightarrow> asks_overstay (brk y) | _ \<Rightarrow> False)"

fun silent_run :: "bevent list \<Rightarrow> bsys \<Rightarrow> bsys option" where
  "silent_run [] y = Some y"
| "silent_run (ev # evs) y =
     (if calls_out ev y then None
      else case bexec ev y of
          None \<Rightarrow> None
        | Some (ls, y') \<Rightarrow> (if ls = [] then silent_run evs y' else None))"

definition calling_none :: "nat \<Rightarrow> 'c system \<Rightarrow> bool" where
  "calling_none p s \<longleftrightarrow> (\<forall>k r. callee s (p, k, r) = None \<and> asked s (p, k, r) = None)"

lemma permitted_silent:
  assumes "calling_none p s" and "\<not> calls_out ev (view s p)"
  shows "permitted s p ev"
proof -
  have c: "callee s (p, k, r) = None" "asked s (p, k, r) = None" for k r
    using assms(1) by (simp_all add: calling_none_def)
  have "free s (p, k, r)" "\<not> lock_held s p" "nested_done s p k" for k r
    by (simp_all add: free_def lock_held_def nested_done_def ended_def c split: main_pc.split reader_pc.split)
  then show ?thesis
    using assms(2)
    by (cases ev) (auto simp: permitted_def calls_out_def answered_def ended_def c view_def)
qed

lemma bexec_silent_crashed: "bexec ev y = Some ([], y') \<Longrightarrow> crashed y' = crashed y"
  by (cases ev)
    (auto simp: begin_session_def end_reader_def set_main_def set_reader_def
      split: if_splits prod.splits restart_result.splits option.splits main_pc.splits reader_pc.splits outcome.splits)

lemma put_put [simp]: "put_view p y (put_view p z s) = put_view p y s"
  by (simp add: put_view_def)

lemma view_put: "view (put_view p y s) p = y\<lparr>crashed := False\<rparr>"
  by (simp add: view_def put_view_def)

lemma put_view_fields [simp]:
  "down (put_view p y s) = down s" "clFresh (client (put_view p y s)) = clFresh (client s)"
  "calling_none q (put_view p y s) = calling_none q s"
  by (simp_all add: put_view_def calling_none_def)

lemma silent_sreach:
  assumes "sreach start cd c0 s" and "\<not> down s" and "p < clFresh (client s)" and "calling_none p s"
    and "silent_run evs (view s p) = Some y"
  shows "sreach start cd c0 (put_view p y s)"
proof -
  have "sreach start cd c0 (put_view p y s)"
    if "silent_run evs z = Some y" "\<not> crashed z" "sreach start cd c0 (put_view p z s)" for z
    using that
  proof (induction evs arbitrary: z)
    case (Cons ev evs)
    then obtain z' where ev: "\<not> calls_out ev z" "bexec ev z = Some ([], z')" "silent_run evs z' = Some y"
      by (auto split: if_splits option.splits)
    have v: "view (put_view p z s) p = z" using Cons.prems(2) by (simp add: view_put)
    have "permitted (put_view p z s) p ev"
      using assms(4) ev(1) v by (intro permitted_silent) simp_all
    then have step: "sys_exec start cd (SBroker p ev) (put_view p z s) = Some (put_view p z' s)"
      using assms(3) ev(2) v by (simp add: sys_broker_def)
    have "sreach start cd c0 (put_view p z' s)"
      by (rule sreach_step [OF Cons.prems(3) _ step]) (simp add: assms(2))
    moreover have "\<not> crashed z'" using bexec_silent_crashed [OF ev(2)] Cons.prems(2) by simp
    ultimately show ?case using Cons.IH ev(3) by blast
  qed simp
  note run = this
  have e: "put_view p (view s p) s = s" "\<not> crashed (view s p)" by (simp_all add: put_view_def view_def)
  show ?thesis by (rule run [OF assms(5)]) (simp_all only: e assms(1) simp_thms)
qed

text \<open>
  Broker \<open>b\<close> cannot be reached and has used up its delays; it asks for a restart of everything, and
  while \<open>owerstaying\<close> sleeps, broker \<open>a\<close> becomes ready.
\<close>

definition fail_b :: "bevent list" where
  "fail_b = EvStart # concat (map (\<lambda>k. [EvChannelFailed k False, EvTimer k]) [0 ..< 8])"

definition embrace :: "sys_event list" where
  "embrace = [SAsk 1 8 Main, SClient (Step 1 [] 0), SBroker 0 EvStart, SBroker 0 (EvChannelOpen 0),
     SBroker 0 (EvReady 0), SClient (Step 2 [] 0), SClient (Step 1 [''a'', ''b''] 0)]"

lemma fail_b: "\<exists>y. silent_run fail_b (view booted 1) = Some y \<and> duration (brk y) = 24 \<and>
    overstayCount (brk y) = 0 \<and> length (sess y) = 9 \<and> s_main (sess y ! 8) = MDial \<and> bID (brk y) = ''b''"
  by (simp add: fail_b_def upt_rec calls_out_def eval_simps)

lemma embrace_run:
  "\<exists>s :: 'c system. sreach demo_start cd boot_cli s \<and> embraced ByOverstay ''a'' [''b''] (CSet 0) 1 2 0 0 s"
proof -
  obtain y where y: "silent_run fail_b (view (booted :: 'c system) 1) = Some y" "duration (brk y) = 24"
    "overstayCount (brk y) = 0" "length (sess y) = 9" "s_main (sess y ! 8) = MDial" "bID (brk y) = ''b''"
    using fail_b by blast
  have r: "sreach demo_start cd boot_cli (put_view 1 y booted)"
    by (rule silent_sreach [OF booted _ _ _ y(1)]) (simp_all add: booted_def sys_init_def calling_none_def)
  have "\<exists>s. srun demo_start cd embrace (put_view 1 y booted) = Some s \<and>
      embraced ByOverstay ''a'' [''b''] (CSet 0) 1 2 0 0 s"
    by (simp add: embrace_def embraced_def waits_for_def y(2-6) overstayAttempts_def eval_simps)
  then show ?thesis using srun_sreach [OF r] by blast
qed

text \<open>Broker \<open>b\<close> is online and the server asks it for a reset; \<open>a\<close> becomes ready when the timer has fired.\<close>

definition embrace_reset :: "sys_event list" where
  "embrace_reset = [SBroker 1 EvStart, SBroker 1 (EvChannelOpen 0), SBroker 1 (EvReady 0),
     SClient (Step 1 [] 0), SClient (Step 1 [] 0), SBroker 1 (EvReset 0 ''u'' (0, 0)),
     SClient (Step 2 [] 0), SClient (Step 3 [] 0), SClient (Timer 3),
     SBroker 0 EvStart, SBroker 0 (EvChannelOpen 0), SBroker 0 (EvReady 0), SClient (Step 3 [''a'', ''b''] 0)]"

lemma embrace_reset_run:
  "\<exists>s :: 'c system. sreach demo_start cd boot_cli s \<and> embraced ByReset ''a'' [''b''] (CGet ''a'') 3 4 0 0 s"
proof -
  have "\<exists>s. srun demo_start cd embrace_reset booted = Some s \<and> embraced ByReset ''a'' [''b''] (CGet ''a'') 3 4 0 0 s"
    by (simp add: embrace_reset_def embraced_def waits_for_def eval_nat_numeral eval_simps)
  then show ?thesis using srun_sreach [OF booted] by blast
qed

text \<open>A reset asked for by \<open>a\<close>, and the restart; the goroutine of the old connection to \<open>a\<close> has not noticed.\<close>

definition reset_a :: "sys_event list" where
  "reset_a = [SBroker 0 (EvReset 0 ''u'' (0, 0)), SClient (Step 2 [] 0), SClient (Step 3 [] 0),
     SClient (Timer 3), SClient (Step 3 [''a'', ''b''] 0)] @ replicate 8 (SClient (Step 3 [] 0))"

definition restart_a :: "sys_event list" where
  "restart_a = [SBroker 2 EvStart, SBroker 2 (EvChannelOpen 0), SBroker 2 (EvReady 0),
     SClient (Step 4 [] 0), SClient (Step 4 [] 0)]"

definition lose_a :: "sys_event list" where
  "lose_a = up_a @ reset_a @ restart_a"

lemma lose_a_run:
  "\<exists>s. srun demo_start cd lose_a booted = Some s \<and> onlineBrokers (client s) = [2] \<and>
    connected (clMem (client s) 2) \<and> stored s 2 \<and> clFresh (client s) = 4 \<and> length (sessions s 0) = 1 \<and>
    s_main (sessions s 0 ! 0) = MWait \<and> 0 \<in> bCancelled (clMem (client s) 0) \<and> \<not> lock_held s 0 \<and>
    can_write (threads s) \<and> bID (clMem (client s) 2) = bID (clMem (client s) 0)"
  by (simp add: lose_a_def up_a_def reset_a_def restart_a_def restart_simps eval_simps)

section \<open>Properties\<close>

text \<open>
  C24. A broker that becomes ready during a restart deadlocks with it: the restart is about to stop that
  stored broker inside \<open>Done\<close>, holding the store's lock, while the broker's read goroutine is inside
  \<open>connect\<close>, holding the broker's lock and waiting for the store's, or for the client's, which
  \<open>owerstaying\<close> holds. Whatever happens afterwards, neither moves, so no \<open>connect\<close> gets past the store
  again; and if the restart is that of \<open>owerstaying\<close>, nobody gets the client's lock again, so no call of
  \<open>send\<close> gets a broker.
\<close>

theorem restart_deadlocks:
  assumes "sreach (start_in url_parse enc dec hostname envs uuid) cd c0 s"
    and "unbooted c0" and "decodes_fresh dec"
    and "t < length (threads s)" and "threads s ! t = SVisit w (i # js)"
    and "clBrokers (client s) = Some st" and "BrokerStore_Get i st = Some p"
    and "k < length (sessions s p)" and "callee s (p, k, Reader) = Some u"
    and "u < length (threads s)"
    and "threads s ! u = CGet i' \<or> threads s ! u = CSet b \<and> w = ByOverstay"
    and "ssteps (start_in url_parse enc dec hostname envs uuid) cd s s'"
  shows "threads s' ! t = SVisit w (i # js) \<and> threads s' ! u = threads s ! u \<and> lock_held s' p \<and>
    (threads s' ! j = CGet i'' \<longrightarrow>
      sys_exec (start_in url_parse enc dec hostname envs uuid) cd (SClient (Step j ks n)) s' = None) \<and>
    (w = ByOverstay \<longrightarrow> \<not> can_read (threads s') \<and> \<not> can_write (threads s') \<and>
      (threads s' ! j = NextCall \<longrightarrow>
        sys_exec (start_in url_parse enc dec hostname envs uuid) cd (SClient (Step j ks n)) s' = None))"
proof -
  note snd = Start_sound [OF assms(3), of url_parse enc hostname envs uuid]
  have "waits_for w (threads s ! u)" using assms(11) by (auto simp: waits_for_def)
  then have "embraced w i js (threads s ! u) t u p k s"
    using assms(4-10) by (simp add: embraced_def BrokerStore_Get_def)
  with embraced_for_ever [OF assms(12) sreach_inv [OF assms(1,2) snd] snd]
  have e: "embraced w i js (threads s ! u) t u p k s'" by blast
  note store = embraced_store [OF e] and held = embraced_held [OF e]
  have "\<not> can_write (threads s') \<and> \<not> can_read (threads s')" if "w = ByOverstay"
    using embraced_locked e that by blast
  with store held e show ?thesis
    by (auto simp: embraced_def sys_client_def rstep_def split: option.split)
qed

theorem restart_deadlocks_witness:
  "\<exists>s s'. sreach demo_start unary_codec boot_cli s \<and> threads s ! 1 = SVisit ByOverstay [''a'', ''b''] \<and>
     lock_held s 0 \<and> \<not> can_read (threads s) \<and>
     sreach demo_start unary_codec boot_cli s' \<and> threads s' ! 3 = SVisit ByReset [''a'', ''b''] \<and> lock_held s' 0"
proof -
  obtain s s' :: "nat system" where r: "sreach demo_start unary_codec boot_cli s"
    and e: "embraced ByOverstay ''a'' [''b''] (CSet 0) 1 2 0 0 s"
    and r': "sreach demo_start unary_codec boot_cli s'"
    and e': "embraced ByReset ''a'' [''b''] (CGet ''a'') 3 4 0 0 s'"
    using embrace_run embrace_reset_run by metis
  from e obtain st where st: "clBrokers (client s) = Some st" "BrokerStore_Get ''a'' st = Some 0"
    by (auto simp: embraced_def BrokerStore_Get_def)
  from e' obtain st' where st': "clBrokers (client s') = Some st'" "BrokerStore_Get ''a'' st' = Some 0"
    by (auto simp: embraced_def BrokerStore_Get_def)
  have "lock_held s 0 \<and> \<not> can_read (threads s)"
    using restart_deadlocks [OF r [unfolded demo_start_def] boot_cli demo_decodes _ _ st _ _ _ _ ssteps_refl,
        of 1 ByOverstay "[''b'']" 0 2 "[]" 0] e by (simp add: embraced_def)
  moreover have "lock_held s' 0"
    using restart_deadlocks [OF r' [unfolded demo_start_def] boot_cli demo_decodes _ _ st' _ _ _ _ ssteps_refl,
        of 3 ByReset "[''b'']" 0 4 "''a''"] e' by (simp add: embraced_def)
  ultimately show ?thesis using r r' e e' unfolding embraced_def by blast
qed

text \<open>
  C28. A connection that ends late takes its successor's place away: a restart stores a new broker under
  the identifier of an old one, so whenever in the running system the new broker \<open>q\<close> is connected and listed
  and the goroutine of the old broker \<open>p\<close> is still to notice that \<open>Done\<close> cancelled it, then it can do so, and
  the \<open>disconnect\<close> it calls, as soon as it has the client's lock, removes \<open>q\<close> from the list: \<open>q\<close> stays connected,
  the store and the connection are as they were, nothing is called back for \<open>q\<close>, and if nothing else was listed
  \<open>nextBroker\<close> answers that the client is not connected.
\<close>

theorem late_end_unlists_successor:
  assumes "p < clFresh (client s)"
    and "k < length (sessions s p)" and "s_main (sessions s p ! k) = MWait" and "k \<in> bCancelled (clMem (client s) p)"
    and "\<not> lock_held s p" and "can_write (threads s)"
    and "q \<noteq> p" and "bID (clMem (client s) q) = bID (clMem (client s) p)"
    and "q \<in> set (onlineBrokers (client s))" and "connected (clMem (client s) q)"
  shows "\<exists>s1 s2. sys_exec start cd (SBroker p (EvWake k)) s = Some s1 \<and>
    threads s1 = threads s @ [DDelete (bID (clMem (client s) q))] \<and>
    sys_exec start cd (SClient (Step (length (threads s)) ks n)) s1 = Some s2 \<and>
    q \<notin> set (onlineBrokers (client s2)) \<and> connected (clMem (client s2) q) \<and> view s2 q = view s q \<and>
    clBrokers (client s2) = clBrokers (client s) \<and> (\<forall>j r. callee s2 (q, j, r) = callee s (q, j, r)) \<and>
    ((\<forall>b \<in> set (onlineBrokers (client s)). bID (clMem (client s) b) = bID (clMem (client s) q)) \<longrightarrow>
      nextBroker (client s2) = (Inl ErrClientNotConnected, client s2))"
proof -
  let ?i = "bID (clMem (client s) q)"
  define y where "y = set_main k MEnd ((view s p)\<lparr>brk := Start_end (clMem (client s) p)\<rparr>)"
  define s1 where "s1 = call_back (p, k, Main) (DDelete ?i) (put_view p y s)"
  have y: "brk y = Start_end (clMem (client s) p)" by (simp add: y_def)
  have one: "sys_exec start cd (SBroker p (EvWake k)) s = Some s1"
    using assms(1-5,8)
    by (simp add: sys_broker_def permitted_def view_def sys_label_def event_caller_def s1_def put_view_def y_def)
  have t1: "threads s1 = threads s @ [DDelete ?i]" by (simp add: s1_def call_back_def put_view_def)
  have "can_write (threads s1)" using assms(6) by (simp add: t1 can_write_def)
  then obtain s2 where two: "sys_exec start cd (SClient (Step (length (threads s)) ks n)) s1 = Some s2"
    and c2: "client s2 = Client_delete ?i (client s1)" and rest: "sessions s2 = sessions s1" "callee s2 = callee s1"
    by (simp add: sys_client_def client_permitted_def t1 rstep_def go_def)
  have mem: "clMem (client s1) = (clMem (client s))(p := Start_end (clMem (client s) p))"
    "onlineBrokers (client s1) = onlineBrokers (client s)" "clBrokers (client s1) = clBrokers (client s)"
    by (simp_all add: s1_def call_back_def put_view_def y)
  have id: "bID (clMem (client s1) b) = bID (clMem (client s) b)" for b by (simp add: mem)
  have list: "onlineBrokers (client s2) = filter (\<lambda>b. bID (clMem (client s) b) \<noteq> ?i) (onlineBrokers (client s))"
    by (simp add: c2 Client_delete_def Let_def mem(2) id)
  have "view s2 q = view s q" "clBrokers (client s2) = clBrokers (client s)" "connected (clMem (client s2) q)"
    using assms(7,10) by (simp_all add: view_def c2 Client_delete_def Let_def rest mem s1_def call_back_def put_view_def)
  moreover have "callee s2 (q, j, r) = callee s (q, j, r)" for j r
    using assms(7) by (simp add: rest s1_def call_back_def put_view_def)
  moreover have "nextBroker (client s2) = (Inl ErrClientNotConnected, client s2)"
    if "\<forall>b \<in> set (onlineBrokers (client s)). bID (clMem (client s) b) = ?i"
  proof (rule nextBroker_offline)
    have "onlineBrokers (client s2) = []" using that by (simp add: list)
    then show "\<not> online (client s2)" by (simp add: c2 Client_delete_def Let_def)
  qed
  ultimately show ?thesis using one two t1 by (intro exI [of _ s1] exI [of _ s2]) (simp add: list)
qed

theorem late_end_unlists_successor_witness:
  "\<exists>s s1 s2 :: nat system. sreach demo_start unary_codec boot_cli s \<and> onlineBrokers (client s) = [2] \<and> stored s 2 \<and>
     sys_exec demo_start unary_codec (SBroker 0 (EvWake 0)) s = Some s1 \<and>
     sys_exec demo_start unary_codec (SClient (Step (length (threads s)) [] 0)) s1 = Some s2 \<and>
     connected (clMem (client s2) 2) \<and> nextBroker (client s2) = (Inl ErrClientNotConnected, client s2)"
proof -
  obtain s :: "nat system" where s: "srun demo_start unary_codec lose_a booted = Some s" "onlineBrokers (client s) = [2]"
    "connected (clMem (client s) 2)" "stored s 2" "clFresh (client s) = 4" "length (sessions s 0) = 1"
    "s_main (sessions s 0 ! 0) = MWait" "0 \<in> bCancelled (clMem (client s) 0)" "\<not> lock_held s 0" "can_write (threads s)"
    "bID (clMem (client s) 2) = bID (clMem (client s) 0)"
    using lose_a_run by blast
  have r: "sreach demo_start unary_codec boot_cli s" by (rule srun_sreach [OF booted s(1)])
  show ?thesis
    using late_end_unlists_successor [of 0 s 0 2 demo_start unary_codec "[]" 0] s(2-) r by auto
qed

end
