(* ===== verification/Client_Progress.thy ===== *)
theory Client_Progress
  imports Client_Races
begin

text \<open>
  Where the goroutines of the client can come to a halt (src/client/client.go, src/broker/store.go): in the
  composed system of theory \<open>Client_System\<close> they wait for the client's lock, the store's lock, the lock of a
  broker, and at two channels. The blocking operations are all among the steps: the send on
  \<open>stopResetProcess\<close> under the client's read lock, the registration request of a \<open>Start\<close> that \<open>owerstaying\<close>
  calls under the write lock, and the visit of a broker whose \<open>_.ready\<close> handler holds its lock.
\<close>

section \<open>Steps that can be taken\<close>





section \<open>What a halted client waits for\<close>

















section \<open>Properties\<close>



end
