(* ===== verification/Client_Boot.thy ===== *)
theory Client_Boot
  imports Client_Reset
begin

text \<open>
  \<open>Start\<close>, the goroutine of \<open>reset\<close> and \<open>owerstaying\<close> (src/client/client.go): as functions in theory
  \<open>Client_Start\<close>, as steps in theory \<open>Client_Reset\<close>. Undisturbed, the steps do what the functions do. And
  what can disturb the \<open>Start\<close> that \<open>pubsub.New\<close> launches: it holds no lock of the client, every broker
  it has launched may already call back, and it clears the process flags only at the end.
\<close>

section \<open>A goroutine on its own\<close>

fun solo :: "start_fun \<Rightarrow> string list \<Rightarrow> nat \<Rightarrow> nat \<Rightarrow> rpc list \<times> Client \<Rightarrow> (rpc list \<times> Client) option" where
  "solo start ks n 0 s = Some s"
| "solo start ks n (Suc m) s =
     (case rstep start 0 ks n s of None \<Rightarrow> None | Some s' \<Rightarrow> solo start ks n m s')"

definition ends :: "start_fun \<Rightarrow> string list \<Rightarrow> nat \<Rightarrow> rpc \<Rightarrow> Client \<Rightarrow> Client \<Rightarrow> bool" where
  "ends start ks n t c c' \<longleftrightarrow> (\<exists>m. solo start ks n m ([t], c) = Some ([Ended], c'))"

lemma solo_step:
  assumes "t \<noteq> Ended"
  shows "ends start ks n t c c' \<longleftrightarrow>
    (\<exists>s m. rstep start 0 ks n ([t], c) = Some s \<and> solo start ks n m s = Some ([Ended], c'))"
proof
  assume "ends start ks n t c c'"
  then obtain m where "solo start ks n m ([t], c) = Some ([Ended], c')" by (auto simp: ends_def)
  with assms show "\<exists>s m. rstep start 0 ks n ([t], c) = Some s \<and> solo start ks n m s = Some ([Ended], c')"
    by (cases m) (auto split: option.splits)
next
  assume "\<exists>s m. rstep start 0 ks n ([t], c) = Some s \<and> solo start ks n m s = Some ([Ended], c')"
  then obtain s m where "rstep start 0 ks n ([t], c) = Some s" "solo start ks n m s = Some ([Ended], c')" by blast
  then have "solo start ks n (Suc m) ([t], c) = Some ([Ended], c')" by simp
  then show "ends start ks n t c c'" unfolding ends_def by blast
qed

lemma ends_Ended: "ends start ks n Ended c c' \<longleftrightarrow> c' = c"
proof -
  have "solo start ks n m ([Ended], c) = Some ([Ended], c') \<longleftrightarrow> m = 0 \<and> c' = c" for m
    by (cases m) (auto simp: rstep_def)
  then show ?thesis by (auto simp: ends_def)
qed

lemma ends_to:
  assumes "rstep start 0 ks n ([t], c) = Some ([t'], d)"
  shows "ends start ks n t c c' = ends start ks n t' d c'"
proof -
  have "t \<noteq> Ended" using assms by (auto simp: rstep_def)
  from solo_step [OF this] show ?thesis using assms by (simp add: ends_def)
qed

lemma ends_none: "t \<noteq> Ended \<Longrightarrow> rstep start 0 ks n ([t], c) = None \<Longrightarrow> \<not> ends start ks n t c c'"
  by (simp add: solo_step)

lemma ends_launch:
  "ends start ks n (SLaunch w auth pid bks) c c' \<longleftrightarrow>
   (\<exists>d ls. start_brokers auth pid bks c = Returns (d, ls) \<and>
      c' = d\<lparr>overstayProcess := False, resetProcess := False\<rparr>)"
proof (induction bks arbitrary: c)
  case Nil
  have "rstep start 0 ks n ([SLaunch w auth pid []], c) =
      Some ([Ended], c\<lparr>overstayProcess := False, resetProcess := False\<rparr>)"
    by (simp add: rstep_def go_def)
  from ends_to [OF this] show ?case by (simp add: ends_Ended)
next
  case (Cons b bks)
  show ?case
  proof (cases b)
    case None
    then have "rstep start 0 ks n ([SLaunch w auth pid (b # bks)], c) = None" by (simp add: rstep_def)
    with ends_none None show ?thesis by simp
  next
    case (Some bk)
    obtain d l where d: "launch_one auth pid bk c = (d, l)" by force
    with Some have "rstep start 0 ks n ([SLaunch w auth pid (b # bks)], c) = Some ([SLaunch w auth pid bks], d)"
      by (simp add: rstep_def go_def can_store_def holds_store_def)
    from ends_to [OF this] show ?thesis by (auto simp: Cons.IH Some d split: outcome.splits)
  qed
qed

lemma ends_make:
  "ends (start_in url_parse enc dec hostname envs uuid) ks n (SMake w) c c' \<longleftrightarrow>
   (\<exists>ls. Client_Start url_parse enc dec (envs n) hostname (uuid n) c = Some (Returns (c', ls)))"
proof -
  let ?st = "start_in url_parse enc dec hostname envs uuid"
  let ?pid = "if hostname = [] then uuid n else hostname"
  let ?a = "answered_request url_parse enc dec (envs n) (make_stop c)"
  have "rstep ?st 0 ks n ([SMake w], c) = Some ([SRequest w], make_stop c)" by (simp add: rstep_def go_def)
  from ends_to [OF this]
  have make: "ends ?st ks n (SMake w) c c' = ends ?st ks n (SRequest w) (make_stop c) c'" .
  show ?thesis
  proof (cases ?a)
    case None
    then have "rstep ?st 0 ks n ([SRequest w], make_stop c) = None" by (simp add: rstep_def start_in_def)
    with ends_none make None show ?thesis by (simp add: Client_Start_def Start_rest_answered)
  next
    case (Some bks)
    then have "rstep ?st 0 ks n ([SRequest w], make_stop c) =
        Some ([SLaunch w (Client_auth (make_stop c)) ?pid bks], set_up ?pid (make_stop c))"
      by (simp add: rstep_def go_def start_in_def)
    from ends_to [OF this] show ?thesis
      unfolding make Client_Start_def Start_rest_answered Some ends_launch by auto
  qed
qed

lemma brokers_Done_Cons:
  "brokers_Done (i # js) c = (case brokers_Done [i] c of Panics e \<Rightarrow> Panics e | Returns d \<Rightarrow> brokers_Done js d)"
  by (auto simp: brokers_Done_def Let_def split: option.split prod.split)

lemma brokers_Done_Nil: "clBrokers c \<noteq> None \<Longrightarrow> brokers_Done [] c = Returns c"
  by (auto simp: brokers_Done_def)

lemma brokers_Done_keeps: "brokers_Done ks c = Returns d \<Longrightarrow> clBrokers d \<noteq> None"
  by (auto simp: brokers_Done_def Let_def split: option.splits prod.splits)

lemma ends_visit:
  assumes "clBrokers c \<noteq> None"
  shows "ends start ks n (SVisit w js) c c' \<longleftrightarrow>
    (\<exists>d. brokers_Done js c = Returns d \<and> ends start ks n (SMake w) d c')"
  using assms
proof (induction js arbitrary: c)
  case Nil
  have "rstep start 0 ks n ([SVisit w []], c) = Some ([SMake w], c)" by (simp add: rstep_def go_def)
  from ends_to [OF this] show ?case by (simp add: brokers_Done_Nil Nil)
next
  case (Cons j js)
  show ?case
  proof (cases "brokers_Done [j] c")
    case (Panics e)
    then have "rstep start 0 ks n ([SVisit w (j # js)], c) = None" by (simp add: rstep_def)
    from ends_none [OF _ this] show ?thesis by (subst brokers_Done_Cons) (simp add: Panics)
  next
    case (Returns d)
    then have "rstep start 0 ks n ([SVisit w (j # js)], c) = Some ([SVisit w js], d)"
      by (simp add: rstep_def go_def)
    from ends_to [OF this] Cons.IH [OF brokers_Done_keeps [OF Returns]]
    show ?thesis by (subst brokers_Done_Cons) (simp add: Returns)
  qed
qed

lemma ends_stop:
  "ends start ks n (SStop w) c c' \<longleftrightarrow> (\<exists>d. brokers_Done ks c = Returns d \<and> ends start ks n (SMake w) d c')"
proof (cases "clBrokers c")
  case None
  then have "rstep start 0 ks n ([SStop w], c) = None" by (simp add: rstep_def)
  with ends_none None show ?thesis by (simp add: brokers_Done_def)
next
  case (Some s)
  then have "rstep start 0 ks n ([SStop w], c) = Some ([SVisit w ks], c)"
    by (simp add: rstep_def go_def can_store_def holds_store_def)
  from ends_to [OF this] show ?thesis using ends_visit Some by simp
qed

text \<open>
  The steps that the interleavings are made of are the functions: alone, with the map ranged over in
  the order \<open>ks\<close>, the goroutine of \<open>Start\<close>, the restart of \<open>reset\<close> after its wait and the call of
  \<open>owerstaying\<close> end in a state exactly when \<open>Start\<close>, \<open>reset\<close>'s tail and \<open>owerstaying\<close> return it. A call that
  panics or never returns has no last step.
\<close>

lemma steps_are_calls:
  "(ends (start_in url_parse enc dec hostname envs uuid) ks n (SMake w) c c' \<longleftrightarrow>
     (\<exists>ls. Client_Start url_parse enc dec (envs n) hostname (uuid n) c = Some (Returns (c', ls)))) \<and>
   (ends (start_in url_parse enc dec hostname envs uuid) ks n (SStop ByReset) c c' \<longleftrightarrow>
     (\<exists>ls. reset_restart (Client_Start url_parse enc dec (envs n) hostname (uuid n)) ks c =
        Some (Returns (c', ls)))) \<and>
   (ends (start_in url_parse enc dec hostname envs uuid) ks n OCall c c' \<longleftrightarrow>
     (\<exists>b ls. Client_owerstaying (Client_Start url_parse enc dec (envs n) hostname (uuid n)) ks c =
        Some (Returns (b, c', ls))))"
proof (intro conjI)
  let ?st = "start_in url_parse enc dec hostname envs uuid"
  show "ends ?st ks n (SMake w) c c' \<longleftrightarrow>
     (\<exists>ls. Client_Start url_parse enc dec (envs n) hostname (uuid n) c = Some (Returns (c', ls)))"
    by (rule ends_make)
  show "ends ?st ks n (SStop ByReset) c c' \<longleftrightarrow>
     (\<exists>ls. reset_restart (Client_Start url_parse enc dec (envs n) hostname (uuid n)) ks c = Some (Returns (c', ls)))"
    by (auto simp: ends_stop ends_make reset_restart_def split: outcome.split)
  show "ends ?st ks n OCall c c' \<longleftrightarrow>
     (\<exists>b ls. Client_owerstaying (Client_Start url_parse enc dec (envs n) hostname (uuid n)) ks c =
        Some (Returns (b, c', ls)))"
  proof (cases "resetProcess c \<or> online c \<or> overstayProcess c")
    case True
    then have "rstep ?st 0 ks n ([OCall], c) = Some ([Ended], c)"
      by (simp add: rstep_def go_def can_write_def)
    from ends_to [OF this] show ?thesis
      using True by (auto simp: ends_Ended Client_owerstaying_def intro: exI [of _ False])
  next
    case False
    then have "rstep ?st 0 ks n ([OCall], c) = Some ([SStop ByOverstay], c\<lparr>overstayProcess := True\<rparr>)"
      by (simp add: rstep_def go_def can_write_def)
    from ends_to [OF this] show ?thesis
      using False by (auto simp: ends_stop ends_make Client_owerstaying_def split: outcome.splits option.splits)
  qed
qed

section \<open>While the first \<open>Start\<close> runs\<close>

definition booting_at :: "rpc \<Rightarrow> bool" where
  "booting_at t \<longleftrightarrow> (case t of SRequest w \<Rightarrow> w = ByNew | SLaunch w auth pid bks \<Rightarrow> w = ByNew | _ \<Rightarrow> False)"

text \<open>Goroutine 0 is that \<open>Start\<close>; it is the only one, and until it ends the invariant holds.\<close>

definition boot_inv :: "rpc list \<times> Client \<Rightarrow> bool" where
  "boot_inv s \<longleftrightarrow> (case s of (ts, c) \<Rightarrow>
     (\<forall>k < length ts. runner_of (ts ! k) = Some ByNew \<longrightarrow> k = 0 \<and> booting_at (ts ! 0) \<and> rinv (ts, c)))"

lemma booting_at_step:
  assumes "rexec start ev (ts, c) = Some (ts', c')" and "0 < length ts" and "booting_at (ts ! 0)"
    and "runner_of (ts' ! 0) = Some ByNew"
  shows "booting_at (ts' ! 0) \<and> (\<forall>ks n. ev = Step 0 ks n \<longrightarrow> boot_safe (ts ! 0) c)"
proof (cases ev)
  case (Spawn t)
  with assms show ?thesis by (auto simp: nth_append split: if_splits)
next
  case (Step k ks n)
  with assms have k: "k < length ts" and st: "rstep start k ks n (ts, c) = Some (ts', c')"
    by (auto split: if_splits)
  show ?thesis
  proof (cases "k = 0")
    case False
    obtain t where "ts' = ts[k := t] \<or> ts' = (ts @ [RSelect])[k := t]"
      using rstep_positions [OF st k] by blast
    then have "ts' ! 0 = ts ! 0" using False assms(2) by (auto simp: nth_append)
    then show ?thesis using assms(3) Step False by simp
  next
    case True
    with st assms(2-4) Step show ?thesis
      by (auto simp: booting_at_def boot_safe_def rstep_def go_def runner_of_def
          split: rpc.splits list.splits option.splits if_splits)
  qed
next
  case (Timer k)
  with assms show ?thesis
    by (auto simp: go_def nth_list_update booting_at_def runner_of_def split: if_splits rpc.splits)
next
  case (Sync k j)
  with assms show ?thesis
    by (auto simp: go_def nth_list_update booting_at_def runner_of_def split: if_splits rpc.splits)
qed

lemma boot_inv_step:
  assumes inv: "boot_inv (ts, c)" and step: "rexec start ev (ts, c) = Some (ts', c')"
  shows "boot_inv (ts', c')"
proof -
  have "k = 0 \<and> booting_at (ts' ! 0) \<and> rinv (ts', c')"
    if k: "k < length ts'" "runner_of (ts' ! k) = Some ByNew" for k
  proof -
    from rexec_boots(2) [OF step k] have k': "k < length ts" "runner_of (ts ! k) = Some ByNew" by simp_all
    with inv have i: "k = 0" "booting_at (ts ! 0)" "rinv (ts, c)" by (auto simp: boot_inv_def)
    from booting_at_step [OF step _ i(2)] k k' i(1)
    have b: "booting_at (ts' ! 0)" "\<forall>ks n. ev = Step 0 ks n \<longrightarrow> boot_safe (ts ! 0) c" by auto
    have "boot_safe (ts ! j) c" if "j < length ts" "j \<noteq> 0" for j
    proof -
      have "runner_of (ts ! j) \<noteq> Some ByNew" using inv that by (auto simp: boot_inv_def)
      then show ?thesis by (auto simp: boot_safe_def runner_of_def)
    qed
    then have "ev_safe ev (ts, c)"
    proof (cases ev)
      case (Step j ks n)
      then show ?thesis
        using b(2) step \<open>\<And>j. j < length ts \<Longrightarrow> j \<noteq> 0 \<Longrightarrow> boot_safe (ts ! j) c\<close>
        by (cases "j = 0") (auto simp: ev_safe_def split: if_splits)
    qed (simp_all add: ev_safe_def)
    with rexec_inv [OF i(3) step] i(1) b(1) show ?thesis by simp
  qed
  then show ?thesis by (simp add: boot_inv_def)
qed

lemma boot_inv_steps: "rsteps start s s' \<Longrightarrow> boot_inv s \<Longrightarrow> boot_inv s'"
proof (induction rule: rsteps.induct)
  case (rsteps_step s s' ev s'')
  then show ?case using boot_inv_step by (metis prod.collapse)
qed simp

lemma boot_inv_init: "resting c0 \<Longrightarrow> boot_inv ([SRequest ByNew], make_stop c0)"
  by (auto simp: boot_inv_def booting_at_def resting_def rinv_def actives_def)

section \<open>A run\<close>

definition one_start :: start_fun where
  "one_start = start_in Inr demo_enc (demo_dec [Some (new_broker ''a'' ''h'' 443 False)]) ''pod''
     (\<lambda>n m. demo_turn True) (\<lambda>n. ''uuid'')"

lemma one_start: "one_start n (make_stop start_cli) = Some (''pod'', [Some (new_broker ''a'' ''h'' 443 False)])"
proof -
  have "HttpClient_New (http_options start_cli) = Returns demo_client"
    using start_cli by (simp add: HttpClient_New_options http_client_def)
  then show ?thesis
    using start_cli(2) by (simp add: one_start_def start_in_def answered_request_def make_stop_def demo_Request)
qed

text \<open>Broker \<open>a\<close> is launched and asks for a reset, and a second call of \<open>reset\<close> comes in.\<close>

definition early_reset :: "revent list" where
  "early_reset = [Step 0 [] 0, Step 0 [] 0, Spawn ResetCall, Step 1 [] 0, Spawn ResetCall]"

lemma early_reset:
  "\<exists>auth c. rrun one_start early_reset ([SRequest ByNew], make_stop start_cli) =
     Some ([SLaunch ByNew auth ''pod'' [], Ended, RSelect, ResetCall], c) \<and> resetProcess c"
proof -
  let ?c = "set_up ''pod'' (make_stop start_cli)"
  have "\<not> resetProcess start_cli" by (simp add: start_cli_def demo_cli_def)
  moreover have "resetProcess (fst (launch_one auth pid bk ?c)) = resetProcess start_cli" for auth pid bk
    using same_flags_simps(3) [of "make_stop start_cli" "''pod''"] same_flags_simps(4) [of ?c]
    by (simp add: same_flags_def)
  ultimately show ?thesis
    by (simp add: early_reset_def one_start rstep_def go_def entry_def can_write_def can_store_def
        holds_store_def Client_reset_def)
qed

section \<open>Properties\<close>

text \<open>
  C23. A restart replaces every broker. When the goroutine of a reset, or of \<open>owerstaying\<close>, starts over with
  the required settings and the server answers with brokers of distinct identifiers, its steps, undisturbed
  and in whatever order \<open>Done\<close> ranges over the map, end in one state: every broker that was stored has been told to
  stop, no other old one has; the store holds exactly the new brokers, each under its identifier at a new
  address, not started yet, with the certificate configured for it; there is a new channel for stop
  signals; both process flags are clear; and the list of online brokers is what it was, so the stopped ones
  stay listed until they report their end.
\<close>

theorem restart_replaces_brokers:
  assumes "client_inv c" and "clBrokers c = Some s" and "dom (brokers s) \<subseteq> set ks" and "ran (brokers s) \<subseteq> {..< clFresh c}"
    and "clHost c \<noteq> []" and "clModule c \<noteq> []" and "clProject c \<noteq> []"
    and "Request url_parse enc dec (http_client c) (request_options c) (envs n) = Some (Inr (map Some bks), slept)"
    and "distinct (map bID bks)"
  shows "\<exists>c' s'. (\<forall>d. ends (start_in url_parse enc dec hostname envs uuid) ks n (SStop w) c d \<longleftrightarrow> d = c') \<and>
    (\<forall>p < clFresh c. clMem c' p = (if p \<in> ran (brokers s) then Broker_Done (clMem c p) else clMem c p)) \<and>
    clBrokers c' = Some s' \<and> dom (brokers s') = bID ` set bks \<and> clFresh c' = clFresh c + length bks \<and>
    (\<forall>j < length bks. BrokerStore_Get (bID (bks ! j)) s' = Some (clFresh c + j) \<and>
       clMem c' (clFresh c + j) = with_cert (Certs c) (bks ! j)) \<and>
    stopResetProcess c' = Suc (stopResetProcess c) \<and> \<not> resetProcess c' \<and> \<not> overstayProcess c' \<and>
    online c' = online c \<and> onlineBrokers c' = onlineBrokers c"
proof -
  let ?pid = "if hostname = [] then uuid n else hostname"
  let ?mem = "stopped_brokers s (clMem c)"
  let ?c = "c\<lparr>clBrokers := Some BrokerStore_New, clMem := ?mem\<rparr>"
  let ?d = "?c\<lparr>stopResetProcess := Suc (stopResetProcess c), clPID := ?pid\<rparr>"
  note stopped = brokers_Done_spec [OF assms(1-3)]
  have same: "http_client ?c = http_client c" "request_options ?c = request_options c" "http_options ?c = http_options c"
    by (simp_all add: http_client_def request_options_def http_options_def Client_auth_def)
  have new: "HttpClient_New (http_options ?c) = Returns (http_client c)"
    using assms(5-7) by (simp only: same) (simp add: HttpClient_New_options http_client_def)
  have ans: "answered_request url_parse enc dec (envs n) (make_stop ?c) = Some (map Some bks)"
    using assms(8) new same by (simp add: answered_request_def make_stop_def)
  have set_up: "set_up ?pid (make_stop ?c) = ?d" by (simp add: set_up_def make_stop_def Let_def)
  obtain c' s' ls where run: "start_brokers (Client_auth (make_stop ?c)) ?pid (map Some bks) ?d = Returns (c', ls)"
    and c': "c' = ?d\<lparr>clMem := clMem c', clFresh := clFresh ?d + length bks, clBrokers := Some s'\<rparr>"
    and old: "\<forall>p < clFresh ?d. clMem c' p = clMem ?d p"
    and mem: "\<forall>j < length bks. clMem c' (clFresh ?d + j) = with_cert (Certs ?d) (bks ! j)"
    and get: "\<forall>j < length bks. BrokerStore_Get (bID (bks ! j)) s' = Some (clFresh ?d + j)"
    and other: "\<forall>i. i \<notin> bID ` set bks \<longrightarrow> BrokerStore_Get i s' = BrokerStore_Get i BrokerStore_New"
    using start_brokers_spec [OF assms(9), of ?d BrokerStore_New "Client_auth (make_stop ?c)" ?pid] by auto
  let ?e = "c'\<lparr>overstayProcess := False, resetProcess := False\<rparr>"
  have "ends (start_in url_parse enc dec hostname envs uuid) ks n (SStop w) c d \<longleftrightarrow> d = ?e" for d
    by (auto simp: ends_stop ends_make stopped Client_Start_def Start_rest_answered ans set_up run)
  moreover have "dom (brokers s') = bID ` set bks"
  proof -
    have "brokers s' i \<noteq> None \<longleftrightarrow> i \<in> bID ` set bks" for i
    proof
      assume "brokers s' i \<noteq> None"
      then show "i \<in> bID ` set bks" using other by (auto simp: BrokerStore_Get_def BrokerStore_New_def)
    next
      assume "i \<in> bID ` set bks"
      then obtain j where "j < length bks" "i = bID (bks ! j)" by (auto simp: in_set_conv_nth)
      then show "brokers s' i \<noteq> None" using get by (simp add: BrokerStore_Get_def)
    qed
    then show ?thesis by (auto simp: dom_def)
  qed
  moreover have "clFresh c' = clFresh c + length bks" "stopResetProcess c' = Suc (stopResetProcess c)"
    "online c' = online c" "onlineBrokers c' = onlineBrokers c" "clBrokers c' = Some s'" by (subst c', simp)+
  ultimately show ?thesis
    using old mem get by (intro exI [of _ ?e] exI [of _ s']) (simp add: stopped_brokers_def)
qed

theorem restart_replaces_brokers_witness:
  "\<exists>c'. ends (start_in Inr demo_enc (demo_dec [Some (new_broker ''b'' ''h'' 444 False)]) ''pod'' (\<lambda>n m. demo_turn True)
      (\<lambda>n. ''uuid'')) [''b'', ''a''] 0 (SStop ByReset) start_cli c' \<and>
    brokers (the (clBrokers c')) = [''b'' \<mapsto> clFresh start_cli] \<and> stopResetProcess c' = Suc (stopResetProcess start_cli)"
proof -
  let ?bk = "new_broker ''b'' ''h'' 444 False"
  have inv: "client_inv start_cli" using demo_cli_inv by (simp add: client_inv_def start_cli_def)
  have st: "clBrokers start_cli = Some cli_store" using cli_store by (simp add: start_cli_def)
  have d: "dom (brokers cli_store) \<subseteq> set [''b'', ''a'']" "ran (brokers cli_store) \<subseteq> {..< clFresh start_cli}"
    by (auto simp: cli_store_def start_cli_def demo_cli_def ran_def split: if_splits)
  let ?st = "start_in Inr demo_enc (demo_dec (map Some [?bk])) ''pod'' (\<lambda>n m. demo_turn True) (\<lambda>n. ''uuid'')"
  have r: "Request Inr demo_enc (demo_dec (map Some [?bk])) (http_client start_cli) (request_options start_cli)
      (\<lambda>m. demo_turn True) = Some (Inr (map Some [?bk]), [])"
    by (simp only: start_cli demo_Request)
  have "distinct (map bID [?bk])" by simp
  from restart_replaces_brokers [where hostname = "''pod''" and uuid = "\<lambda>n. ''uuid''" and w = ByReset and n = 0 and
      envs = "\<lambda>n m. demo_turn True", OF inv st d start_cli(3-5) r this]
  obtain c' s' where e: "\<forall>x. ends ?st [''b'', ''a''] 0 (SStop ByReset) start_cli x \<longleftrightarrow> x = c'"
    and s': "clBrokers c' = Some s'" "dom (brokers s') = bID ` set [?bk]"
    "\<forall>j < length [?bk]. BrokerStore_Get (bID ([?bk] ! j)) s' = Some (clFresh start_cli + j) \<and>
       clMem c' (clFresh start_cli + j) = with_cert (Certs start_cli) ([?bk] ! j)"
    "stopResetProcess c' = Suc (stopResetProcess start_cli)"
    by (elim exE conjE) (rule that; assumption)
  have i: "bID ?bk = ''b''" by (simp add: new_broker_def)
  have "brokers s' ''b'' = Some (clFresh start_cli)" using s'(3) by (simp add: i BrokerStore_Get_def)
  moreover have "brokers s' j = None" if "j \<noteq> ''b''" for j
  proof -
    have "j \<notin> dom (brokers s')" using that by (simp only: s'(2) i list.set image_insert image_empty) simp
    then show ?thesis by (simp only: domIff not_not)
  qed
  ultimately have "brokers s' = [''b'' \<mapsto> clFresh start_cli]" by (intro ext) simp
  moreover have "ends ?st [''b'', ''a''] 0 (SStop ByReset) start_cli c'" using e by blast
  ultimately show ?thesis using s'(1,4) by (intro exI [of _ c']) simp
qed

text \<open>
  C29. \<open>Start\<close> forgets a reset requested while it runs: when its loop is done, one reset goroutine runs
  if a broker it launched has asked for a reset, but the last step clears the flag all the same, and
  then the next \<open>reset\<close> spawns a second one beside it.
\<close>

theorem Start_forgets_reset:
  assumes "resting c0" and "rsteps start ([SRequest ByNew], make_stop c0) (ts, c)"
    and "0 < length ts" and "ts ! 0 = SLaunch ByNew auth pid []" and "resetProcess c"
    and "k < length ts" and "ts ! k = ResetCall" and "can_write ts"
  shows "length (filter ractive ts) = 1 \<and>
    (\<exists>c' c'' ts''.
      rexec start (Step 0 [] n) (ts, c) = Some (ts[0 := Ended], c') \<and> \<not> resetProcess c' \<and>
      rexec start (Step k [] n) (ts[0 := Ended], c') = Some (ts'', c'') \<and>
      length (filter ractive ts'') = 2)"
proof -
  have "boot_inv (ts, c)" by (rule boot_inv_steps [OF assms(2) boot_inv_init [OF assms(1)]])
  then have inv: "rinv (ts, c)" using assms(3,4) by (auto simp: boot_inv_def runner_of_def)
  then have one: "actives ts = 1" using rinvD(2) assms(5) by fastforce
  let ?ts = "ts[0 := Ended]" and ?c = "c\<lparr>overstayProcess := False, resetProcess := False\<rparr>"
  have k: "k \<noteq> 0" using assms(4,7) by (cases k) auto
  have w: "can_write ?ts" using assms(8) upd_mem [of _ ts 0 Ended] by (fastforce simp: can_write_def)
  have "actives ?ts = 1" using actives_update [OF assms(3), of Ended] one assms(4) by simp
  then have "actives (?ts @ [RSelect]) = 2" by (simp add: actives_def)
  then have two: "actives ((?ts @ [RSelect])[k := Ended]) = 2"
    using actives_update [of k "?ts @ [RSelect]" Ended] assms(6,7) k by (simp add: nth_append)
  have s1: "rexec start (Step 0 [] n) (ts, c) = Some (?ts, ?c)"
    using assms(3,4) by (simp add: rstep_def go_def)
  have s2: "rexec start (Step k [] n) (?ts, ?c) = Some ((?ts @ [RSelect])[k := Ended], ?c\<lparr>resetProcess := True\<rparr>)"
    using assms(6,7) k w by (simp add: rstep_def go_def Client_reset_def)
  from one s1 s2 two show ?thesis unfolding actives_def by (intro conjI exI) simp_all
qed

theorem Start_forgets_reset_witness:
  "\<exists>auth c c' c'' ts''. rsteps one_start ([SRequest ByNew], make_stop start_cli)
      ([SLaunch ByNew auth ''pod'' [], Ended, RSelect, ResetCall], c) \<and>
    rexec one_start (Step 0 [] 0) ([SLaunch ByNew auth ''pod'' [], Ended, RSelect, ResetCall], c) =
      Some ([Ended, Ended, RSelect, ResetCall], c') \<and> \<not> resetProcess c' \<and>
    rexec one_start (Step 3 [] 0) ([Ended, Ended, RSelect, ResetCall], c') = Some (ts'', c'') \<and>
    length (filter ractive ts'') = 2"
proof -
  obtain auth c where run: "rrun one_start early_reset ([SRequest ByNew], make_stop start_cli) =
      Some ([SLaunch ByNew auth ''pod'' [], Ended, RSelect, ResetCall], c)" and r: "resetProcess c"
    using early_reset by blast
  note reach = rrun_rsteps [OF rsteps_refl run]
  have "resting start_cli" by (simp add: resting_def start_cli_def demo_cli_def)
  from Start_forgets_reset [OF this reach _ _ r, of auth "''pod''" 3 0]
  obtain c' c'' ts'' where
    "rexec one_start (Step 0 [] 0) ([SLaunch ByNew auth ''pod'' [], Ended, RSelect, ResetCall], c) =
      Some ([Ended, Ended, RSelect, ResetCall], c')" "\<not> resetProcess c'"
    "rexec one_start (Step 3 [] 0) ([Ended, Ended, RSelect, ResetCall], c') = Some (ts'', c'')"
    "length (filter ractive ts'') = 2"
    by (auto simp: can_write_def simp del: rexec.simps)
  with reach show ?thesis by blast
qed

end
