(* ===== verification/Client_Calls.thy ===== *)
theory Client_Calls
  imports Client_Service
begin

text \<open>
  Publishers in the running system (src/pub/pub.go: \<open>Sub\<close>, \<open>Do\<close>; src/client/client.go: \<open>Pub\<close>, \<open>send\<close>;
  src/callback/callback.go): each call is a goroutine of its own, cut at the registry, at the client's
  lock, at the broker's lock and at the \<open>select\<close>, beside everything that theory \<open>Client_System\<close> does. A
  response waits in a goroutine of its own until the publisher takes it from its channel; the channel
  that \<open>Sub\<close> makes is numbered by the call.
\<close>

section \<open>Calls\<close>

datatype 'c pub_pc =
    PRegister                    \<comment> \<open>before \<open>RegisterCbFunc\<close>\<close>
  | PNext                        \<comment> \<open>in \<open>send\<close>, before \<open>nextBroker\<close>\<close>
  | PSend nat                    \<comment> \<open>in \<open>send\<close>, before \<open>bk.Send\<close>\<close>
  | PSelect                      \<comment> \<open>in the \<open>select\<close> of \<open>Sub\<close>\<close>
  | PUnregister "'c sub_result"  \<comment> \<open>before the deferred \<open>UnregisterCbFunc\<close>\<close>
  | PBack "'c sub_result"        \<comment> \<open>has returned\<close>

text \<open>A call of \<open>Sub\<close> names the event it waits for; a call of \<open>Do\<close> does not wait.\<close>

record 'c pub_call =
  cEvent :: "string option"
  cPub :: "'c Pub"
  cPC :: "'c pub_pc"

text \<open>
  \<open>sent\<close> is what streams accepted, by broker and stream; \<open>got\<close> is what the read loops handed to \<open>recv\<close>.
\<close>

record 'c service =
  base :: "'c system"
  callers :: "'c pub_call list"
  sent :: "(nat \<times> nat \<times> Message) list"
  got :: "Message list"

datatype 'c pub_event =
    PBase sys_event
  | Publish "'c ctx" string bytes string gotime "string option"
      \<comment> \<open>\<open>Pub(ctx, name, payload)\<close> with the identifier and time drawn, then \<open>Sub(event)\<close> or \<open>Do()\<close>\<close>
  | Move nat "nat \<Rightarrow> Message \<Rightarrow> err option"  \<comment> \<open>a call moves; what streams answer\<close>
  | Meet nat nat                 \<comment> \<open>that pending response meets that call in its \<open>select\<close>\<close>
  | CtxDone nat err              \<comment> \<open>the context of a waiting call ends\<close>
  | SetError "'c ctx" "err option"  \<comment> \<open>\<open>WithError(ctx, err)\<close> on a context in use\<close>

definition failed :: "err \<Rightarrow> 'c sub_result" where
  "failed e = \<lparr>rContext = None, rPayload = None, rErr = Some e\<rparr>"

definition passed :: "'c sub_result" where
  "passed = \<lparr>rContext = None, rPayload = None, rErr = None\<rparr>"

definition leave :: "'c sub_result \<Rightarrow> 'c pub_call \<Rightarrow> 'c pub_call" where
  "leave r cl = cl\<lparr>cPC := if cEvent cl = None then PBack r else PUnregister r\<rparr>"

definition on_wire :: "'c codec \<Rightarrow> 'c Pub \<Rightarrow> md_store \<Rightarrow> nat \<Rightarrow> Broker \<Rightarrow> (nat \<times> nat \<times> Message) list" where
  "on_wire cd p h b bk =
     (case (GetEvent cd p h, stream bk) of (Inr msg, Some s) \<Rightarrow> [(b, s, msg)] | _ \<Rightarrow> [])"

definition put_call :: "nat \<Rightarrow> 'c pub_call \<Rightarrow> Client \<Rightarrow> 'c service \<Rightarrow> 'c service" where
  "put_call j cl c sv = sv\<lparr>base := (base sv)\<lparr>client := c\<rparr>, callers := (callers sv)[j := cl]\<rparr>"

definition call_step :: "'c codec \<Rightarrow> (nat \<Rightarrow> Message \<Rightarrow> err option) \<Rightarrow> nat \<Rightarrow> 'c service \<Rightarrow> 'c service option" where
  "call_step cd strm j sv =
     (let cl = callers sv ! j; p = cPub cl; s = base sv; c = client s in
      case cPC cl of
        PRegister \<Rightarrow>
          (case cEvent cl of
             None \<Rightarrow> None
           | Some e \<Rightarrow> Some (put_call j (cl\<lparr>cPC := PNext\<rparr>) (RegisterCb e (pID p) j c) sv))
      | PNext \<Rightarrow>
          (if can_read (threads s) then
             (case nextBroker c of
                (Inl e, c) \<Rightarrow> Some (put_call j (leave (failed e) cl) c sv)
              | (Inr b, c) \<Rightarrow> Some (put_call j (cl\<lparr>cPC := PSend b\<rparr>) c sv))
           else None)
      | PSend b \<Rightarrow>
          (if lock_held s b then None
           else case Broker_Send cd strm p (heap s) (clMem c b) of
               Panics e \<Rightarrow> Some (sv\<lparr>base := s\<lparr>down := True\<rparr>\<rparr>)
             | Returns (Some e) \<Rightarrow> Some (put_call j (cl\<lparr>cPC := PNext\<rparr>) c sv)
             | Returns None \<Rightarrow>
                 Some (put_call j (cl\<lparr>cPC := if cEvent cl = None then PBack passed else PSelect\<rparr>) c
                   (sv\<lparr>sent := sent sv @ on_wire cd p (heap s) b (clMem c b)\<rparr>)))
      | PSelect \<Rightarrow> None
      | PUnregister r \<Rightarrow>
          (case cEvent cl of
             None \<Rightarrow> None
           | Some e \<Rightarrow> Some (put_call j (cl\<lparr>cPC := PBack r\<rparr>) (UnregisterCb e (pID p) c) sv))
      | PBack r \<Rightarrow> None)"

text \<open>The \<open>select\<close> of \<open>Sub\<close> goes on with an outcome.\<close>

definition selected :: "'c codec \<Rightarrow> wait_outcome \<Rightarrow> nat \<Rightarrow> Client \<Rightarrow> 'c service \<Rightarrow> 'c service" where
  "selected cd out j c sv =
     (let cl = callers sv ! j;
          (r, h) = Sub_select cd (pContext (cPub cl)) out (heap (base sv))
      in sv\<lparr>base := (base sv)\<lparr>heap := h, client := c\<rparr>,
            callers := (callers sv)[j := cl\<lparr>cPC := PUnregister r\<rparr>]\<rparr>)"

definition take_pending :: "nat \<Rightarrow> Client \<Rightarrow> Client" where
  "take_pending i c =
     (let ps = cb_pending (Callbacks c)
      in c\<lparr>Callbacks := (Callbacks c)\<lparr>cb_pending := take i ps @ drop (Suc i) ps\<rparr>\<rparr>)"

definition received :: "sys_event \<Rightarrow> Message list" where
  "received ev = (case ev of SBroker p (EvMessage k msg) \<Rightarrow> [msg] | _ \<Rightarrow> [])"

definition registry_event :: "sys_event \<Rightarrow> bool" where
  "registry_event ev \<longleftrightarrow> (case ev of SRegister e i ch \<Rightarrow> True | SUnregister e i \<Rightarrow> True | _ \<Rightarrow> False)"

fun pub_exec :: "start_fun \<Rightarrow> 'c codec \<Rightarrow> 'c pub_event \<Rightarrow> 'c service \<Rightarrow> 'c service option" where
  "pub_exec start cd (PBase ev) sv =
     (if registry_event ev then None
      else case sys_exec start cd ev (base sv) of
          None \<Rightarrow> None
        | Some s \<Rightarrow> Some (sv\<lparr>base := s, got := got sv @ received ev\<rparr>))"
| "pub_exec start cd (Publish ctx name payload uuid now event) sv =
     (if md_allocated ctx (heap (base sv)) then
        (let (p, h) = Client_Pub uuid now ctx name payload (client (base sv)) (heap (base sv));
             cl = (case event of
                 None \<Rightarrow> \<lparr>cEvent = None, cPub = p, cPC = PNext\<rparr>
               | Some e \<Rightarrow> \<lparr>cEvent = Some e, cPub = p\<lparr>pSubscribed := True\<rparr>, cPC = PRegister\<rparr>)
         in Some (sv\<lparr>base := (base sv)\<lparr>heap := h\<rparr>, callers := callers sv @ [cl]\<rparr>))
      else None)"
| "pub_exec start cd (Move j strm) sv = (if j < length (callers sv) then call_step cd strm j sv else None)"
| "pub_exec start cd (Meet i j) sv =
     (let c = client (base sv); ps = cb_pending (Callbacks c)
      in if j < length (callers sv) \<and> cPC (callers sv ! j) = PSelect \<and> i < length ps \<and> fst (ps ! i) = j
         then Some (selected cd (Received (snd (ps ! i))) j (take_pending i c) sv)
         else None)"
| "pub_exec start cd (CtxDone j e) sv =
     (if j < length (callers sv) \<and> cPC (callers sv ! j) = PSelect
      then Some (selected cd (Cancelled e) j (client (base sv)) sv) else None)"
| "pub_exec start cd (SetError ctx e) sv =
     (if md_allocated ctx (heap (base sv)) then
        Some (sv\<lparr>base := (base sv)\<lparr>heap := snd (WithError ctx e (heap (base sv)))\<rparr>\<rparr>)
      else None)"

definition pub_init :: "Client \<Rightarrow> 'c service" where
  "pub_init c = \<lparr>base = sys_init c, callers = [], sent = [], got = []\<rparr>"

fun prun :: "start_fun \<Rightarrow> 'c codec \<Rightarrow> 'c pub_event list \<Rightarrow> 'c service \<Rightarrow> 'c service option" where
  "prun start cd [] sv = Some sv"
| "prun start cd (ev # evs) sv =
     (if down (base sv) then None
      else case pub_exec start cd ev sv of None \<Rightarrow> None | Some sv' \<Rightarrow> prun start cd evs sv')"

inductive preach :: "start_fun \<Rightarrow> 'c codec \<Rightarrow> Client \<Rightarrow> 'c service \<Rightarrow> bool" for start cd c0 where
  preach_init: "preach start cd c0 (pub_init c0)"
| preach_step: "preach start cd c0 sv \<Longrightarrow> \<not> down (base sv) \<Longrightarrow> pub_exec start cd ev sv = Some sv' \<Longrightarrow>
    preach start cd c0 sv'"

lemma prun_preach: "preach start cd c0 sv \<Longrightarrow> prun start cd evs sv = Some sv' \<Longrightarrow> preach start cd c0 sv'"
  by (induction evs arbitrary: sv) (auto split: if_splits option.splits intro: preach_step)

lemma prun_append:
  "prun start cd (evs @ evs') sv =
     (case prun start cd evs sv of None \<Rightarrow> None | Some sv' \<Rightarrow> prun start cd evs' sv')"
  by (induction evs arbitrary: sv) (auto split: option.split)

section \<open>What the rest of the system does to the registry\<close>

lemma bexec_recv:
  assumes "bexec ev y = Some (ls, y')" and "\<nexists>k msg. ev = EvMessage k msg"
  shows "LRecv m \<notin> set ls"
  using assms
  by (cases ev)
    (auto simp: overstay_label_def split: if_splits prod.splits restart_result.splits option.splits
      outcome.splits main_pc.splits reader_pc.splits)

lemma label_Callbacks:
  "\<nexists>m. l = LRecv m \<Longrightarrow> Callbacks (client (sys_label cd w l s)) = Callbacks (client s)"
  by (cases l) (simp_all add: sys_label_def call_back_def Let_def)

lemma labels_Callbacks:
  "(\<And>m. LRecv m \<notin> set ls) \<Longrightarrow> Callbacks (client (sys_labels cd w ls s)) = Callbacks (client s)"
proof (induction ls arbitrary: s)
  case (Cons l ls)
  have "l \<noteq> LRecv m" "LRecv m \<notin> set ls" for m using Cons.prems [of m] by auto
  then show ?case by (simp add: Cons.IH label_Callbacks)
qed simp

lemma receive_Callbacks: "Callbacks (client (receive cd msg s)) = Callback_Recv msg (Callbacks (client s))"
proof -
  obtain ctx msg' h where "handleRecv cd msg (heap s) = ((ctx, msg'), h)" by (metis prod.collapse)
  moreover from this have "msg' = msg" using handleRecv_meta by blast
  ultimately show ?thesis by (simp add: receive_def Client_recv_def)
qed

lemma exec_Callbacks:
  assumes inv: "sys_inv s" and st: "sound_start start" and step: "sys_exec start cd ev s = Some s'"
    and "\<not> registry_event ev"
  shows "Callbacks (client s') = fold Callback_Recv (received ev) (Callbacks (client s))"
proof (cases ev)
  case (SClient e)
  with step obtain ts c where "rexec start e (threads s, client s) = Some (ts, c)" "client s' = c"
    by (auto simp: sys_client_def split: if_splits option.splits)
  moreover from this have "grows (client s) c"
    using rexec_grows [OF st sys_invD(2) [OF inv]] sys_invD(3) [OF inv] by blast
  ultimately show ?thesis using SClient by (simp add: grows_def received_def)
next
  case (SSubStep k)
  with step show ?thesis by (auto simp: received_def elim!: sub_move_client)
next
  case (SBroker p e)
  with step obtain ls y where ex: "bexec e (view s p) = Some (ls, y)"
    and s': "s' = sys_labels cd (event_caller p e) ls (put_view p y s)"
    by (auto simp: sys_broker_def split: if_splits option.splits)
  have put: "Callbacks (client (put_view p y s)) = Callbacks (client s)" by (simp add: put_view_def)
  show ?thesis
  proof (cases "\<exists>k msg. e = EvMessage k msg")
    case True
    then obtain k msg where e: "e = EvMessage k msg" by blast
    with ex have "ls = [LRecv msg]" by (auto split: if_splits)
    with s' e put SBroker show ?thesis by (simp add: sys_label_def receive_Callbacks received_def)
  next
    case False
    with bexec_recv [OF ex False] s' put SBroker show ?thesis
      by (auto simp: labels_Callbacks received_def split: bevent.splits)
  qed
qed (use step assms(4) in \<open>auto simp: received_def registry_event_def sys_ask_def sub_call_def split: if_splits\<close>)

section \<open>Who waits for what\<close>

text \<open>The key that a waiting call is registered under.\<close>

definition key_of :: "'c pub_call \<Rightarrow> string option" where
  "key_of cl = (case cEvent cl of None \<Rightarrow> None | Some e \<Rightarrow> Some (cb_id e (pID (cPub cl))))"

definition registered :: "'c pub_call \<Rightarrow> bool" where
  "registered cl \<longleftrightarrow> cEvent cl \<noteq> None \<and> (case cPC cl of PRegister \<Rightarrow> False | PBack r \<Rightarrow> False | _ \<Rightarrow> True)"

text \<open>Identifiers are drawn apart: they are UUIDs.\<close>

definition ids_ok :: "'c pub_call list \<Rightarrow> bool" where
  "ids_ok cs \<longleftrightarrow> distinct (map (\<lambda>cl. pID (cPub cl)) cs) \<and> (\<forall>cl \<in> set cs. plain_id (pID (cPub cl)))"

definition announced :: "(nat \<times> nat \<times> Message) list \<Rightarrow> 'c pub_call \<Rightarrow> bool" where
  "announced st cl \<longleftrightarrow> (\<exists>(b, strm, m) \<in> set st. Id m = pID (cPub cl) \<and> Name m = pName (cPub cl) \<and> Sub m)"

text \<open>A response that the call may be answered with.\<close>

definition answers :: "Message \<Rightarrow> 'c pub_call \<Rightarrow> bool" where
  "answers msg cl \<longleftrightarrow> key_of cl = Some (cb_id (Name msg) (SubId msg))"

definition result_ok :: "(nat \<times> nat \<times> Message) list \<Rightarrow> Message list \<Rightarrow> 'c pub_call \<Rightarrow> 'c sub_result \<Rightarrow> bool" where
  "result_ok st gt cl r \<longleftrightarrow>
     (case rPayload r of
        None \<Rightarrow> rErr r \<noteq> None
      | Some x \<Rightarrow> rErr r = None \<and> announced st cl \<and>
          (\<exists>msg \<in> set gt. Payload msg = x \<and> Error msg = [] \<and> answers msg cl))"

definition call_ok :: "(nat \<times> nat \<times> Message) list \<Rightarrow> Message list \<Rightarrow> 'c pub_call \<Rightarrow> bool" where
  "call_ok st gt cl \<longleftrightarrow>
     (cEvent cl \<noteq> None \<longrightarrow> pSubscribed (cPub cl)) \<and>
     (case cPC cl of
        PRegister \<Rightarrow> cEvent cl \<noteq> None
      | PSelect \<Rightarrow> cEvent cl \<noteq> None \<and> announced st cl
      | PUnregister r \<Rightarrow> cEvent cl \<noteq> None \<and> result_ok st gt cl r
      | PBack r \<Rightarrow> cEvent cl \<noteq> None \<longrightarrow> result_ok st gt cl r
      | _ \<Rightarrow> True)"

text \<open>
  The registry names only calls that wait, under their own keys; a delivery goes to a call it answers;
  and if identifiers are drawn apart, every call that waits is in the registry.
\<close>

definition calls_inv :: "Callback \<Rightarrow> 'c pub_call list \<Rightarrow> (nat \<times> nat \<times> Message) list \<Rightarrow> Message list \<Rightarrow> bool" where
  "calls_inv cbs cs st gt \<longleftrightarrow>
     (\<forall>k j. cb_list cbs k = Some j \<longrightarrow> j < length cs \<and> registered (cs ! j) \<and> key_of (cs ! j) = Some k) \<and>
     (\<forall>(j, msg) \<in> set (cb_pending cbs). j < length cs \<and> msg \<in> set gt \<and> answers msg (cs ! j)) \<and>
     (\<forall>cl \<in> set cs. call_ok st gt cl) \<and>
     (ids_ok cs \<longrightarrow> (\<forall>j < length cs. registered (cs ! j) \<longrightarrow>
        (\<exists>k. key_of (cs ! j) = Some k \<and> cb_list cbs k = Some j)))"

lemma calls_invI:
  assumes "\<And>k j. cb_list cbs k = Some j \<Longrightarrow> j < length cs \<and> registered (cs ! j) \<and> key_of (cs ! j) = Some k"
    and "\<And>j msg. (j, msg) \<in> set (cb_pending cbs) \<Longrightarrow> j < length cs \<and> msg \<in> set gt \<and> answers msg (cs ! j)"
    and "\<And>cl. cl \<in> set cs \<Longrightarrow> call_ok st gt cl"
    and "\<And>j. ids_ok cs \<Longrightarrow> j < length cs \<Longrightarrow> registered (cs ! j) \<Longrightarrow>
      \<exists>k. key_of (cs ! j) = Some k \<and> cb_list cbs k = Some j"
  shows "calls_inv cbs cs st gt"
  using assms unfolding calls_inv_def by blast

lemma calls_invD:
  assumes "calls_inv cbs cs st gt"
  shows "cb_list cbs k = Some j \<Longrightarrow> j < length cs \<and> registered (cs ! j) \<and> key_of (cs ! j) = Some k"
    and "(j, msg) \<in> set (cb_pending cbs) \<Longrightarrow> j < length cs \<and> msg \<in> set gt \<and> answers msg (cs ! j)"
    and "cl \<in> set cs \<Longrightarrow> call_ok st gt cl"
    and "ids_ok cs \<Longrightarrow> j < length cs \<Longrightarrow> registered (cs ! j) \<Longrightarrow>
      \<exists>k. key_of (cs ! j) = Some k \<and> cb_list cbs k = Some j"
  using assms unfolding calls_inv_def by blast+

lemma call_ok_mono:
  assumes "call_ok st gt cl" and "set st \<subseteq> set st'" and "set gt \<subseteq> set gt'"
  shows "call_ok st' gt' cl"
proof -
  have "announced st cl \<Longrightarrow> announced st' cl" using assms(2) unfolding announced_def by blast
  moreover have "result_ok st gt cl r \<Longrightarrow> result_ok st' gt' cl r" for r
    using assms(3) calculation unfolding result_ok_def by (auto split: option.splits)
  ultimately show ?thesis using assms(1) unfolding call_ok_def by (auto split: pub_pc.splits)
qed

lemma calls_inv_mono:
  assumes inv: "calls_inv cbs cs st gt" and "set st \<subseteq> set st'" and "set gt \<subseteq> set gt'"
  shows "calls_inv cbs cs st' gt'"
proof (rule calls_invI)
  show "call_ok st' gt' cl" if "cl \<in> set cs" for cl
    by (rule call_ok_mono [OF calls_invD(3) [OF inv that] assms(2,3)])
qed (use calls_invD(1,2,4) [OF inv] assms(3) in blast)+

text \<open>A read loop hands a message to the registry.\<close>

lemma calls_inv_deliver:
  assumes inv: "calls_inv cbs cs st gt"
  shows "calls_inv (Callback_Recv m cbs) cs st (gt @ [m])"
proof -
  have l: "cb_list (Callback_Recv m cbs) = cb_list cbs" by (simp add: Callback_Recv_def split: option.split)
  have inv': "calls_inv cbs cs st (gt @ [m])" by (rule calls_inv_mono [OF inv]) auto
  show ?thesis
  proof (rule calls_invI)
    fix j msg
    assume "(j, msg) \<in> set (cb_pending (Callback_Recv m cbs))"
    then have "(j, msg) \<in> set (cb_pending cbs) \<or> msg = m \<and> cb_list cbs (cb_id (Name m) (SubId m)) = Some j"
      by (auto simp: Callback_Recv_def split: option.splits)
    then show "j < length cs \<and> msg \<in> set (gt @ [m]) \<and> answers msg (cs ! j)"
      using calls_invD(1,2) [OF inv'] by (auto simp: answers_def)
  qed (use calls_invD [OF inv'] in \<open>simp_all add: l\<close>)
qed

lemma calls_inv_delivers:
  "calls_inv cbs cs st gt \<Longrightarrow> calls_inv (fold Callback_Recv ms cbs) cs st (gt @ ms)"
  by (induction ms arbitrary: cbs gt) (use calls_inv_deliver in \<open>force+\<close>)

text \<open>A call moves on and keeps its registration.\<close>

lemma key_of_pc [simp]: "key_of (cl\<lparr>cPC := pc\<rparr>) = key_of cl"
  by (simp add: key_of_def split: option.split)

lemma answers_pc [simp]: "answers msg (cl\<lparr>cPC := pc\<rparr>) = answers msg cl"
  by (simp add: answers_def)

lemma announced_pc [simp]: "announced st (cl\<lparr>cPC := pc\<rparr>) = announced st cl"
  by (simp add: announced_def)

lemma result_ok_pc [simp]: "result_ok st gt (cl\<lparr>cPC := pc\<rparr>) r = result_ok st gt cl r"
  by (simp add: result_ok_def split: option.split)

lemma ids_ok_pc: "ids_ok (cs[j := (cs ! j)\<lparr>cPC := pc\<rparr>]) = ids_ok cs" if "j < length cs"
proof -
  have "map (\<lambda>cl. pID (cPub cl)) (cs[j := (cs ! j)\<lparr>cPC := pc\<rparr>]) = map (\<lambda>cl. pID (cPub cl)) cs"
    using that by (simp add: map_update list_update_same_conv)
  moreover have "(\<forall>cl \<in> set xs. plain_id (pID (cPub cl))) = (\<forall>i \<in> set (map (\<lambda>cl. pID (cPub cl)) xs). plain_id i)"
    for xs :: "'a pub_call list" by simp
  ultimately show ?thesis unfolding ids_ok_def by metis
qed

lemma calls_inv_move:
  assumes inv: "calls_inv cbs cs st gt" and j: "j < length cs"
    and r: "registered ((cs ! j)\<lparr>cPC := pc\<rparr>) = registered (cs ! j)" and ok: "call_ok st gt ((cs ! j)\<lparr>cPC := pc\<rparr>)"
  shows "calls_inv cbs (cs[j := (cs ! j)\<lparr>cPC := pc\<rparr>]) st gt"
proof (rule calls_invI)
  show "call_ok st gt cl" if "cl \<in> set (cs[j := (cs ! j)\<lparr>cPC := pc\<rparr>])" for cl
    using upd_mem [OF that] ok calls_invD(3) [OF inv] by blast
  show "\<exists>k. key_of (cs[j := (cs ! j)\<lparr>cPC := pc\<rparr>] ! i) = Some k \<and> cb_list cbs k = Some i"
    if "ids_ok (cs[j := (cs ! j)\<lparr>cPC := pc\<rparr>])" "i < length (cs[j := (cs ! j)\<lparr>cPC := pc\<rparr>])"
      "registered (cs[j := (cs ! j)\<lparr>cPC := pc\<rparr>] ! i)" for i
    using calls_invD(4) [OF inv, of i] that j r by (auto simp: nth_list_update ids_ok_pc split: if_splits)
qed (use calls_invD(1,2) [OF inv] j r in \<open>auto simp: nth_list_update\<close>)

text \<open>Two calls with one key are one call.\<close>

lemma key_inj:
  assumes "ids_ok cs" and "i < length cs" and "j < length cs" and "key_of (cs ! i) = key_of (cs ! j)"
    and "key_of (cs ! i) \<noteq> None"
  shows "i = j"
proof -
  have "plain_id (pID (cPub (cs ! i)))" "plain_id (pID (cPub (cs ! j)))"
    using assms(1-3) by (simp_all add: ids_ok_def)
  then have "pID (cPub (cs ! i)) = pID (cPub (cs ! j))"
    using assms(4,5) by (auto simp: key_of_def cb_id_inj split: option.splits)
  then show ?thesis using assms(1-3) by (auto simp: ids_ok_def distinct_conv_nth)
qed

lemma calls_inv_register:
  assumes inv: "calls_inv cbs cs st gt" and j: "j < length cs" and pc: "cPC (cs ! j) = PRegister"
    and e: "cEvent (cs ! j) = Some e"
  shows "calls_inv (Callback_Register e (pID (cPub (cs ! j))) j cbs) (cs[j := (cs ! j)\<lparr>cPC := PNext\<rparr>]) st gt"
    (is "calls_inv ?cbs ?cs st gt")
proof (rule calls_invI)
  let ?k = "cb_id e (pID (cPub (cs ! j)))"
  have key: "key_of (cs ! j) = Some ?k" by (simp add: key_of_def e)
  have old: "\<not> registered (cs ! j)" by (simp add: registered_def pc)
  have new: "registered ((cs ! j)\<lparr>cPC := PNext\<rparr>)" by (simp add: registered_def e)
  have l: "cb_list ?cbs k = (if k = ?k then Some j else cb_list cbs k)" for k
    by (simp add: Callback_Register_def)
  show "i < length ?cs \<and> registered (?cs ! i) \<and> key_of (?cs ! i) = Some k" if "cb_list ?cbs k = Some i" for k i
    using that calls_invD(1) [OF inv, of k i] old new key j by (auto simp: l nth_list_update split: if_splits)
  show "i < length ?cs \<and> msg \<in> set gt \<and> answers msg (?cs ! i)" if "(i, msg) \<in> set (cb_pending ?cbs)" for i msg
    using that calls_invD(2) [OF inv, of i msg] j by (auto simp: Callback_Register_def nth_list_update)
  show "call_ok st gt cl" if "cl \<in> set ?cs" for cl
  proof -
    have "call_ok st gt (cs ! j)" using calls_invD(3) [OF inv] j by simp
    then have "call_ok st gt ((cs ! j)\<lparr>cPC := PNext\<rparr>)" by (simp add: call_ok_def)
    then show ?thesis using upd_mem [OF that] calls_invD(3) [OF inv] by blast
  qed
  show "\<exists>k. key_of (?cs ! i) = Some k \<and> cb_list ?cbs k = Some i"
    if ids: "ids_ok ?cs" and i: "i < length ?cs" "registered (?cs ! i)" for i
  proof (cases "i = j")
    case True
    then show ?thesis using j key by (simp add: l)
  next
    case False
    have ids: "ids_ok cs" using ids j by (simp add: ids_ok_pc)
    obtain k where k: "key_of (cs ! i) = Some k" "cb_list cbs k = Some i"
      using calls_invD(4) [OF inv ids, of i] i False by auto
    then have "k \<noteq> ?k" using key_inj [OF ids _ j, of i] i key False by auto
    with k False show ?thesis by (simp add: l)
  qed
qed

lemma calls_inv_unregister:
  assumes inv: "calls_inv cbs cs st gt" and j: "j < length cs" and pc: "cPC (cs ! j) = PUnregister r"
    and e: "cEvent (cs ! j) = Some e"
  shows "calls_inv (Callback_Unregister e (pID (cPub (cs ! j))) cbs) (cs[j := (cs ! j)\<lparr>cPC := PBack r\<rparr>]) st gt"
    (is "calls_inv ?cbs ?cs st gt")
proof (rule calls_invI)
  let ?k = "cb_id e (pID (cPub (cs ! j)))"
  have key: "key_of (cs ! j) = Some ?k" by (simp add: key_of_def e)
  have new: "\<not> registered ((cs ! j)\<lparr>cPC := PBack r\<rparr>)" by (simp add: registered_def)
  have l: "cb_list ?cbs k = (if k = ?k then None else cb_list cbs k)" for k
    by (simp add: Callback_Unregister_def)
  show "i < length ?cs \<and> registered (?cs ! i) \<and> key_of (?cs ! i) = Some k" if "cb_list ?cbs k = Some i" for k i
    using that calls_invD(1) [OF inv, of k i] key j by (auto simp: l nth_list_update split: if_splits)
  show "i < length ?cs \<and> msg \<in> set gt \<and> answers msg (?cs ! i)" if "(i, msg) \<in> set (cb_pending ?cbs)" for i msg
    using that calls_invD(2) [OF inv, of i msg] j by (auto simp: Callback_Unregister_def nth_list_update)
  show "call_ok st gt cl" if "cl \<in> set ?cs" for cl
  proof -
    have "call_ok st gt (cs ! j)" using calls_invD(3) [OF inv] j by simp
    then have "call_ok st gt ((cs ! j)\<lparr>cPC := PBack r\<rparr>)" by (simp add: call_ok_def pc)
    then show ?thesis using upd_mem [OF that] calls_invD(3) [OF inv] by blast
  qed
  show "\<exists>k. key_of (?cs ! i) = Some k \<and> cb_list ?cbs k = Some i"
    if ids: "ids_ok ?cs" and i: "i < length ?cs" "registered (?cs ! i)" for i
  proof -
    have "i \<noteq> j" using i new j by auto
    have ids: "ids_ok cs" using ids j by (simp add: ids_ok_pc)
    obtain k where k: "key_of (cs ! i) = Some k" "cb_list cbs k = Some i"
      using calls_invD(4) [OF inv ids, of i] i \<open>i \<noteq> j\<close> by auto
    then have "k \<noteq> ?k" using key_inj [OF ids _ j, of i] i key \<open>i \<noteq> j\<close> by auto
    with k \<open>i \<noteq> j\<close> show ?thesis by (simp add: l)
  qed
qed

text \<open>A new call.\<close>

lemma calls_inv_call:
  assumes inv: "calls_inv cbs cs st gt" and n: "\<not> registered cl" and ok: "call_ok st gt cl"
  shows "calls_inv cbs (cs @ [cl]) st gt"
proof (rule calls_invI)
  show "\<exists>k. key_of ((cs @ [cl]) ! i) = Some k \<and> cb_list cbs k = Some i"
    if "ids_ok (cs @ [cl])" "i < length (cs @ [cl])" "registered ((cs @ [cl]) ! i)" for i
  proof -
    have "ids_ok cs" using that(1) by (simp add: ids_ok_def)
    then show ?thesis using calls_invD(4) [OF inv, of i] that n by (auto simp: nth_append split: if_splits)
  qed
qed (use calls_invD(1-3) [OF inv] ok in \<open>force simp: nth_append\<close>)+

text \<open>A response is taken from the channel.\<close>

lemma calls_inv_take:
  assumes "calls_inv cbs cs st gt" and "set ps \<subseteq> set (cb_pending cbs)"
  shows "calls_inv (cbs\<lparr>cb_pending := ps\<rparr>) cs st gt"
  using assms unfolding calls_inv_def by auto

section \<open>The invariant of the service\<close>

definition svc_inv :: "'c service \<Rightarrow> bool" where
  "svc_inv sv \<longleftrightarrow> sys_inv (base sv) \<and>
     calls_inv (Callbacks (client (base sv))) (callers sv) (sent sv) (got sv)"

lemma sys_inv_calls:
  assumes "sys_inv s"
  shows "sys_inv (s\<lparr>client := (client s)\<lparr>Callbacks := x, currentSend := k\<rparr>\<rparr>)"
    and "sys_inv (s\<lparr>heap := h, client := (client s)\<lparr>Callbacks := x, currentSend := k\<rparr>\<rparr>)"
    and "sys_inv (s\<lparr>heap := h\<rparr>)"
proof -
  have a: "sys_inv (s\<lparr>heap := g, client := (client s)\<lparr>Callbacks := x, currentSend := k\<rparr>, handled := handled s\<rparr>)"
    for g x k by (rule sys_inv_same [OF assms]) simp_all
  then show "sys_inv (s\<lparr>heap := h, client := (client s)\<lparr>Callbacks := x, currentSend := k\<rparr>\<rparr>)" by simp
  show "sys_inv (s\<lparr>client := (client s)\<lparr>Callbacks := x, currentSend := k\<rparr>\<rparr>)" using a [where g = "heap s"] by simp
  show "sys_inv (s\<lparr>heap := h\<rparr>)" using a [where g = h and x = "Callbacks (client s)" and k = "currentSend (client s)"] by simp
qed

lemma Callbacks_call [simp]:
  "Callbacks (RegisterCb e i ch c) = Callback_Register e i ch (Callbacks c)"
  "Callbacks (UnregisterCb e i c) = Callback_Unregister e i (Callbacks c)"
  "Callbacks (take_pending m c) = (Callbacks c)\<lparr>cb_pending :=
     take m (cb_pending (Callbacks c)) @ drop (Suc m) (cb_pending (Callbacks c))\<rparr>"
  by (simp_all add: RegisterCb_def UnregisterCb_def take_pending_def Let_def)

text \<open>What a call changes of the client.\<close>

definition calls_only :: "Client \<Rightarrow> Client \<Rightarrow> bool" where
  "calls_only c c' \<longleftrightarrow> (\<exists>x k. c' = c\<lparr>Callbacks := x, currentSend := k\<rparr>)"

lemma calls_only [intro]:
  "calls_only c c" "calls_only c (RegisterCb e i ch c)" "calls_only c (UnregisterCb e i c)"
  "calls_only c (take_pending m c)" "calls_only c (snd (nextBroker c))"
proof -
  have a: "calls_only c (c\<lparr>Callbacks := x\<rparr>)" for x
    unfolding calls_only_def by (intro exI [of _ x] exI [of _ "currentSend c"]) simp
  show "calls_only c c" using a [of "Callbacks c"] by simp
  show "calls_only c (RegisterCb e i ch c)" "calls_only c (UnregisterCb e i c)" "calls_only c (take_pending m c)"
    using a by (simp_all add: RegisterCb_def UnregisterCb_def take_pending_def Let_def)
  obtain k where "snd (nextBroker c) = c\<lparr>currentSend := k\<rparr>" using nextBroker_frame by blast
  then have "snd (nextBroker c) = c\<lparr>Callbacks := Callbacks c, currentSend := k\<rparr>" by simp
  then show "calls_only c (snd (nextBroker c))" unfolding calls_only_def by blast
qed

lemma calls_only_inv:
  assumes "sys_inv s" and "calls_only (client s) c"
  shows "sys_inv (s\<lparr>client := c\<rparr>)" and "sys_inv (s\<lparr>heap := h, client := c\<rparr>)"
  using assms sys_inv_calls by (auto simp: calls_only_def)

lemma Sub_select_result:
  assumes "Sub_select cd ctx out h = (r, h')"
    and "\<And>msg. out = Received msg \<Longrightarrow> announced st cl \<and> msg \<in> set gt \<and> answers msg cl"
  shows "result_ok st gt cl r"
proof (cases out)
  case (Received msg)
  have "fst (Sub_select cd ctx out h) = r" using assms(1) by simp
  with Received assms(2) show ?thesis
    unfolding Received Sub_select_ctx result_ok_def
    by (auto simp: Let_def split: if_splits option.splits sum.splits)
qed (use assms(1) in \<open>auto simp: Sub_select_def result_ok_def\<close>)

lemma svc_inv_select:
  assumes inv: "svc_inv sv" and j: "j < length (callers sv)" and pc: "cPC (callers sv ! j) = PSelect"
    and c: "calls_only (client (base sv)) c"
    and cbs: "\<exists>ps. set ps \<subseteq> set (cb_pending (Callbacks (client (base sv)))) \<and>
      Callbacks c = (Callbacks (client (base sv)))\<lparr>cb_pending := ps\<rparr>"
    and out: "\<And>msg. out = Received msg \<Longrightarrow> msg \<in> set (got sv) \<and> answers msg (callers sv ! j)"
  shows "svc_inv (selected cd out j c sv)"
proof -
  let ?cl = "callers sv ! j"
  have ci: "calls_inv (Callbacks (client (base sv))) (callers sv) (sent sv) (got sv)"
    and si: "sys_inv (base sv)" using inv by (simp_all add: svc_inv_def)
  have ok: "call_ok (sent sv) (got sv) ?cl" using calls_invD(3) [OF ci] j by simp
  obtain r h where r: "Sub_select cd (pContext (cPub ?cl)) out (heap (base sv)) = (r, h)" by force
  have "result_ok (sent sv) (got sv) ?cl r"
    by (rule Sub_select_result [OF r]) (use ok out in \<open>simp add: call_ok_def pc\<close>)
  then have "calls_inv (Callbacks c) ((callers sv)[j := ?cl\<lparr>cPC := PUnregister r\<rparr>]) (sent sv) (got sv)"
    using cbs ok j pc calls_inv_take [OF ci]
    by (intro calls_inv_move) (auto simp: call_ok_def registered_def)
  then show ?thesis using calls_only_inv(2) [OF si c] by (simp add: selected_def r svc_inv_def Let_def)
qed

lemma announced_on_wire:
  assumes "Broker_Send cd strm p h bk = Returns None" and "p = cPub cl" and "pSubscribed p"
  shows "announced (st @ on_wire cd p h b bk) cl"
  using assms GetEvent_Inr [of cd p h]
  by (auto simp: Broker_Send_def on_wire_def announced_def split: if_splits sum.splits option.splits)

lemma svc_inv_put:
  assumes "sys_inv (base sv)" and "calls_only (client (base sv)) c"
    and "calls_inv (Callbacks c) ((callers sv)[j := cl]) (sent sv) (got sv)"
  shows "svc_inv (put_call j cl c sv)"
  using assms calls_only_inv(1) by (simp add: svc_inv_def put_call_def)

lemma leave_ok:
  "call_ok st gt cl \<Longrightarrow> call_ok st gt (leave (failed e) cl)"
  "cPC cl = PNext \<Longrightarrow> registered (leave r cl) = registered cl"
  by (auto simp: leave_def call_ok_def registered_def result_ok_def failed_def)

lemma svc_inv_go:
  assumes inv: "svc_inv sv" and j: "j < length (callers sv)"
    and c: "calls_only (client (base sv)) c" "Callbacks c = Callbacks (client (base sv))"
    and "registered ((callers sv ! j)\<lparr>cPC := pc\<rparr>) = registered (callers sv ! j)"
    and "call_ok (sent sv) (got sv) ((callers sv ! j)\<lparr>cPC := pc\<rparr>)"
  shows "svc_inv (put_call j ((callers sv ! j)\<lparr>cPC := pc\<rparr>) c sv)"
proof -
  have "calls_inv (Callbacks (client (base sv))) (callers sv) (sent sv) (got sv)" using inv by (simp add: svc_inv_def)
  from calls_inv_move [OF this j assms(5,6)] show ?thesis
    using inv c by (intro svc_inv_put) (simp_all add: svc_inv_def)
qed

lemma svc_call_ok:
  assumes "svc_inv sv" and "j < length (callers sv)"
  shows "call_ok (sent sv) (got sv) (callers sv ! j)"
  using assms calls_invD(3) nth_mem unfolding svc_inv_def by blast

text \<open>A call asks for the next broker.\<close>

lemma svc_inv_next:
  assumes inv: "svc_inv sv" and j: "j < length (callers sv)" and pc: "cPC (callers sv ! j) = PNext"
    and step: "call_step cd strm j sv = Some sv'"
  shows "svc_inv sv'"
proof -
  let ?cl = "callers sv ! j" and ?c = "client (base sv)"
  note ok = svc_call_ok [OF inv j]
  obtain r c where nb: "nextBroker ?c = (r, c)" by force
  obtain k where "c = ?c\<lparr>currentSend := k\<rparr>" using nextBroker_frame [of ?c] nb by auto
  then have c: "calls_only ?c c" "Callbacks c = Callbacks ?c" using calls_only(5) [of ?c] nb by simp_all
  show ?thesis
  proof (cases r)
    case (Inl e)
    then have "sv' = put_call j (leave (failed e) ?cl) c sv"
      using step pc nb by (auto simp: call_step_def Let_def split: if_splits)
    then show ?thesis
      using svc_inv_go [OF inv j c] leave_ok(1) [OF ok, of e] leave_ok(2) [OF pc] unfolding leave_def by simp
  next
    case (Inr b)
    then have "sv' = put_call j (?cl\<lparr>cPC := PSend b\<rparr>) c sv"
      using step pc nb by (auto simp: call_step_def Let_def split: if_splits)
    then show ?thesis
      using pc ok by (auto intro!: svc_inv_go [OF inv j c] simp: registered_def call_ok_def)
  qed
qed

text \<open>A stream has taken the event.\<close>

lemma svc_inv_sent:
  assumes inv: "svc_inv sv" and j: "j < length (callers sv)" and pc: "cPC (callers sv ! j) = PSend b"
    and ret: "Broker_Send cd strm (cPub (callers sv ! j)) (heap (base sv)) bk = Returns None"
  shows "svc_inv (put_call j ((callers sv ! j)\<lparr>cPC := if cEvent (callers sv ! j) = None then PBack passed else PSelect\<rparr>)
    (client (base sv)) (sv\<lparr>sent := sent sv @ on_wire cd (cPub (callers sv ! j)) (heap (base sv)) b bk\<rparr>))"
    (is "svc_inv (put_call j (?cl\<lparr>cPC := ?pc\<rparr>) ?c (sv\<lparr>sent := sent sv @ ?w\<rparr>))")
proof (rule svc_inv_go [of "sv\<lparr>sent := sent sv @ ?w\<rparr>", simplified])
  have "calls_inv (Callbacks ?c) (callers sv) (sent sv @ ?w) (got sv)"
    by (rule calls_inv_mono [of _ _ "sent sv" "got sv"]) (use inv in \<open>auto simp: svc_inv_def\<close>)
  then show "svc_inv (sv\<lparr>sent := sent sv @ ?w\<rparr>)" using inv by (simp add: svc_inv_def)
  have "call_ok (sent sv @ ?w) (got sv) ?cl" by (rule call_ok_mono [OF svc_call_ok [OF inv j]]) auto
  then show "call_ok (sent sv @ ?w) (got sv) (?cl\<lparr>cPC := ?pc\<rparr>)"
    using announced_on_wire [OF ret refl] by (auto simp: call_ok_def)
qed (use j pc in \<open>auto simp: registered_def\<close>)

lemma svc_inv_send:
  assumes inv: "svc_inv sv" and j: "j < length (callers sv)" and pc: "cPC (callers sv ! j) = PSend b"
    and step: "call_step cd strm j sv = Some sv'"
  shows "svc_inv sv'"
proof -
  let ?cl = "callers sv ! j" and ?c = "client (base sv)"
  let ?r = "Broker_Send cd strm (cPub ?cl) (heap (base sv)) (clMem ?c b)"
  consider (panic) e where "?r = Panics e" | (sent) "?r = Returns None" | (refused) e where "?r = Returns (Some e)"
    by (metis outcome.exhaust option.exhaust)
  then show ?thesis
  proof cases
    case panic
    then have "sv' = sv\<lparr>base := (base sv)\<lparr>down := True\<rparr>\<rparr>"
      using step pc by (auto simp: call_step_def Let_def split: if_splits)
    moreover have "sys_inv ((base sv)\<lparr>down := True\<rparr>)" using inv by (auto simp: svc_inv_def sys_inv_def view_def)
    ultimately show ?thesis using inv by (simp add: svc_inv_def)
  next
    case sent
    then show ?thesis
      using svc_inv_sent [OF inv j pc sent] step pc by (auto simp: call_step_def Let_def split: if_splits)
  next
    case refused
    then have "sv' = put_call j (?cl\<lparr>cPC := PNext\<rparr>) ?c sv"
      using step pc by (auto simp: call_step_def Let_def split: if_splits)
    then show ?thesis
      using pc svc_call_ok [OF inv j] by (auto intro!: svc_inv_go [OF inv j] simp: registered_def call_ok_def)
  qed
qed

lemma svc_inv_move:
  assumes inv: "svc_inv sv" and j: "j < length (callers sv)" and step: "call_step cd strm j sv = Some sv'"
  shows "svc_inv sv'"
proof -
  let ?cl = "callers sv ! j" and ?c = "client (base sv)"
  have ci: "calls_inv (Callbacks ?c) (callers sv) (sent sv) (got sv)"
    and si: "sys_inv (base sv)" using inv by (simp_all add: svc_inv_def)
  have e: "\<exists>e. cEvent ?cl = Some e" if "cPC ?cl = PRegister \<or> cPC ?cl = PUnregister r" for r
    using svc_call_ok [OF inv j] that by (auto simp: call_ok_def)
  show ?thesis
  proof (cases "cPC ?cl")
    case PRegister
    with e obtain e where e: "cEvent ?cl = Some e" by blast
    with step PRegister have "sv' = put_call j (?cl\<lparr>cPC := PNext\<rparr>) (RegisterCb e (pID (cPub ?cl)) j ?c) sv"
      by (simp add: call_step_def Let_def)
    then show ?thesis
      using calls_inv_register [OF ci j PRegister e] si by (auto intro!: svc_inv_put)
  next
    case (PUnregister r)
    with e obtain e where e: "cEvent ?cl = Some e" by blast
    with step PUnregister have "sv' = put_call j (?cl\<lparr>cPC := PBack r\<rparr>) (UnregisterCb e (pID (cPub ?cl)) ?c) sv"
      by (simp add: call_step_def Let_def)
    then show ?thesis
      using calls_inv_unregister [OF ci j PUnregister e] si by (auto intro!: svc_inv_put)
  qed (use step svc_inv_next [OF inv j _ step] svc_inv_send [OF inv j _ step] in \<open>simp_all add: call_step_def Let_def\<close>)
qed

lemma svc_inv_exec:
  assumes inv: "svc_inv sv" and st: "sound_start start" and step: "pub_exec start cd ev sv = Some sv'"
  shows "svc_inv sv'"
proof -
  have ci: "calls_inv (Callbacks (client (base sv))) (callers sv) (sent sv) (got sv)"
    and si: "sys_inv (base sv)" using inv by (simp_all add: svc_inv_def)
  show ?thesis
  proof (cases ev)
    case (PBase e)
    with step obtain s where n: "\<not> registry_event e" and s: "sys_exec start cd e (base sv) = Some s"
      and sv': "sv' = sv\<lparr>base := s, got := got sv @ received e\<rparr>" by (auto split: if_splits option.splits)
    show ?thesis
      using sys_exec_inv [OF si st s] calls_inv_delivers [OF ci] by (simp add: sv' svc_inv_def exec_Callbacks [OF si st s n])
  next
    case (Publish ctx name payload uuid now event)
    with step obtain p h cl where "sv' = sv\<lparr>base := (base sv)\<lparr>heap := h\<rparr>, callers := callers sv @ [cl]\<rparr>"
      "\<not> registered cl" "call_ok (sent sv) (got sv) cl"
      by (auto simp: Let_def registered_def call_ok_def split: if_splits option.splits prod.splits)
    with sys_inv_calls(3) [OF si] calls_inv_call [OF ci] show ?thesis by (simp add: svc_inv_def)
  next
    case (Move j strm)
    with step svc_inv_move [OF inv] show ?thesis by (auto split: if_splits)
  next
    case (Meet i j)
    let ?ps = "cb_pending (Callbacks (client (base sv)))"
    from Meet step have j: "j < length (callers sv)" "cPC (callers sv ! j) = PSelect" and i: "i < length ?ps" "fst (?ps ! i) = j"
      and sv': "sv' = selected cd (Received (snd (?ps ! i))) j (take_pending i (client (base sv))) sv"
      by (auto simp: Let_def split: if_splits)
    have "(j, snd (?ps ! i)) \<in> set ?ps" using i nth_mem [of i ?ps] by auto
    then have "snd (?ps ! i) \<in> set (got sv) \<and> answers (snd (?ps ! i)) (callers sv ! j)"
      using calls_invD(2) [OF ci] by blast
    moreover have "set (take i ?ps @ drop (Suc i) ?ps) \<subseteq> set ?ps"
      using set_take_subset [of i ?ps] set_drop_subset [of "Suc i" ?ps] by auto
    ultimately show ?thesis
      unfolding sv' by (intro svc_inv_select inv j exI [of _ "take i ?ps @ drop (Suc i) ?ps"]) auto
  next
    case (CtxDone j e)
    with step show ?thesis
      by (auto intro!: svc_inv_select inv exI [of _ "cb_pending (Callbacks (client (base sv)))"] split: if_splits)
  next
    case (SetError ctx e)
    with step sys_inv_calls(3) [OF si] ci show ?thesis by (auto simp: svc_inv_def split: if_splits)
  qed
qed

lemma preach_inv:
  "preach start cd c0 sv \<Longrightarrow> unbooted c0 \<Longrightarrow> Callbacks c0 = Callback_New \<Longrightarrow> sound_start start \<Longrightarrow> svc_inv sv"
proof (induction rule: preach.induct)
  case preach_init
  then show ?case
    using sys_init_inv [of c0] by (simp add: svc_inv_def pub_init_def calls_inv_def Callback_New_def sys_init_def)
next
  case (preach_step sv ev sv')
  then show ?case using svc_inv_exec by blast
qed

lemma prun_inv:
  "prun start cd evs sv = Some sv' \<Longrightarrow> svc_inv sv \<Longrightarrow> sound_start start \<Longrightarrow> svc_inv sv'"
  by (induction evs arbitrary: sv) (auto split: if_splits option.splits dest: svc_inv_exec)

end
