(* ===== verification/Client_Publish.thy ===== *)
theory Client_Publish
  imports Client_Calls
begin

text \<open>
  What publishers get (src/pub/pub.go, src/callback/callback.go): the steps of an undisturbed call are the
  function \<open>Pub_Sub\<close>; runs of a concrete service; a response reaches its publisher, and what becomes of
  one that nobody takes.
\<close>

section \<open>A call that nobody interrupts\<close>

definition moves_of :: "nat \<Rightarrow> 'c pub_event list \<Rightarrow> bool" where
  "moves_of j evs \<longleftrightarrow> (\<forall>ev \<in> set evs. \<exists>strm. ev = Move j strm)"

definition at_call :: "nat \<Rightarrow> 'c service \<Rightarrow> 'c pub_pc \<Rightarrow> Client \<Rightarrow> (nat \<times> nat \<times> Message) list \<Rightarrow> 'c service" where
  "at_call j sv pc c w = (put_call j ((callers sv ! j)\<lparr>cPC := pc\<rparr>) c sv)\<lparr>sent := w\<rparr>"

text \<open>No other goroutine holds a lock the call needs, and no panic has ended the process.\<close>

definition undisturbed :: "nat \<Rightarrow> 'c service \<Rightarrow> bool" where
  "undisturbed j sv \<longleftrightarrow> j < length (callers sv) \<and> \<not> down (base sv) \<and> can_read (threads (base sv)) \<and>
     (\<forall>b. \<not> lock_held (base sv) b)"

lemma at_call_move:
  assumes "undisturbed j sv" and "call_step cd strm j (at_call j sv pc c w) = Some sv'"
  shows "prun start cd (Move j strm # evs) (at_call j sv pc c w) = prun start cd evs sv'"
  using assms by (simp add: undisturbed_def at_call_def put_call_def)

lemma at_call_next:
  assumes "undisturbed j sv"
  shows "call_step cd strm j (at_call j sv PNext c w) =
    (case nextBroker c of
       (Inl e, c) \<Rightarrow> Some (at_call j sv (cPC (leave (failed e) (callers sv ! j))) c w)
     | (Inr b, c) \<Rightarrow> Some (at_call j sv (PSend b) c w))"
  using assms
  by (simp add: undisturbed_def at_call_def put_call_def call_step_def leave_def Let_def split: prod.split sum.split)

lemma lock_held_client [simp]:
  "lock_held (s\<lparr>client := c\<rparr>) = lock_held s" "lock_held (s\<lparr>heap := h\<rparr>) = lock_held s"
  by (simp_all add: lock_held_def fun_eq_iff cong: option.case_cong)

lemma at_call_send:
  assumes "undisturbed j sv"
  shows "call_step cd strm j (at_call j sv (PSend b) c w) =
    (case Broker_Send cd strm (cPub (callers sv ! j)) (heap (base sv)) (clMem c b) of
       Panics e \<Rightarrow> Some ((at_call j sv (PSend b) c w)\<lparr>base := (base sv)\<lparr>client := c, down := True\<rparr>\<rparr>)
     | Returns (Some e) \<Rightarrow> Some (at_call j sv PNext c w)
     | Returns None \<Rightarrow> Some (at_call j sv (if cEvent (callers sv ! j) = None then PBack passed else PSelect) c
         (w @ on_wire cd (cPub (callers sv ! j)) (heap (base sv)) b (clMem c b))))"
  using assms
  by (cases sv) (auto simp: undisturbed_def at_call_def put_call_def call_step_def Let_def
      split: outcome.split option.split)

text \<open>Where the call is when \<open>send\<close> has come to an end.\<close>

definition after_send :: "nat \<Rightarrow> 'c service \<Rightarrow> err option outcome \<Rightarrow> Client \<Rightarrow> 'c service \<Rightarrow> bool" where
  "after_send j sv out c sv' \<longleftrightarrow>
     (case out of
        Panics e \<Rightarrow> down (base sv')
      | Returns None \<Rightarrow> (\<exists>w. sv' = at_call j sv (if cEvent (callers sv ! j) = None then PBack passed else PSelect) c w)
      | Returns (Some e) \<Rightarrow> (\<exists>w. sv' = at_call j sv (cPC (leave (failed e) (callers sv ! j))) c w))"

lemma moves_of_simps [simp]: "moves_of j []" "moves_of j (Move j strm # evs) = moves_of j evs"
  by (simp_all add: moves_of_def)

text \<open>The call asks for a broker and has its answer.\<close>

definition follows :: "start_fun \<Rightarrow> 'c codec \<Rightarrow> nat \<Rightarrow> 'c service \<Rightarrow> 'c service \<Rightarrow> err option outcome \<times> Client \<Rightarrow> bool" where
  "follows start cd j sv at y \<longleftrightarrow> (\<exists>evs sv'. prun start cd evs at = Some sv' \<and> moves_of j evs \<and>
     after_send j sv (fst y) (snd y) sv')"

lemma followsI:
  "prun start cd evs at = Some sv' \<Longrightarrow> moves_of j evs \<Longrightarrow> after_send j sv (fst y) (snd y) sv' \<Longrightarrow>
    follows start cd j sv at y"
  unfolding follows_def by blast

lemma follows_next:
  assumes "undisturbed j sv" and n: "nextBroker c = (Inl e, d)"
  shows "follows start cd j sv (at_call j sv PNext c w) (Returns (Some e), d)"
proof (rule followsI)
  show "prun start cd [Move j strm] (at_call j sv PNext c w) =
      Some (at_call j sv (cPC (leave (failed e) (callers sv ! j))) d w)" for strm
    using at_call_move [OF assms(1)] at_call_next [OF assms(1)] n by simp
qed (auto simp: after_send_def)

lemma follows_send:
  assumes u: "undisturbed j sv" and n: "nextBroker c = (Inr b, d)"
  shows "case Broker_Send cd strm (cPub (callers sv ! j)) (heap (base sv)) (clMem d b) of
      Panics x \<Rightarrow> follows start cd j sv (at_call j sv PNext c w) (Panics x, d)
    | Returns None \<Rightarrow> follows start cd j sv (at_call j sv PNext c w) (Returns None, d)
    | Returns (Some e) \<Rightarrow> follows start cd j sv (at_call j sv PNext d w) y \<longrightarrow>
        follows start cd j sv (at_call j sv PNext c w) y"
proof -
  let ?m = "Move j strm"
  have one: "prun start cd (?m # ?m # evs) (at_call j sv PNext c w) = prun start cd evs sv'"
    if "call_step cd strm j (at_call j sv (PSend b) d w) = Some sv'" for evs sv'
    using at_call_move [OF u] at_call_next [OF u] that n by simp
  note send = at_call_send [OF u, of cd strm b d w]
  have stop: "follows start cd j sv (at_call j sv PNext c w) y'"
    if "call_step cd strm j (at_call j sv (PSend b) d w) = Some sv'" "after_send j sv (fst y') (snd y') sv'" for sv' y'
    by (rule followsI [of _ _ "[?m, ?m]"]) (use one [OF that(1)] that(2) in simp_all)
  let ?r = "Broker_Send cd strm (cPub (callers sv ! j)) (heap (base sv)) (clMem d b)"
  consider (panic) e where "?r = Panics e" | (sent) "?r = Returns None" | (refused) e where "?r = Returns (Some e)"
    by (metis outcome.exhaust option.exhaust)
  then show ?thesis
  proof cases
    case panic
    then show ?thesis using stop send by (simp add: after_send_def)
  next
    case sent
    then show ?thesis using stop [of _ "(Returns None, d)"] send by (force simp: after_send_def)
  next
    case refused
    have "follows start cd j sv (at_call j sv PNext c w) y" if f: "follows start cd j sv (at_call j sv PNext d w) y"
    proof -
      obtain evs sv' where e: "prun start cd evs (at_call j sv PNext d w) = Some sv'" "moves_of j evs"
        "after_send j sv (fst y) (snd y) sv'" using f unfolding follows_def by blast
      have "prun start cd (?m # ?m # evs) (at_call j sv PNext c w) = Some sv'"
        by (subst one [of "at_call j sv PNext d w"]) (use send refused e(1) in simp_all)
      from followsI [OF this _ e(3)] e(2) show ?thesis by simp
    qed
    with refused show ?thesis by simp
  qed
qed

lemma send_moves:
  assumes u: "undisturbed j sv" and "send_from cd ss (cPub (callers sv ! j)) (heap (base sv)) i c = Some y"
  shows "follows start cd j sv (at_call j sv PNext c w) y"
proof -
  let ?P = "\<lambda>cd ss p h i c y. p = cPub (callers sv ! j) \<longrightarrow> h = heap (base sv) \<longrightarrow>
    follows start cd j sv (at_call j sv PNext c w) y"
  have "?P cd ss (cPub (callers sv ! j)) (heap (base sv)) i c y"
  proof (rule send_from.raw_induct [where P = ?P, OF _ assms(2)], intro impI)
    fix send and cd :: "'a codec" and ss p h i c y
    assume IH: "\<And>cd ss p h i c y. send cd ss p h i c = Some y \<Longrightarrow> ?P cd ss p h i c y"
      and s: "(case nextBroker c of
          (Inl e, c) \<Rightarrow> Some (Returns (Some e), c)
        | (Inr bk, c) \<Rightarrow>
            (case Broker_Send cd (ss i bk) p h (clMem c bk) of
               Returns err \<Rightarrow> (if err \<noteq> None then send cd ss p h (Suc i) c else Some (Returns None, c))
             | Panics e \<Rightarrow> Some (Panics e, c))) = Some y"
      and p: "p = cPub (callers sv ! j)" and h: "h = heap (base sv)"
    obtain r d where n: "nextBroker c = (r, d)" by force
    show "follows start cd j sv (at_call j sv PNext c w) y"
    proof (cases r)
      case (Inl e)
      with s n follows_next [OF u] show ?thesis by auto
    next
      case (Inr b)
      with n s IH [of cd ss p h "Suc i" d y] p h follows_send [OF u n [unfolded Inr], where cd = cd and strm = "ss i b" and start = start and w = w and y = y, folded p h]
      show ?thesis by (auto split: outcome.splits if_splits option.splits)
    qed
  qed
  then show ?thesis by blast
qed

text \<open>Before and after \<open>send\<close>: the call registers; its wait ends, and it leaves the registry.\<close>

lemma call_registers:
  assumes "undisturbed j sv" and "callers sv ! j = \<lparr>cEvent = Some e, cPub = p\<lparr>pSubscribed := True\<rparr>, cPC = PRegister\<rparr>"
  shows "prun start cd (Move j strm # evs) sv =
    prun start cd evs (at_call j sv PNext (RegisterCb e (pID p) j (client (base sv))) (sent sv))"
  using assms by (cases sv) (simp add: undisturbed_def call_step_def at_call_def put_call_def Let_def)

lemma call_ends:
  assumes u: "undisturbed j sv" and cl: "callers sv ! j = \<lparr>cEvent = Some e, cPub = p\<lparr>pSubscribed := True\<rparr>, cPC = PRegister\<rparr>"
    and fin: "after_send j sv x d sv1"
  shows "\<exists>evs sv'. prun start cd evs sv1 = Some sv' \<and> (\<forall>ev \<in> set evs. ev = CtxDone j err \<or> (\<exists>strm. ev = Move j strm)) \<and>
    (case x of Panics z \<Rightarrow> down (base sv')
     | Returns y \<Rightarrow> cPC (callers sv' ! j) = PBack (failed (case y of None \<Rightarrow> err | Some z \<Rightarrow> z)) \<and>
         client (base sv') = UnregisterCb e (pID p) d \<and> heap (base sv') = heap (base sv))"
proof -
  have un: "prun start cd [Move j strm] (at_call j sv (PUnregister r) d w) =
      Some (at_call j sv (PBack r) (UnregisterCb e (pID p) d) w)" for r w strm
    using u cl by (cases sv) (simp add: undisturbed_def call_step_def at_call_def put_call_def Let_def)
  have ctx: "prun start cd [CtxDone j err] (at_call j sv PSelect d w) = Some (at_call j sv (PUnregister (failed err)) d w)" for w
    using u cl by (cases sv) (simp add: undisturbed_def selected_def at_call_def put_call_def Let_def Sub_select_def failed_def)
  have at: "cPC (callers (at_call j sv pc c w) ! j) = pc" "client (base (at_call j sv pc c w)) = c"
    "heap (base (at_call j sv pc c w)) = heap (base sv)" for pc c w
    using u by (simp_all add: undisturbed_def at_call_def put_call_def)
  let ?m = "Move j (\<lambda>strm msg. None)"
  consider (panic) z where "x = Panics z" | (sent) "x = Returns None" | (refused) z where "x = Returns (Some z)"
    by (metis outcome.exhaust option.exhaust)
  then show ?thesis
  proof cases
    case panic
    then have "prun start cd [] sv1 = Some sv1" "down (base sv1)" using fin by (simp_all add: after_send_def)
    with panic show ?thesis by (intro exI [of _ "[]"] exI [of _ sv1]) simp
  next
    case sent
    then obtain w where "sv1 = at_call j sv PSelect d w" using fin cl by (auto simp: after_send_def)
    then have "prun start cd ([CtxDone j err] @ [?m]) sv1 = Some (at_call j sv (PBack (failed err)) (UnregisterCb e (pID p) d) w)"
      using ctx un by (simp only: prun_append option.case)
    with sent at show ?thesis by (intro exI [of _ "[CtxDone j err] @ [?m]"] exI conjI) auto
  next
    case refused
    then obtain w where "sv1 = at_call j sv (PUnregister (failed z)) d w"
      using fin cl by (auto simp: after_send_def leave_def)
    then have "prun start cd [?m] sv1 = Some (at_call j sv (PBack (failed z)) (UnregisterCb e (pID p) d) w)"
      using un by simp
    with refused at show ?thesis by (intro exI [of _ "[?m]"] exI conjI) auto
  qed
qed

section \<open>What \<open>Pub\<close> makes\<close>

lemma Client_Pub_fields:
  assumes "Client_Pub uuid now ctx name payload c h = (p, h')"
  shows "pID p = uuid" "pPID p = clPID c" "pName p = name" "pProject p = []" "pPayload p = payload"
    "\<not> pSubscribed p" "meta (pContext p) h' = (meta ctx h)\<lparr>mdID := uuid\<rparr>"
proof -
  obtain q g where m: "MetaFromContext ctx h = (q, g)" by force
  then have p: "p = \<lparr>pID = uuid, pPID = clPID c, pName = name, pProject = [], pPayload = payload,
        pContext = md_WithContext q ctx, pTimestamp = now, pSubscribed = False\<rparr>"
    and h': "h' = md_write q ((cell g q)\<lparr>mdID := uuid\<rparr>) g"
    using assms by (simp_all add: Client_Pub_def)
  show "pID p = uuid" "pPID p = clPID c" "pName p = name" "pProject p = []" "pPayload p = payload"
    "\<not> pSubscribed p" by (simp_all add: p)
  show "meta (pContext p) h' = (meta ctx h)\<lparr>mdID := uuid\<rparr>"
    using meta_MetaFromContext [OF m] by (simp add: p h')
qed

section \<open>A concrete service\<close>

lemma prun_base:
  assumes "srun start cd evs (base sv) = Some s" and "\<forall>ev \<in> set evs. \<not> registry_event ev"
  shows "prun start cd (map PBase evs) sv = Some (sv\<lparr>base := s, got := got sv @ concat (map received evs)\<rparr>)"
  using assms by (induction evs arbitrary: sv) (auto split: if_splits option.splits)

text \<open>Both brokers are assigned and \<open>a\<close> is online, its session reading.\<close>

definition serving :: "'c system \<Rightarrow> bool" where
  "serving s \<longleftrightarrow> \<not> down s \<and> onlineBrokers (client s) = [0] \<and> online (client s) \<and> currentSend (client s) = 0 \<and>
     connected (clMem (client s) 0) \<and> stream (clMem (client s) 0) = Some 0 \<and> clFresh (client s) = 2 \<and>
     can_read (threads s) \<and> (\<forall>b. \<not> lock_held s b) \<and> length (sessions s 0) = 1 \<and>
     s_reader (sessions s 0 ! 0) = RReading \<and> free s (0, 0, Reader) \<and> Callbacks (client s) = Callback_New \<and>
     SubsStore (client s) = Store_New \<and> subs s = [] \<and> handled s = []"

lemma serving_up: "\<exists>s. srun demo_start cd up_a booted = Some s \<and> serving s"
  by (simp add: up_a_def eval_simps serving_def can_read_def holds_write_def runner_of_def in_connect_def Callback_New_def)

lemma service_up: "\<exists>s. prun demo_start cd (map PBase (boot @ up_a)) (pub_init boot_cli) = Some \<lparr>base = s, callers = [], sent = [], got = []\<rparr> \<and> serving s"
proof -
  obtain s where s: "srun demo_start cd up_a booted = Some s" "serving s" using serving_up by blast
  have "srun demo_start cd (boot @ up_a) (base (pub_init boot_cli)) = Some s"
    using s(1) by (simp add: srun_append pub_init_def boot_run)
  from prun_base [OF this] s(2) show ?thesis
    by (auto simp: pub_init_def boot_def up_a_def registry_event_def received_def)
qed

text \<open>A publisher sends event \<open>e\<close> with identifier \<open>i1\<close> and waits for \<open>r\<close>.\<close>

definition ask_r :: "nat pub_event list" where
  "ask_r = Publish Background ''e'' [] ''i1'' demo_now (Some ''r'') # replicate 3 (Move 0 (\<lambda>strm msg. None))"

lemma md_allocated_Background [simp]: "md_allocated Background h"
  by (simp add: md_allocated_def Background_def)

lemma ask_run:
  assumes "serving s"
  shows "\<exists>sv h p x. prun demo_start unary_codec ask_r \<lparr>base = s, callers = [], sent = [], got = []\<rparr> = Some sv \<and>
    sv = \<lparr>base = s\<lparr>heap := h, client := (RegisterCb ''r'' ''i1'' 0 (client s))\<lparr>currentSend := 1\<rparr>\<rparr>,
      callers = [\<lparr>cEvent = Some ''r'', cPub = p, cPC = PSelect\<rparr>], sent = x, got = []\<rparr> \<and> pID p = ''i1''"
proof -
  obtain p :: "nat Pub" and h where ph: "Client_Pub ''i1'' demo_now Background ''e'' [] (client s) (heap s) = (p, h)" by force
  then have p: "pID p = ''i1''" by (auto simp: Client_Pub_def Let_def split: prod.splits)
  let ?p = "p\<lparr>pSubscribed := True\<rparr>" and ?c = "RegisterCb ''r'' ''i1'' 0 (client s)"
  have "listed ?c" using assms by (simp add: listed_def serving_def RegisterCb_def)
  then have n: "nextBroker ?c = (Inr 0, ?c\<lparr>currentSend := 1\<rparr>)"
    using assms by (simp add: nextBroker_listed serving_def RegisterCb_def)
  have b: "Broker_Send unary_codec (\<lambda>strm msg. None) ?p h (clMem (client s) 0) = Returns None"
    using GetEvent_unary [of ?p h] assms by (auto simp: Broker_Send_def serving_def)
  then show ?thesis
    using assms p ph n
    by (simp add: ask_r_def serving_def call_step_def put_call_def eval_nat_numeral RegisterCb_def Let_def)
      (rule exI, rule refl)
qed

definition asking :: "nat service \<Rightarrow> bool" where
  "asking sv \<longleftrightarrow> \<not> down (base sv) \<and> length (callers sv) = 1 \<and> cEvent (callers sv ! 0) = Some ''r'' \<and>
     pID (cPub (callers sv ! 0)) = ''i1'' \<and> cPC (callers sv ! 0) = PSelect \<and> clFresh (client (base sv)) = 2 \<and>
     length (sessions (base sv) 0) = 1 \<and> s_reader (sessions (base sv) 0 ! 0) = RReading \<and>
     free (base sv) (0, 0, Reader) \<and> cb_list (Callbacks (client (base sv))) = [cb_id ''r'' ''i1'' \<mapsto> 0]"

lemma free_upd [simp]:
  "free (s\<lparr>heap := h, client := c\<rparr>) w = free s w" "free (receive cd msg s) w = free s w"
  by (auto simp: free_def ended_def receive_def split: option.split prod.split)

lemma asking_reached:
  "\<exists>sv. preach demo_start unary_codec boot_cli sv \<and> asking sv \<and> cb_pending (Callbacks (client (base sv))) = []"
proof -
  obtain s where s: "prun demo_start unary_codec (map PBase (boot @ up_a)) (pub_init boot_cli) =
      Some \<lparr>base = s, callers = [], sent = [], got = []\<rparr>" "serving s"
    using service_up by blast
  obtain sv h p x where sv: "prun demo_start unary_codec ask_r \<lparr>base = s, callers = [], sent = [], got = []\<rparr> = Some sv"
    "sv = \<lparr>base = s\<lparr>heap := h, client := (RegisterCb ''r'' ''i1'' 0 (client s))\<lparr>currentSend := 1\<rparr>\<rparr>,
      callers = [\<lparr>cEvent = Some ''r'', cPub = p, cPC = PSelect\<rparr>], sent = x, got = []\<rparr>" "pID p = ''i1''"
    using ask_run [OF s(2)] by blast
  have "preach demo_start unary_codec boot_cli sv"
    by (rule prun_preach [OF prun_preach [OF preach_init s(1)] sv(1)])
  moreover have "asking sv" "cb_pending (Callbacks (client (base sv))) = []" using s(2) sv(2,3)
    by (simp_all add: asking_def serving_def RegisterCb_def Callback_Register_def Callback_New_def)
  ultimately show ?thesis by blast
qed

section \<open>A response arrives\<close>

definition res_msg :: "bytes \<Rightarrow> Message" where
  "res_msg x = zero_message\<lparr>Name := ''r'', SubId := ''i1'', Payload := x\<rparr>"

text \<open>A connection reads a message.\<close>

lemma reads:
  assumes "p < clFresh (client (base sv))" and "k < length (sessions (base sv) p)"
    and "s_reader (sessions (base sv) p ! k) = RReading" and "free (base sv) (p, k, Reader)"
    and "Name msg \<noteq> ''_.ready''" and "Name msg \<noteq> ''_.reset''"
  shows "pub_exec start cd (PBase (SBroker p (EvMessage k msg))) sv =
    Some (sv\<lparr>base := receive cd msg (base sv), got := got sv @ [msg]\<rparr>)"
proof -
  have "put_view p (view (base sv) p) (base sv) = base sv" by (simp add: put_view_def view_def)
  then show ?thesis
    using assms by (simp add: sys_broker_def permitted_def view_def sys_label_def registry_event_def received_def)
qed

lemma receive_frame [simp]:
  "down (receive cd msg s) = down s" "sessions (receive cd msg s) = sessions s"
  "clFresh (client (receive cd msg s)) = clFresh (client s)"
  by (simp_all add: receive_def Client_recv_def split: prod.split)

text \<open>It meets the call that waits for it, behind whatever else is pending.\<close>

lemma response_run:
  assumes d: "\<not> down (base sv)" and j: "j < length (callers sv)" and pc: "cPC (callers sv ! j) = PSelect"
    and e: "cEvent (callers sv ! j) = Some (Name msg)" and i: "SubId msg = pID (cPub (callers sv ! j))"
    and reg: "cb_list (Callbacks (client (base sv))) (cb_id (Name msg) (SubId msg)) = Some j"
    and reads: "pub_exec start cd (PBase (SBroker p (EvMessage k msg))) sv =
      Some (sv\<lparr>base := receive cd msg (base sv), got := got sv @ [msg]\<rparr>)"
  shows "\<exists>h sv'. prun start cd [PBase (SBroker p (EvMessage k msg)),
      Meet (length (cb_pending (Callbacks (client (base sv))))) j, Move j strm] sv = Some sv' \<and>
    callers sv' = (callers sv)[j := (callers sv ! j)\<lparr>cPC :=
      PBack (fst (Sub_select cd (pContext (cPub (callers sv ! j))) (Received msg) h))\<rparr>] \<and>
    Callbacks (client (base sv')) = Callback_Unregister (Name msg) (SubId msg) (Callbacks (client (base sv))) \<and>
    \<not> down (base sv')"
proof -
  let ?cl = "callers sv ! j" and ?c = "client (base sv)"
  let ?s = "receive cd msg (base sv)" and ?ps = "cb_pending (Callbacks ?c)"
  let ?sv = "sv\<lparr>base := ?s, got := got sv @ [msg]\<rparr>" and ?i = "length ?ps"
  have cbs: "Callbacks (client ?s) = (Callbacks ?c)\<lparr>cb_pending := ?ps @ [(j, msg)]\<rparr>"
    by (simp add: receive_Callbacks Callback_Recv_def reg)
  obtain r h where r: "Sub_select cd (pContext (cPub ?cl)) (Received msg) (heap ?s) = (r, h)" by force
  let ?t = "selected cd (Received msg) j (take_pending ?i (client ?s)) ?sv"
  let ?u = "put_call j (?cl\<lparr>cPC := PBack r\<rparr>) (UnregisterCb (Name msg) (SubId msg) (take_pending ?i (client ?s))) ?t"
  have two: "pub_exec start cd (Meet ?i j) ?sv = Some ?t" using j pc by (simp add: Let_def cbs)
  have three: "pub_exec start cd (Move j strm) ?t = Some ?u"
    using j e i by (simp add: selected_def r call_step_def put_call_def Let_def)
  have down: "\<not> down (base ?sv)" "\<not> down (base ?t)" "\<not> down (base ?u)" using d by (simp_all add: selected_def put_call_def r)
  then have "prun start cd [PBase (SBroker p (EvMessage k msg)), Meet ?i j, Move j strm] sv = Some ?u"
    using d by (simp only: prun.simps reads two three option.case if_False)
  moreover have "callers ?u = (callers sv)[j := ?cl\<lparr>cPC :=
      PBack (fst (Sub_select cd (pContext (cPub ?cl)) (Received msg) (heap ?s)))\<rparr>]"
    using r j by (simp add: put_call_def selected_def)
  moreover have "Callbacks (client (base ?u)) = Callback_Unregister (Name msg) (SubId msg) (Callbacks ?c)"
    by (simp add: put_call_def cbs Callback_Unregister_def)
  ultimately show ?thesis using down(3) by blast
qed

lemma res_msg [simp]: "Name (res_msg x) = ''r''" "SubId (res_msg x) = ''i1''" "Payload (res_msg x) = x"
    "Error (res_msg x) = []" "Context (res_msg x) = None"
  by (simp_all add: res_msg_def zero_message_def)

lemma asking_reads:
  assumes "asking sv"
  shows "pub_exec start cd (PBase (SBroker 0 (EvMessage 0 (res_msg x)))) sv =
    Some (sv\<lparr>base := receive cd (res_msg x) (base sv), got := got sv @ [res_msg x]\<rparr>)"
  by (rule reads) (use assms in \<open>simp_all add: asking_def\<close>)

lemma asking_again:
  assumes "asking sv"
  shows "asking (sv\<lparr>base := receive cd (res_msg x) (base sv), got := got sv @ [res_msg x]\<rparr>)"
  using assms by (simp add: asking_def receive_Callbacks Callback_Recv_def)

lemma asking_response:
  assumes "preach demo_start unary_codec boot_cli sv" and a: "asking sv"
  shows "\<exists>sv' r. preach demo_start unary_codec boot_cli sv' \<and> callers sv' = [(callers sv ! 0)\<lparr>cPC := PBack r\<rparr>] \<and>
    rPayload r = Some x \<and> rErr r = None \<and> \<not> down (base sv') \<and>
    cb_pending (Callbacks (client (base sv'))) = cb_pending (Callbacks (client (base sv)))"
proof -
  obtain cl where cl: "callers sv = [cl]" using a by (auto simp: asking_def length_Suc_conv)
  have f: "\<not> down (base sv)" "0 < length (callers sv)" "cPC (callers sv ! 0) = PSelect"
    "cEvent (callers sv ! 0) = Some (Name (res_msg x))" "SubId (res_msg x) = pID (cPub (callers sv ! 0))"
    "cb_list (Callbacks (client (base sv))) (cb_id (Name (res_msg x)) (SubId (res_msg x))) = Some 0"
    using a by (simp_all add: asking_def)
  obtain evs h sv' where run: "prun demo_start unary_codec evs sv = Some sv'" and
    sv': "callers sv' = (callers sv)[0 := (callers sv ! 0)\<lparr>cPC :=
      PBack (fst (Sub_select unary_codec (pContext (cPub (callers sv ! 0))) (Received (res_msg x)) h))\<rparr>]"
    "Callbacks (client (base sv')) =
      Callback_Unregister (Name (res_msg x)) (SubId (res_msg x)) (Callbacks (client (base sv)))" "\<not> down (base sv')"
    using response_run [OF f asking_reads [OF a]] by blast
  have "preach demo_start unary_codec boot_cli sv'" by (rule prun_preach [OF assms(1) run])
  with sv' cl show ?thesis
    by (intro exI [of _ sv'] exI conjI, simp_all add: Sub_select_ctx Let_def Callback_Unregister_def) simp_all
qed

section \<open>Responses nobody takes\<close>

abbreviation held_for :: "nat \<Rightarrow> 'c service \<Rightarrow> (nat \<times> Message) list" where
  "held_for j sv \<equiv> filter (\<lambda>(ch, msg). ch = j) (cb_pending (Callbacks (client (base sv))))"

lemma deliver_appends: "\<exists>more. cb_pending (fold Callback_Recv ms cbs) = cb_pending cbs @ more"
proof (induction ms arbitrary: cbs)
  case (Cons m ms)
  have "\<exists>x. cb_pending (Callback_Recv m cbs) = cb_pending cbs @ x"
    by (simp add: Callback_Recv_def split: option.split)
  with Cons.IH [of "Callback_Recv m cbs"] show ?case by fastforce
qed simp

lemma nextBroker_Callbacks: "nextBroker c = (r, c') \<Longrightarrow> Callbacks c' = Callbacks c"
  using nextBroker_frame [of c] by auto

lemma call_step_shape:
  assumes "call_step cd strm k sv = Some sv'"
  shows "cb_pending (Callbacks (client (base sv'))) = cb_pending (Callbacks (client (base sv))) \<and>
    (\<exists>cl. callers sv' = (callers sv)[k := cl] \<and>
       (cPC (callers sv ! k) \<in> {PUnregister r, PBack r} \<longrightarrow> cPC cl = PBack r))"
proof -
  have same: "callers sv = (callers sv)[k := callers sv ! k]" by simp
  show ?thesis
    using assms
    by (auto simp: call_step_def Let_def put_call_def Callback_Register_def Callback_Unregister_def
        dest!: nextBroker_Callbacks split: pub_pc.splits if_splits option.splits sum.splits prod.splits outcome.splits
        intro: same exI [of _ "callers sv ! k"])
qed

lemma stuck_step:
  assumes inv: "svc_inv sv" and st: "sound_start start" and step: "pub_exec start cd ev sv = Some sv'"
    and j: "j < length (callers sv)" and pc: "cPC (callers sv ! j) \<in> {PUnregister r, PBack r}"
  shows "(\<exists>more. held_for j sv' = held_for j sv @ more) \<and> j < length (callers sv') \<and>
    cPC (callers sv' ! j) \<in> {PUnregister r, PBack r}"
proof (cases ev)
  case (PBase e)
  with step obtain s where n: "\<not> registry_event e" and s: "sys_exec start cd e (base sv) = Some s"
    and sv': "sv' = sv\<lparr>base := s, got := got sv @ received e\<rparr>" by (auto split: if_splits option.splits)
  have "sys_inv (base sv)" using inv by (simp add: svc_inv_def)
  from exec_Callbacks [OF this st s n] deliver_appends [of "received e" "Callbacks (client (base sv))"]
  show ?thesis using j pc by (auto simp: sv')
next
  case (Publish ctx name payload uuid now event)
  with step j pc show ?thesis by (auto simp: Let_def nth_append split: if_splits prod.splits)
next
  case (Move k strm)
  with step have "call_step cd strm k sv = Some sv'" by (auto split: if_splits)
  from call_step_shape [OF this, of r] show ?thesis using j pc by (cases "k = j") auto
next
  case (Meet i k)
  let ?ps = "cb_pending (Callbacks (client (base sv)))"
  from Meet step have k: "cPC (callers sv ! k) = PSelect" and i: "i < length ?ps" "fst (?ps ! i) = k"
    and sv': "sv' = selected cd (Received (snd (?ps ! i))) k (take_pending i (client (base sv))) sv"
    by (auto simp: Let_def split: if_splits)
  have "k \<noteq> j" using k pc by auto
  moreover have "held_for j sv = filter (\<lambda>(ch, msg). ch = j) (take i ?ps @ drop (Suc i) ?ps)"
    using i \<open>k \<noteq> j\<close> by (subst id_take_nth_drop [OF i(1)]) auto
  ultimately show ?thesis using j pc by (auto simp: sv' selected_def Let_def split: prod.split)
next
  case (CtxDone k e)
  with step pc have "k \<noteq> j" "sv' = selected cd (Cancelled e) k (client (base sv)) sv" by (auto split: if_splits)
  then show ?thesis using j pc by (auto simp: selected_def Let_def split: prod.split)
next
  case (SetError ctx e)
  with step j pc show ?thesis by (auto split: if_splits)
qed

lemma stuck_run:
  assumes "prun start cd evs sv = Some sv'" and "svc_inv sv" and "sound_start start"
    and "j < length (callers sv)" and "cPC (callers sv ! j) \<in> {PUnregister r, PBack r}"
  shows "(\<exists>more. held_for j sv' = held_for j sv @ more) \<and> cPC (callers sv' ! j) \<in> {PUnregister r, PBack r}"
  using assms
proof (induction evs arbitrary: sv)
  case Nil
  then show ?case by simp
next
  case (Cons ev evs)
  then obtain t where t: "pub_exec start cd ev sv = Some t" "prun start cd evs t = Some sv'"
    by (auto split: if_splits option.splits)
  have s: "(\<exists>more. held_for j t = held_for j sv @ more) \<and> j < length (callers t) \<and>
      cPC (callers t ! j) \<in> {PUnregister r, PBack r}"
    by (rule stuck_step [OF Cons.prems(2,3) t(1) Cons.prems(4,5)])
  from Cons.IH [OF t(2) svc_inv_exec [OF Cons.prems(2,3) t(1)] Cons.prems(3)] s show ?case by fastforce
qed

section \<open>One broker is listed\<close>

text \<open>
  \<open>set\<close> puts its broker at every place of the new list, so the list never names two brokers (theory
  \<open>Client\<close>, \<open>connect_forgets_others\<close>), whatever the goroutines do.
\<close>

definition one_listed :: "Client \<Rightarrow> bool" where
  "one_listed c \<longleftrightarrow> (\<forall>x \<in> set (onlineBrokers c). \<forall>y \<in> set (onlineBrokers c). x = y)"

lemma one_listed_same: "one_listed c \<Longrightarrow> onlineBrokers c' = onlineBrokers c \<Longrightarrow> one_listed c'"
  by (simp add: one_listed_def)

lemma rmove_listed:
  assumes m: "rmove start ks n ts c t t' c' new" and l: "one_listed c"
  shows "one_listed c'"
  using m
proof cases
  case (visit i js)
  then have "same_flags c c'" by (simp add: same_flags_Done)
  then show ?thesis by (intro one_listed_same [OF l]) (simp add: same_flags_def)
next
  case next_broker
  then show ?thesis using same_flags_simps(5) [of c] by (intro one_listed_same [OF l]) (simp add: same_flags_def)
next
  case (request pid bks w)
  then show ?thesis using same_flags_simps(3) [of c pid] by (intro one_listed_same [OF l]) (simp add: same_flags_def)
next
  case (launch w auth pid bk bks)
  then show ?thesis using same_flags_simps(4) [of c auth pid bk] by (intro one_listed_same [OF l]) (simp add: same_flags_def)
qed (use l in \<open>auto simp: one_listed_def\<close>)

lemma rexec_listed:
  assumes "rexec start ev (ts, c) = Some (ts', c')" and l: "one_listed c"
  shows "one_listed c'"
proof (cases ev)
  case (Step k ks n)
  with assms(1) have k: "k < length ts" and "rstep start k ks n (ts, c) = Some (ts', c')" by (auto split: if_splits)
  then show ?thesis by (auto elim!: rstepE intro: rmove_listed [OF _ l])
qed (use assms in \<open>auto simp: go_def split: if_splits rpc.splits\<close>)

lemma labels_listed: "onlineBrokers (client (sys_labels cd w ls s)) = onlineBrokers (client s)"
proof (induction ls arbitrary: s)
  case (Cons l ls)
  have "onlineBrokers (client (sys_label cd w l s)) = onlineBrokers (client s)"
    by (auto simp: sys_label_def call_back_def receive_def Client_recv_def Let_def split: blabel.split prod.split)
  with Cons.IH show ?case by simp
qed simp

lemma exec_listed:
  assumes "sys_exec start cd ev s = Some s'" and "one_listed (client s)"
  shows "one_listed (client s')"
proof (cases ev)
  case (SClient e)
  with assms show ?thesis
    by (auto simp: sys_client_def split: if_splits option.splits intro: rexec_listed)
next
  case (SSubStep k)
  with assms show ?thesis by (auto simp: one_listed_def elim!: sub_move_client)
next
  case (SBroker p e)
  with assms show ?thesis
    by (auto simp: sys_broker_def put_view_def one_listed_def labels_listed split: if_splits option.splits)
qed (use assms in \<open>auto simp: sys_ask_def sub_call_def RegisterCb_def UnregisterCb_def one_listed_def split: if_splits\<close>)

lemma nextBroker_listing: "nextBroker c = (r, c') \<Longrightarrow> onlineBrokers c' = onlineBrokers c"
  using nextBroker_frame [of c] by auto

lemma call_step_listing:
  assumes "call_step cd strm j sv = Some sv'"
  shows "onlineBrokers (client (base sv')) = onlineBrokers (client (base sv))"
proof (cases "cPC (callers sv ! j)")
  case PNext
  obtain r d where n: "nextBroker (client (base sv)) = (r, d)" by force
  with assms PNext nextBroker_listing [OF n] show ?thesis
    by (auto simp: call_step_def Let_def put_call_def split: if_splits sum.splits)
next
  case (PSend b)
  with assms show ?thesis
    by (auto simp: call_step_def Let_def put_call_def split: if_splits option.splits outcome.splits)
qed (use assms in \<open>auto simp: call_step_def Let_def put_call_def RegisterCb_def UnregisterCb_def split: option.splits\<close>)

lemma pub_exec_listed:
  assumes "pub_exec start cd ev sv = Some sv'" and l: "one_listed (client (base sv))"
  shows "one_listed (client (base sv'))"
proof (cases ev)
  case (PBase e)
  with assms show ?thesis by (auto split: if_splits option.splits intro: exec_listed)
next
  case (Move j strm)
  with assms have "call_step cd strm j sv = Some sv'" by (auto split: if_splits)
  then have "onlineBrokers (client (base sv')) = onlineBrokers (client (base sv))" by (rule call_step_listing)
  then show ?thesis by (rule one_listed_same [OF l])
qed (use assms in \<open>auto simp: selected_def take_pending_def one_listed_def Let_def split: if_splits prod.splits\<close>)

lemma preach_listed: "preach start cd c0 sv \<Longrightarrow> unbooted c0 \<Longrightarrow> one_listed (client (base sv))"
proof (induction rule: preach.induct)
  case preach_init
  then show ?case by (simp add: pub_init_def sys_init_def unbooted_def one_listed_def)
next
  case (preach_step sv ev sv')
  then show ?case using pub_exec_listed by blast
qed

text \<open>
  The steps of a call of \<open>Sub\<close> that no other goroutine disturbs, and whose context ends while it
  waits, compute what the function \<open>Pub_Sub\<close> says: if that returns a result, a sequence of steps of the
  call returns it in the same state of the client, and if it panics, so do the steps.
\<close>

lemma steps_are_Pub_Sub:
  assumes "undisturbed j sv" and "callers sv ! j = \<lparr>cEvent = Some e, cPub = p\<lparr>pSubscribed := True\<rparr>, cPC = PRegister\<rparr>"
    and "Client_Pub_Sub cd ss (\<lambda>w. w) (\<lambda>c. Cancelled err) e j p (heap (base sv)) (client (base sv)) = Some (out, h', c')"
  shows "\<exists>evs sv'. prun start cd evs sv = Some sv' \<and> (\<forall>ev \<in> set evs. ev = CtxDone j err \<or> (\<exists>strm. ev = Move j strm)) \<and>
    (case out of
       Panics x \<Rightarrow> down (base sv')
     | Returns r \<Rightarrow> cPC (callers sv' ! j) = PBack r \<and> client (base sv') = c' \<and> heap (base sv') = h')"
proof -
  let ?p = "p\<lparr>pSubscribed := True\<rparr>" and ?c = "RegisterCb e (pID p) j (client (base sv))"
  obtain x d where snd: "Client_send cd ss ?p (heap (base sv)) ?c = Some (x, d)"
    and res: "(out, h', c') = (case x of
        Panics x \<Rightarrow> (Panics x, heap (base sv), UnregisterCb e (pID p) d)
      | Returns y \<Rightarrow> (Returns (failed (case y of None \<Rightarrow> err | Some x \<Rightarrow> x)), heap (base sv), UnregisterCb e (pID p) d))"
    using assms(3)
    by (auto simp: Client_Pub_Sub_def Pub_Sub_def Let_def Sub_select_def failed_def
        split: option.splits outcome.splits)
  obtain evs sv1 where run: "prun start cd evs (at_call j sv PNext ?c (sent sv)) = Some sv1" "moves_of j evs"
    "after_send j sv x d sv1"
    using send_moves [OF assms(1), of cd ss 0 ?c "(x, d)" start "sent sv"] snd assms(2)
    by (auto simp: Client_send_def follows_def)
  obtain evs' sv' where rest: "prun start cd evs' sv1 = Some sv'"
    "\<forall>ev \<in> set evs'. ev = CtxDone j err \<or> (\<exists>strm. ev = Move j strm)"
    "case x of Panics z \<Rightarrow> down (base sv')
     | Returns y \<Rightarrow> cPC (callers sv' ! j) = PBack (failed (case y of None \<Rightarrow> err | Some z \<Rightarrow> z)) \<and>
         client (base sv') = UnregisterCb e (pID p) d \<and> heap (base sv') = heap (base sv)"
    using call_ends [OF assms(1,2) run(3)] by blast
  let ?evs = "Move j (\<lambda>strm msg. None) # evs @ evs'"
  have "prun start cd ?evs sv = Some sv'"
    using call_registers [OF assms(1,2)] run(1) rest(1) by (simp only: prun_append option.case)
  moreover have "\<forall>ev \<in> set ?evs. ev = CtxDone j err \<or> (\<exists>strm. ev = Move j strm)"
    using run(2) rest(2) by (auto simp: moves_of_def)
  ultimately show ?thesis
    using rest(3) res by (intro exI [of _ ?evs] exI [of _ sv'] conjI) (auto split: outcome.splits)
qed

lemma boot_cli_calls: "Callbacks boot_cli = Callback_New"
  by (simp add: boot_cli_def start_cli_def demo_cli_def)

section \<open>Properties\<close>

text \<open>
  C7. Publishing from the running system, in every reachable state in which a call is in \<open>send\<close> and the
  client's lock can be read. If no broker is listed, the call leaves with \<open>ErrClientNotConnected\<close> at its
  next step and nothing is sent. Otherwise the listed entries are all one broker; the next step chooses it,
  and as soon as that broker's lock is free the step after it does one of two things: if the broker is
  connected, the event can be encoded and the stream accepts it, then the event is on that stream and the
  call goes on to wait (or, in \<open>Do\<close>, returns without error); if not, nothing is sent and the call asks for a
  broker again. Neither panics or changes anything else but the counter.
\<close>

theorem send_in_service:
  assumes "preach (start_in url_parse enc dec hostname envs uuid) cd c0 sv"
    and "unbooted c0" and "Callbacks c0 = Callback_New" and "decodes_fresh dec" and "\<not> down (base sv)"
    and "j < length (callers sv)" and "callers sv ! j = cl" and "cPC cl = PNext"
    and "can_read (threads (base sv))" and "length (onlineBrokers (client (base sv))) < 2 ^ 64"
    and "c = client (base sv)"
  shows "if onlineBrokers c = []
    then \<exists>sv'. prun (start_in url_parse enc dec hostname envs uuid) cd [Move j strm] sv = Some sv' \<and>
      callers sv' = (callers sv)[j := leave (failed ErrClientNotConnected) cl] \<and> base sv' = base sv \<and> sent sv' = sent sv
    else \<exists>b. set (onlineBrokers c) = {b} \<and> (\<not> lock_held (base sv) b \<longrightarrow>
      (\<exists>sv'. prun (start_in url_parse enc dec hostname envs uuid) cd [Move j strm, Move j strm] sv = Some sv' \<and>
        base sv' = (base sv)\<lparr>client := c\<lparr>currentSend := currentSend c + 1\<rparr>\<rparr> \<and>
        (if \<exists>n msg. connected (clMem c b) \<and> stream (clMem c b) = Some n \<and>
              GetEvent cd (cPub cl) (heap (base sv)) = Inr msg \<and> strm n msg = None
         then callers sv' = (callers sv)[j := cl\<lparr>cPC := if cEvent cl = None then PBack passed else PSelect\<rparr>] \<and>
           (\<exists>n msg. stream (clMem c b) = Some n \<and> GetEvent cd (cPub cl) (heap (base sv)) = Inr msg \<and>
             sent sv' = sent sv @ [(b, n, msg)])
         else callers sv' = callers sv \<and> sent sv' = sent sv)))"
proof -
  have inv: "sys_inv (base sv)"
    using preach_inv [OF assms(1-3) Start_sound [OF assms(4)]] by (simp add: svc_inv_def)
  let ?st = "start_in url_parse enc dec hostname envs uuid"
  show ?thesis
  proof (cases "onlineBrokers c = []")
    case True
    then have "\<not> online c" using sys_invD(1) [OF inv] assms(11) by (simp add: flag_ok_def)
    then have "call_step cd strm j sv = Some (put_call j (leave (failed ErrClientNotConnected) cl) c sv)"
      using assms(7-9,11) by (simp add: call_step_def nextBroker_offline Let_def)
    then show ?thesis using True assms(5,6,11) by (simp add: put_call_def)
  next
    case False
    let ?b = "turn_of c (currentSend c)" and ?c = "c\<lparr>currentSend := currentSend c + 1\<rparr>"
    have l: "listed c" using False sys_invD(1) [OF inv] assms(10,11) by (simp add: listed_def flag_ok_def)
    have b: "?b \<in> set (onlineBrokers c)" using False by simp
    then have one: "set (onlineBrokers c) = {?b}"
      using preach_listed [OF assms(1,2)] assms(11) unfolding one_listed_def by blast
    have ret: "\<exists>r. Broker_Send cd strm p h (clMem c ?b) = Returns r" for p h
      using sys_Send_returns [OF inv sys_listed_allocated [OF inv]] b assms(11) by blast
    let ?sv = "put_call j (cl\<lparr>cPC := PSend ?b\<rparr>) ?c sv"
    have "nextBroker (client (base sv)) = (Inr ?b, ?c)" unfolding assms(11) [symmetric] by (rule nextBroker_listed [OF l])
    then have s1: "call_step cd strm j sv = Some ?sv" using assms(7-9) by (simp add: call_step_def Let_def)
    have run: "prun ?st cd [Move j strm, Move j strm] sv = Some sv'" if "call_step cd strm j ?sv = Some sv'" for sv'
      using s1 that assms(5,6) by (simp add: put_call_def)
    let ?go = "\<exists>n msg. connected (clMem c ?b) \<and> stream (clMem c ?b) = Some n \<and>
      GetEvent cd (cPub cl) (heap (base sv)) = Inr msg \<and> strm n msg = None"
    let ?base = "(base sv)\<lparr>client := ?c\<rparr>"
    have held: "lock_held ?base = lock_held (base sv)" by simp
    have keep: "(callers sv)[j := cl] = callers sv" "cl\<lparr>cPC := PNext\<rparr> = cl" using assms(7,8) by auto
    define R where "R sv' \<longleftrightarrow> base sv' = ?base \<and>
        (if ?go then callers sv' = (callers sv)[j := cl\<lparr>cPC := if cEvent cl = None then PBack passed else PSelect\<rparr>] \<and>
           (\<exists>n msg. stream (clMem c ?b) = Some n \<and> GetEvent cd (cPub cl) (heap (base sv)) = Inr msg \<and>
             sent sv' = sent sv @ [(?b, n, msg)])
         else callers sv' = callers sv \<and> sent sv' = sent sv)" for sv' :: "'a service"
    have "\<exists>sv'. call_step cd strm j ?sv = Some sv' \<and> R sv'"
      if n: "\<not> lock_held (base sv) ?b"
    proof (cases ?go)
      case True
      then show ?thesis using n assms(6)
        by (auto simp: R_def call_step_def put_call_def Let_def held Broker_Send_def on_wire_def)
    next
      case False
      then obtain e where "Broker_Send cd strm (cPub cl) (heap (base sv)) (clMem c ?b) = Returns (Some e)"
        using ret [of "cPub cl" "heap (base sv)"] by (auto simp: Broker_Send_def split: if_splits sum.splits option.splits)
      then show ?thesis using n assms(6) False keep
        by (simp add: R_def call_step_def put_call_def Let_def held)
    qed
    then have "\<not> lock_held (base sv) ?b \<longrightarrow>
        (\<exists>sv'. prun ?st cd [Move j strm, Move j strm] sv = Some sv' \<and> R sv')" using run by blast
    with one False show ?thesis unfolding R_def by (simp only: if_False) blast
  qed
qed

theorem send_in_service_witness:
  "\<exists>sv sv' msg. preach demo_start unary_codec boot_cli sv \<and> cPC (callers sv ! 0) = PNext \<and>
     prun demo_start unary_codec [Move 0 (\<lambda>strm msg. None), Move 0 (\<lambda>strm msg. None)] sv = Some sv' \<and>
     sent sv' = [(0, 0, msg)] \<and> cPC (callers sv' ! 0) = PBack passed"
proof -
  obtain s where s: "prun demo_start unary_codec (map PBase (boot @ up_a)) (pub_init boot_cli) =
      Some \<lparr>base = s, callers = [], sent = [], got = []\<rparr>" "serving s"
    using service_up by blast
  obtain p :: "nat Pub" and h where ph: "Client_Pub ''i1'' demo_now Background ''e'' [] (client s) (heap s) = (p, h)" by force
  let ?cl = "\<lparr>cEvent = None, cPub = p, cPC = PNext\<rparr>"
  let ?sv = "\<lparr>base = s\<lparr>heap := h\<rparr>, callers = [?cl], sent = [], got = []\<rparr>"
  have "prun demo_start unary_codec [Publish Background ''e'' [] ''i1'' demo_now None]
      \<lparr>base = s, callers = [], sent = [], got = []\<rparr> = Some ?sv"
    using ph s(2) by (simp add: serving_def)
  then have r: "preach demo_start unary_codec boot_cli ?sv" by (rule prun_preach [OF prun_preach [OF preach_init s(1)]])
  obtain msg where m: "GetEvent unary_codec p h = Inr msg" using GetEvent_unary by blast
  have st: "connected (clMem (client s) 0)" "stream (clMem (client s) 0) = Some 0" "onlineBrokers (client s) = [0]"
    "\<not> down s" "can_read (threads s)" "\<not> lock_held s 0" using s(2) by (simp_all add: serving_def)
  let ?mv = "[Move 0 (\<lambda>strm msg. None), Move 0 (\<lambda>strm msg. None)]"
  have pre: "\<not> down (base ?sv)" "0 < length (callers ?sv)" "callers ?sv ! 0 = ?cl" "cPC ?cl = PNext"
    "can_read (threads (base ?sv))" "length (onlineBrokers (client (base ?sv))) < 2 ^ 64" "client s = client (base ?sv)"
    and held: "\<not> lock_held (base ?sv) 0" using st by simp_all
  have go: "\<exists>n msg. connected (clMem (client s) 0) \<and> stream (clMem (client s) 0) = Some n \<and>
      GetEvent unary_codec (cPub ?cl) (heap (base ?sv)) = Inr msg \<and> (\<lambda>strm msg. None :: err option) n msg = None"
    using st m by simp
  have one: "b = 0" if "set (onlineBrokers (client s)) = {b}" for b using that st(3) by simp
  have ne: "onlineBrokers (client s) \<noteq> []" using st(3) by simp
  from send_in_service [OF r [unfolded demo_start_def] boot_cli boot_cli_calls demo_decodes pre, folded demo_start_def,
      where strm = "\<lambda>strm msg. None", unfolded if_not_P [OF ne]]
  have "\<exists>sv'. prun demo_start unary_codec ?mv ?sv = Some sv' \<and>
      callers sv' = (callers ?sv)[0 := ?cl\<lparr>cPC := if cEvent ?cl = None then PBack passed else PSelect\<rparr>] \<and>
      (\<exists>n msg. stream (clMem (client s) 0) = Some n \<and> GetEvent unary_codec (cPub ?cl) (heap (base ?sv)) = Inr msg \<and>
        sent sv' = sent ?sv @ [(0, n, msg)])"
    using one held unfolding if_P [OF go] by (metis (no_types, lifting) if_P [OF go])
  then obtain sv' where "prun demo_start unary_codec ?mv ?sv = Some sv'"
    "callers sv' = [?cl\<lparr>cPC := PBack passed\<rparr>]" "sent sv' = [(0, 0, msg)]"
    using st(2) m by (auto simp del: prun.simps)
  with r show ?thesis by (intro exI [of _ ?sv] exI [of _ sv'] exI [of _ msg]) (simp del: prun.simps)
qed

text \<open>
  C10. What a publisher gets was said to it: in every reachable state a call of \<open>Sub event\<close> that has
  returned without error returns the payload of a message that a connection received with no error in it,
  after a stream had taken the call's own event with a response asked for; and the message has that event as
  its name and the call's identifier as its \<open>SubId\<close>, unless its \<open>SubId\<close> contains a colon: the registry's keys
  join event and identifier with a colon, so such a message can pass for another one. If the call has not
  returned a payload, it returns an error; and in both cases no entry of the registry is left that leads to it.
\<close>

theorem answers_are_responses:
  assumes "preach (start_in url_parse enc dec hostname envs uuid) cd c0 sv"
    and "unbooted c0" and "Callbacks c0 = Callback_New" and "decodes_fresh dec"
    and "j < length (callers sv)" and "cEvent (callers sv ! j) = Some e" and "cPC (callers sv ! j) = PBack r"
    and "plain_id (pID (cPub (callers sv ! j)))"
  shows "(case rPayload r of
      None \<Rightarrow> rErr r \<noteq> None
    | Some x \<Rightarrow> rErr r = None \<and>
        (\<exists>(b, strm, m) \<in> set (sent sv). Id m = pID (cPub (callers sv ! j)) \<and> Name m = pName (cPub (callers sv ! j)) \<and> Sub m) \<and>
        (\<exists>msg \<in> set (got sv). Payload msg = x \<and> Error msg = [] \<and>
           (Name msg = e \<and> SubId msg = pID (cPub (callers sv ! j)) \<or> CHR '':'' \<in> set (SubId msg)))) \<and>
    cb_list (Callbacks (client (base sv))) k \<noteq> Some j"
proof -
  let ?cl = "callers sv ! j"
  have ci: "calls_inv (Callbacks (client (base sv))) (callers sv) (sent sv) (got sv)"
    using preach_inv [OF assms(1-3) Start_sound [OF assms(4)]] by (simp add: svc_inv_def)
  have "result_ok (sent sv) (got sv) ?cl r"
    using calls_invD(3) [OF ci, of ?cl] assms(5-7) by (simp add: call_ok_def)
  moreover have "Name msg = e \<and> SubId msg = pID (cPub ?cl) \<or> CHR '':'' \<in> set (SubId msg)" if "answers msg ?cl" for msg
    using that assms(6,8) cb_id_inj [of "SubId msg" "pID (cPub ?cl)" "Name msg" e]
    by (auto simp: answers_def key_of_def plain_id_def)
  moreover have "\<not> registered ?cl" using assms(7) by (simp add: registered_def)
  ultimately show ?thesis
    using calls_invD(1) [OF ci, of k j] by (auto simp: result_ok_def announced_def split: option.splits)
qed

theorem answers_are_responses_witness:
  "\<exists>sv r. preach demo_start unary_codec boot_cli sv \<and> cPC (callers sv ! 0) = PBack r \<and> rPayload r = Some [5] \<and>
     (\<exists>(b, strm, m) \<in> set (sent sv). Id m = ''i1'' \<and> Sub m) \<and>
     (\<exists>msg \<in> set (got sv). Payload msg = [5] \<and> Error msg = [])"
proof -
  obtain sv where sv: "preach demo_start unary_codec boot_cli sv" "asking sv" using asking_reached by blast
  obtain sv' r where r: "preach demo_start unary_codec boot_cli sv'" "callers sv' = [(callers sv ! 0)\<lparr>cPC := PBack r\<rparr>]"
    "rPayload r = Some [5]" using asking_response [OF sv] by blast
  have "cEvent (callers sv ! 0) = Some ''r''" "pID (cPub (callers sv ! 0)) = ''i1''" using sv(2) by (simp_all add: asking_def)
  then show ?thesis
    using answers_are_responses [OF r(1) [unfolded demo_start_def] boot_cli boot_cli_calls demo_decodes, of 0 "''r''" r] r
    by (fastforce simp: plain_id_def)
qed

text \<open>
  C9. A response reaches the publisher that waits for it: if identifiers are drawn apart, then in every
  reachable state in which a call of \<open>Sub\<close> is in its \<open>select\<close>, a message with its event and identifier
  that any reading connection receives can be delivered to it, whatever else is pending; the call then returns what \<open>Sub\<close>
  makes of that message and leaves the registry.
\<close>

theorem response_reaches_publisher:
  assumes "preach (start_in url_parse enc dec hostname envs uuid) cd c0 sv"
    and "unbooted c0" and "Callbacks c0 = Callback_New" and "decodes_fresh dec" and "\<not> down (base sv)"
    and "j < length (callers sv)" and "cEvent (callers sv ! j) = Some e" and "cPC (callers sv ! j) = PSelect"
    and "ids_ok (callers sv)"
    and "p < clFresh (client (base sv))" and "k < length (sessions (base sv) p)"
    and "s_reader (sessions (base sv) p ! k) = RReading" and "free (base sv) (p, k, Reader)"
    and "Name msg = e" and "SubId msg = pID (cPub (callers sv ! j))"
    and "e \<noteq> ''_.ready''" and "e \<noteq> ''_.reset''"
  shows "\<exists>i h sv'. prun (start_in url_parse enc dec hostname envs uuid) cd
      [PBase (SBroker p (EvMessage k msg)), Meet i j, Move j strm] sv = Some sv' \<and>
    cPC (callers sv' ! j) = PBack (fst (Sub_select cd (pContext (cPub (callers sv ! j))) (Received msg) h)) \<and>
    cb_list (Callbacks (client (base sv'))) (cb_id e (SubId msg)) = None"
proof -
  have ci: "calls_inv (Callbacks (client (base sv))) (callers sv) (sent sv) (got sv)"
    using preach_inv [OF assms(1-3) Start_sound [OF assms(4)]] by (simp add: svc_inv_def)
  have "registered (callers sv ! j)" using assms(7,8) by (simp add: registered_def)
  then have "cb_list (Callbacks (client (base sv))) (cb_id (Name msg) (SubId msg)) = Some j"
    using calls_invD(4) [OF ci assms(9,6)] assms(7,14,15) by (auto simp: key_of_def)
  from response_run [OF assms(5,6,8) _ assms(15) this reads [OF assms(10-13)]] show ?thesis
    using assms(6,7,14,16,17) by (fastforce simp: Callback_Unregister_def)
qed

theorem response_reaches_publisher_witness:
  "\<exists>sv i sv' r. preach demo_start unary_codec boot_cli sv \<and> cPC (callers sv ! 0) = PSelect \<and>
     prun demo_start unary_codec [PBase (SBroker 0 (EvMessage 0 (res_msg [5]))), Meet i 0, Move 0 (\<lambda>strm msg. None)] sv =
       Some sv' \<and> cPC (callers sv' ! 0) = PBack r \<and> rPayload r = Some [5]"
proof -
  obtain sv where sv: "preach demo_start unary_codec boot_cli sv" "asking sv" using asking_reached by blast
  then obtain cl where "callers sv = [cl]" by (auto simp: asking_def length_Suc_conv)
  then have ids: "ids_ok (callers sv)" using sv(2) by (simp add: ids_ok_def asking_def plain_id_def)
  note a = sv(2) [unfolded asking_def]
  have "\<exists>i h sv'. prun demo_start unary_codec
      [PBase (SBroker 0 (EvMessage 0 (res_msg [5]))), Meet i 0, Move 0 (\<lambda>strm msg. None)] sv = Some sv' \<and>
    cPC (callers sv' ! 0) = PBack (fst (Sub_select unary_codec (pContext (cPub (callers sv ! 0))) (Received (res_msg [5])) h)) \<and>
    cb_list (Callbacks (client (base sv'))) (cb_id ''r'' (SubId (res_msg [5]))) = None"
    unfolding demo_start_def
    by (rule response_reaches_publisher [OF sv(1) [unfolded demo_start_def] boot_cli boot_cli_calls demo_decodes])
      (use a ids in simp_all)
  then obtain i h sv' where "prun demo_start unary_codec
      [PBase (SBroker 0 (EvMessage 0 (res_msg [5]))), Meet i 0, Move 0 (\<lambda>strm msg. None)] sv = Some sv'"
    "cPC (callers sv' ! 0) = PBack (fst (Sub_select unary_codec (pContext (cPub (callers sv ! 0))) (Received (res_msg [5])) h))"
    by blast
  moreover have "rPayload (fst (Sub_select unary_codec (pContext (cPub (callers sv ! 0))) (Received (res_msg [5])) h)) = Some [5]"
    by (simp add: Sub_select_ctx Let_def)
  ultimately show ?thesis using sv(1) a by blast
qed

text \<open>
  C26. A second response is stuck: once a call of \<open>Sub\<close> has left its \<open>select\<close>, every goroutine that holds a
  message for it stays blocked on its channel whatever the service does, since the channel has no
  buffer and nobody else receives from it; such goroutines only accumulate.
\<close>

theorem surplus_response_blocks_for_ever:
  assumes "preach (start_in url_parse enc dec hostname envs uuid) cd c0 sv"
    and "unbooted c0" and "Callbacks c0 = Callback_New" and "decodes_fresh dec"
    and "j < length (callers sv)" and "cPC (callers sv ! j) \<in> {PUnregister r, PBack r}"
    and "prun (start_in url_parse enc dec hostname envs uuid) cd evs sv = Some sv'"
  shows "\<exists>more. filter (\<lambda>(ch, msg). ch = j) (cb_pending (Callbacks (client (base sv')))) =
      filter (\<lambda>(ch, msg). ch = j) (cb_pending (Callbacks (client (base sv)))) @ more \<and>
    cPC (callers sv' ! j) \<in> {PUnregister r, PBack r}"
  using stuck_run [OF assms(7) preach_inv [OF assms(1-3) Start_sound [OF assms(4)]] Start_sound [OF assms(4)] assms(5,6)]
  by blast

theorem surplus_response_blocks_for_ever_witness:
  "\<exists>sv sv'. preach demo_start unary_codec boot_cli sv' \<and>
     prun demo_start unary_codec [Publish Background ''e'' [] ''i2'' demo_now None] sv = Some sv' \<and>
     (0, res_msg [6]) \<in> set (held_for 0 sv')"
proof -
  obtain sv0 where sv0: "preach demo_start unary_codec boot_cli sv0" "asking sv0"
    "cb_pending (Callbacks (client (base sv0))) = []" using asking_reached by blast
  let ?sv = "sv0\<lparr>base := receive unary_codec (res_msg [6]) (base sv0), got := got sv0 @ [res_msg [6]]\<rparr>"
  have d: "\<not> down (base sv0)" using sv0(2) by (simp add: asking_def)
  have sv: "preach demo_start unary_codec boot_cli ?sv"
    by (rule preach_step [OF sv0(1) d asking_reads [OF sv0(2)]])
  have p: "cb_pending (Callbacks (client (base ?sv))) = [(0, res_msg [6])]"
    using sv0(2,3) by (simp add: receive_Callbacks Callback_Recv_def asking_def)
  obtain sv1 r where sv1: "preach demo_start unary_codec boot_cli sv1" "callers sv1 = [(callers ?sv ! 0)\<lparr>cPC := PBack r\<rparr>]"
    "\<not> down (base sv1)" "cb_pending (Callbacks (client (base sv1))) = [(0, res_msg [6])]"
    using asking_response [OF sv asking_again [OF sv0(2)], of "[5]"] p by metis
  obtain sv2 where run: "prun demo_start unary_codec [Publish Background ''e'' [] ''i2'' demo_now None] sv1 = Some sv2"
    using sv1(3) by (cases "Client_Pub ''i2'' demo_now (Background :: nat ctx) ''e'' [] (client (base sv1)) (heap (base sv1))") simp
  have "(0, res_msg [6]) \<in> set (held_for 0 sv2)"
    using surplus_response_blocks_for_ever [OF sv1(1) [unfolded demo_start_def] boot_cli boot_cli_calls demo_decodes _ _
        run [unfolded demo_start_def], of 0 r] sv1(2,4) by fastforce
  with prun_preach [OF sv1(1) run] run show ?thesis by blast
qed

end
