(* ===== verification/Client_Replies.thy ===== *)
theory Client_Replies
  imports Client_Publish
begin

text \<open>
  Where replies go (src/metadata/metadata.go: \<open>FromRecv\<close>; src/pub/pub.go: \<open>GetEvent\<close>; src/error.go), in
  the running service of theory \<open>Client_Publish\<close>: contexts share metadata structs that received
  messages, published events and \<open>WithError\<close> write, and an event takes its reply address from the
  struct of its context when a broker sends it, whatever happened to the struct meanwhile.
\<close>

section \<open>Addresses\<close>

text \<open>The reply address of an event on the wire, of a struct, and the one a request asks for.\<close>

definition reply_address :: "Message \<Rightarrow> string \<times> string \<times> string \<times> string \<times> string" where
  "reply_address m = (SubId m, SubPod m, SubModule m, SubBroker m, SubProject m)"

definition md_address :: "MD \<Rightarrow> string \<times> string \<times> string \<times> string \<times> string" where
  "md_address md = (mdSubId md, mdSubPod md, mdSubModule md, mdSubBroker md, mdSubProject md)"

definition requester :: "Message \<Rightarrow> string \<times> string \<times> string \<times> string \<times> string" where
  "requester msg = (Id msg, SubPod msg, SubModule msg, SubBroker msg, SubProject msg)"

text \<open>A struct with routing has it from one of the messages, all five fields from the same.\<close>

definition asked_by :: "Message list \<Rightarrow> MD \<Rightarrow> bool" where
  "asked_by gt md \<longleftrightarrow> (mdSub md \<longrightarrow> (\<exists>msg \<in> set gt. Sub msg \<and> md_address md = requester msg))"

definition heap_ok :: "Message list \<Rightarrow> md_store \<Rightarrow> bool" where
  "heap_ok gt h \<longleftrightarrow> (\<forall>p < fresh h. asked_by gt (cell h p))"

lemma asked_by_upd [simp]:
  "asked_by gt (md\<lparr>mdError := e\<rparr>) = asked_by gt md" "asked_by gt (md\<lparr>mdID := i\<rparr>) = asked_by gt md"
  "asked_by gt empty_MD"
  by (simp_all add: asked_by_def md_address_def empty_MD_def)

lemma asked_by_FromRecv: "asked_by gt md \<Longrightarrow> msg \<in> set gt \<Longrightarrow> asked_by gt (FromRecv_MD msg md)"
  by (auto simp: asked_by_def FromRecv_MD_def md_address_def requester_def Let_def)

lemma heap_ok_mono: "heap_ok gt h \<Longrightarrow> set gt \<subseteq> set gt' \<Longrightarrow> heap_ok gt' h"
  unfolding heap_ok_def asked_by_def by blast

lemma heap_ok_write: "heap_ok gt h \<Longrightarrow> asked_by gt md \<Longrightarrow> heap_ok gt (md_write p md h)"
  by (simp add: heap_ok_def md_write_def)

section \<open>Contexts\<close>

text \<open>What one access to the struct of a context leaves: more structs, and a context with its pointer.\<close>

lemma meta_pointer:
  assumes "MetaFromContext ctx h = (p, g)" and "heap_ok gt h" and "md_allocated ctx h"
  shows "heap_ok gt g" and "asked_by gt (cell g p)" and "fresh h \<le> fresh g" and "p < fresh g"
proof -
  have "p' < fresh h" if "Value ctx metadata_key = Some (VMD p')" for p'
    using assms(3) map_of_SomeD [of ctx metadata_key] that by (auto simp: md_allocated_def Value_def)
  then show "heap_ok gt g" "asked_by gt (cell g p)" "fresh h \<le> fresh g" "p < fresh g"
    using assms(1,2) by (cases rule: MetaFromContext_cases [of ctx h]; auto simp: heap_ok_def less_Suc_eq)+
qed

lemma md_allocated_mono: "md_allocated ctx h \<Longrightarrow> fresh h \<le> fresh g \<Longrightarrow> md_allocated ctx g"
  unfolding md_allocated_def by (meson less_le_trans)

lemma md_allocated_With [simp]:
  "md_allocated (md_WithContext p ctx) h \<longleftrightarrow> p < fresh h \<and> md_allocated ctx h"
  "md_allocated (message_WithContext ctx c) h = md_allocated ctx h"
  by (auto simp: md_allocated_def ctx_defs WithValue_def)

lemma fresh_write [simp]: "fresh (md_write p md h) = fresh h" "md_allocated ctx (md_write p md h) = md_allocated ctx h"
  by (simp_all add: md_write_def md_allocated_def)

lemma meta_asked: "heap_ok gt h \<Longrightarrow> md_allocated ctx h \<Longrightarrow> asked_by gt (meta ctx h)"
  using meta_pointer by (fastforce simp: meta_def split: prod.split)

text \<open>The program's four writers.\<close>

lemma FromRecv_heap:
  assumes "FromRecv ctx msg h = (ctx', h')" and "heap_ok gt h" and "md_allocated ctx h" and "msg \<in> set gt"
  shows "heap_ok gt h' \<and> fresh h \<le> fresh h' \<and> md_allocated ctx' h'"
proof -
  obtain p g where m: "MetaFromContext ctx h = (p, g)" by force
  note mp = meta_pointer [OF m assms(2,3)]
  have "ctx' = md_WithContext p ctx" "h' = md_write p (FromRecv_MD msg (cell g p)) g"
    using assms(1) by (simp_all add: FromRecv_split m)
  then show ?thesis
    using mp heap_ok_write [OF mp(1) asked_by_FromRecv [OF mp(2) assms(4)]] md_allocated_mono [OF assms(3) mp(3)] by simp
qed

lemma WithError_heap:
  assumes "heap_ok gt h" and "md_allocated ctx h"
  shows "heap_ok gt (snd (WithError ctx e h)) \<and> fresh h \<le> fresh (snd (WithError ctx e h))"
proof -
  obtain p g where m: "MetaFromContext ctx h = (p, g)" by force
  note mp = meta_pointer [OF m assms]
  then show ?thesis using heap_ok_write [OF mp(1), of "(cell g p)\<lparr>mdError := e\<rparr>" p] by (simp add: WithError_def m Let_def)
qed

lemma Client_Pub_heap:
  assumes "Client_Pub uuid now ctx name payload c h = (p, h')" and "heap_ok gt h" and "md_allocated ctx h"
  shows "heap_ok gt h' \<and> fresh h \<le> fresh h' \<and> md_allocated (pContext p) h' \<and> pProject p = []"
proof -
  obtain q g where m: "MetaFromContext ctx h = (q, g)" by force
  note mp = meta_pointer [OF m assms(2,3)]
  show ?thesis
    using assms(1) mp heap_ok_write [OF mp(1), of "(cell g q)\<lparr>mdID := uuid\<rparr>" q] md_allocated_mono [OF assms(3) mp(3)]
    by (auto simp: Client_Pub_def m)
qed

lemma handleRecv_heap:
  assumes "handleRecv cd msg h = ((ctx, msg'), h')" and "heap_ok gt h" and "msg \<in> set gt"
  shows "heap_ok gt h' \<and> fresh h \<le> fresh h' \<and> md_allocated ctx h'"
proof -
  obtain c g where f: "FromRecv (Background :: 'a ctx) msg h = (c, g)" by force
  from FromRecv_heap [OF f assms(2) _ assms(3)] assms(1) f show ?thesis
    by (auto simp: handleRecv_def message_FromRecv_def Let_def split: option.splits sum.splits)
qed

lemma Sub_select_heap:
  assumes "Sub_select cd ctx (Received msg) h = (r, h')" and "heap_ok gt h" and "md_allocated ctx h" and "msg \<in> set gt"
  shows "heap_ok gt h' \<and> fresh h \<le> fresh h' \<and> (\<forall>c. rContext r = Some c \<longrightarrow> md_allocated c h')"
proof -
  obtain c g where f: "FromRecv ctx msg h = (c, g)" by force
  from FromRecv_heap [OF f assms(2-4)] assms(1) f show ?thesis
    by (auto simp: Sub_select_def Let_def split: if_splits option.splits sum.splits)
qed

section \<open>What a step of the service does to the structs\<close>

text \<open>The contexts that the service has handed out: to handlers, and with the results of calls.\<close>

definition result_contexts :: "'c pub_call list \<Rightarrow> 'c ctx set" where
  "result_contexts cs = {ctx. \<exists>cl \<in> set cs. \<exists>r. cPC cl \<in> {PUnregister r, PBack r} \<and> rContext r = Some ctx}"

definition handed_out :: "'c service \<Rightarrow> 'c ctx set" where
  "handed_out sv = {ctx. \<exists>fn x. (fn, ctx, x) \<in> set (handled (base sv))} \<union> result_contexts (callers sv)"

text \<open>What an event on the wire must look like, from the events published and the messages received.\<close>

definition authentic :: "Message list \<Rightarrow> 'c Pub list \<Rightarrow> Message \<Rightarrow> bool" where
  "authentic gt ps m \<longleftrightarrow>
     (\<exists>p \<in> set ps. Id m = pID p \<and> Name m = pName p \<and> Payload m = pPayload p) \<and> Project m = [] \<and> Error m = [] \<and>
     (reply_address m = ([], [], [], [], []) \<or>
      Sub m \<and> (\<exists>msg \<in> set gt. Sub msg \<and> reply_address m = requester msg))"

definition replies_inv :: "'c service \<Rightarrow> bool" where
  "replies_inv sv \<longleftrightarrow>
     heap_ok (got sv) (heap (base sv)) \<and>
     (\<forall>p \<in> set (map cPub (callers sv)). md_allocated (pContext p) (heap (base sv)) \<and> pProject p = []) \<and>
     (\<forall>ctx \<in> handed_out sv. md_allocated ctx (heap (base sv))) \<and>
     (\<forall>(b, strm, m) \<in> set (sent sv). authentic (got sv) (map cPub (callers sv)) m)"

lemma authentic_GetEvent:
  assumes "GetEvent cd p h = Inr m" and "heap_ok gt h" and "md_allocated (pContext p) h" and "pProject p = []" and "p \<in> set ps"
  shows "authentic gt ps m"
proof -
  have "asked_by gt (meta (pContext p) h)" by (rule meta_asked [OF assms(2,3)])
  then show ?thesis
    using GetEvent_Inr [OF assms(1)] GetEvent_routing [OF assms(1)] assms(4,5)
    by (auto simp: authentic_def reply_address_def asked_by_def md_address_def reply_routed_def Let_def)
qed

lemma authentic_mono: "authentic gt ps m \<Longrightarrow> set gt \<subseteq> set gt' \<Longrightarrow> set ps \<subseteq> set ps' \<Longrightarrow> authentic gt' ps' m"
  unfolding authentic_def by blast

text \<open>
  A step keeps the invariant if it keeps the structs in order, allocates no less, and accounts for
  new events, contexts and messages.
\<close>

lemma replies_invI:
  assumes inv: "replies_inv sv" and "heap_ok (got sv') (heap (base sv'))"
    and f: "fresh (heap (base sv)) \<le> fresh (heap (base sv'))"
    and p: "\<And>p. p \<in> set (map cPub (callers sv')) \<Longrightarrow> p \<in> set (map cPub (callers sv)) \<or>
      md_allocated (pContext p) (heap (base sv')) \<and> pProject p = []"
    and "set (map cPub (callers sv)) \<subseteq> set (map cPub (callers sv'))" and "set (got sv) \<subseteq> set (got sv')"
    and c: "\<And>ctx. ctx \<in> handed_out sv' \<Longrightarrow> ctx \<in> handed_out sv \<or> md_allocated ctx (heap (base sv'))"
    and m: "\<And>b strm m. (b, strm, m) \<in> set (sent sv') \<Longrightarrow> (b, strm, m) \<in> set (sent sv) \<or>
      authentic (got sv') (map cPub (callers sv')) m"
  shows "replies_inv sv'"
proof -
  have "md_allocated (pContext p) (heap (base sv')) \<and> pProject p = []" if "p \<in> set (map cPub (callers sv'))" for p
    using p [OF that] inv md_allocated_mono [OF _ f] unfolding replies_inv_def by blast
  moreover have "md_allocated ctx (heap (base sv'))" if "ctx \<in> handed_out sv'" for ctx
    using c [OF that] inv md_allocated_mono [OF _ f] unfolding replies_inv_def by blast
  moreover have "authentic (got sv') (map cPub (callers sv')) m" if "(b, strm, m) \<in> set (sent sv')" for b strm m
    using m [OF that] inv authentic_mono [OF _ assms(6,5)] unfolding replies_inv_def by blast
  ultimately show ?thesis using assms(2) unfolding replies_inv_def by blast
qed

text \<open>The rest of the system: read loops wrap what they receive, nothing else touches a struct.\<close>

lemma label_heap:
  "\<nexists>m. l = LRecv m \<Longrightarrow> heap (sys_label cd w l s) = heap s \<and> handled (sys_label cd w l s) = handled s"
  by (cases l) (simp_all add: sys_label_def call_back_def Let_def)

lemma labels_heap:
  "(\<And>m. LRecv m \<notin> set ls) \<Longrightarrow> heap (sys_labels cd w ls s) = heap s \<and> handled (sys_labels cd w ls s) = handled s"
proof (induction ls arbitrary: s)
  case (Cons l ls)
  have "l \<noteq> LRecv m" "LRecv m \<notin> set ls" for m using Cons.prems [of m] by auto
  then show ?case by (simp add: Cons.IH label_heap)
qed simp

lemma exec_heap:
  assumes step: "sys_exec start cd ev s = Some s'"
  shows "received ev = [] \<and> heap s' = heap s \<and> handled s' = handled s \<or>
    (\<exists>msg t. received ev = [msg] \<and> heap t = heap s \<and> handled t = handled s \<and>
       heap s' = heap (receive cd msg t) \<and> handled s' = handled (receive cd msg t))"
proof (cases ev)
  case (SBroker p e)
  with step obtain ls y where ex: "bexec e (view s p) = Some (ls, y)"
    and s': "s' = sys_labels cd (event_caller p e) ls (put_view p y s)"
    by (auto simp: sys_broker_def split: if_splits option.splits)
  have put: "heap (put_view p y s) = heap s" "handled (put_view p y s) = handled s" by (simp_all add: put_view_def)
  show ?thesis
  proof (cases "\<exists>k msg. e = EvMessage k msg")
    case True
    then obtain k msg where e: "e = EvMessage k msg" by blast
    with ex have "ls = [LRecv msg]" by (auto split: if_splits)
    with s' e put SBroker show ?thesis
      by (intro disjI2 exI [of _ msg] exI [of _ "put_view p y s"]) (simp add: sys_label_def received_def)
  next
    case False
    with bexec_recv [OF ex False] s' put SBroker show ?thesis
      by (auto simp: labels_heap received_def split: bevent.splits)
  qed
qed (use step in \<open>auto simp: received_def sys_client_def sys_ask_def sub_call_def elim!: sub_move_client
  split: if_splits option.splits\<close>)

lemma receive_handed:
  assumes "heap_ok gt (heap s)" and "msg \<in> set gt"
  shows "heap_ok gt (heap (receive cd msg s)) \<and> fresh (heap s) \<le> fresh (heap (receive cd msg s)) \<and>
    (\<forall>fn ctx x. (fn, ctx, x) \<in> set (handled (receive cd msg s)) \<longrightarrow>
       (fn, ctx, x) \<in> set (handled s) \<or> md_allocated ctx (heap (receive cd msg s)))"
proof -
  obtain ctx msg' h where hr: "handleRecv cd msg (heap s) = ((ctx, msg'), h)" by (metis prod.collapse)
  show ?thesis
    using handleRecv_heap [OF hr assms] by (auto simp: receive_def hr Client_recv_def Store_Recv_routes)
qed

section \<open>The invariant\<close>

lemma result_contexts_upd:
  assumes "ctx \<in> result_contexts (cs[j := cl])"
  shows "ctx \<in> result_contexts cs \<or> (\<exists>r. cPC cl \<in> {PUnregister r, PBack r} \<and> rContext r = Some ctx)"
  using assms set_update_subset_insert [of cs j cl] unfolding result_contexts_def by blast

lemma replies_inv_base:
  assumes inv: "replies_inv sv" and step: "pub_exec start cd (PBase ev) sv = Some sv'"
  shows "replies_inv sv'"
proof -
  from step obtain s where s: "sys_exec start cd ev (base sv) = Some s"
    and sv': "sv' = sv\<lparr>base := s, got := got sv @ received ev\<rparr>" by (auto split: if_splits option.splits)
  from exec_heap [OF s] show ?thesis
  proof (elim disjE exE conjE)
    assume "received ev = []" "heap s = heap (base sv)" "handled s = handled (base sv)"
    then show ?thesis using inv by (simp add: sv' replies_inv_def handed_out_def)
  next
    fix msg t
    assume r: "received ev = [msg]" and t: "heap t = heap (base sv)" "handled t = handled (base sv)"
      and h: "heap s = heap (receive cd msg t)" "handled s = handled (receive cd msg t)"
    have "heap_ok (got sv @ [msg]) (heap t)"
      using inv heap_ok_mono [of "got sv" _ "got sv @ [msg]"] by (auto simp: replies_inv_def t)
    note rh = receive_handed [OF this, of msg cd, folded h, unfolded t]
    show ?thesis
    proof (rule replies_invI [OF inv])
      show "ctx \<in> handed_out sv \<or> md_allocated ctx (heap (base sv'))" if "ctx \<in> handed_out sv'" for ctx
        using that rh unfolding handed_out_def by (simp add: sv' r) blast
    qed (use rh in \<open>auto simp: sv' r\<close>)
  qed
qed

lemma replies_inv_publish:
  assumes inv: "replies_inv sv" and step: "pub_exec start cd (Publish ctx name payload uuid now event) sv = Some sv'"
  shows "replies_inv sv'"
proof -
  let ?h = "heap (base sv)"
  obtain p h where pub: "Client_Pub uuid now ctx name payload (client (base sv)) ?h = (p, h)" by force
  with step have ctx: "md_allocated ctx ?h" and sv': "\<exists>cl. sv' = sv\<lparr>base := (base sv)\<lparr>heap := h\<rparr>, callers := callers sv @ [cl]\<rparr> \<and>
      pContext (cPub cl) = pContext p \<and> pProject (cPub cl) = pProject p \<and> cPC cl \<in> {PNext, PRegister}"
    by (auto simp: Let_def split: if_splits option.splits)
  have "heap_ok (got sv) ?h" using inv by (simp add: replies_inv_def)
  note ph = Client_Pub_heap [OF pub this ctx]
  from sv' show ?thesis
    by (elim exE conjE, intro replies_invI [OF inv]) (use ph in \<open>auto simp: handed_out_def result_contexts_def\<close>)
qed

lemma at_call_put:
  "put_call j ((callers sv ! j)\<lparr>cPC := pc\<rparr>) c sv = at_call j sv pc c (sent sv @ [])"
  "put_call j ((callers sv ! j)\<lparr>cPC := pc\<rparr>) c (sv\<lparr>sent := w\<rparr>) = at_call j sv pc c w"
  "put_call j (leave r (callers sv ! j)) c sv = at_call j sv (cPC (leave r (callers sv ! j))) c (sent sv @ [])"
  by (cases sv; simp add: at_call_def put_call_def leave_def)+

text \<open>
  A call moves on: it may have put its event on the wire, and it gets no result with a context.
\<close>

definition moved :: "'c codec \<Rightarrow> nat \<Rightarrow> 'c service \<Rightarrow> 'c service \<Rightarrow> bool" where
  "moved cd j sv sv' \<longleftrightarrow>
     (\<exists>pc c w b. sv' = at_call j sv pc c (sent sv @ w) \<and>
       (w = [] \<or> w = on_wire cd (cPub (callers sv ! j)) (heap (base sv)) b (clMem (client (base sv)) b)) \<and>
       (\<forall>r. pc \<in> {PUnregister r, PBack r} \<longrightarrow> rContext r = None \<or> cPC (callers sv ! j) = PUnregister r))"

lemma movedI:
  assumes "\<forall>r. pc \<in> {PUnregister r, PBack r} \<longrightarrow> rContext r = None \<or> cPC (callers sv ! j) = PUnregister r"
  shows "moved cd j sv (at_call j sv pc c (sent sv))"
    and "moved cd j sv (at_call j sv pc c (sent sv @
      on_wire cd (cPub (callers sv ! j)) (heap (base sv)) b (clMem (client (base sv)) b)))"
  using assms unfolding moved_def by (metis append_Nil2, metis)

lemma call_step_moved:
  assumes "call_step cd strm j sv = Some sv'"
  shows "sv' = sv\<lparr>base := (base sv)\<lparr>down := True\<rparr>\<rparr> \<or> moved cd j sv sv'"
  using assms
  by (cases "cPC (callers sv ! j)")
    (auto simp: call_step_def Let_def at_call_put leave_def failed_def passed_def
      split: if_splits option.splits sum.splits prod.splits outcome.splits intro!: movedI)

lemma result_contexts_move:
  assumes "j < length cs" and "\<forall>r. pc \<in> {PUnregister r, PBack r} \<longrightarrow> rContext r = None \<or> cPC (cs ! j) = PUnregister r"
  shows "result_contexts (cs[j := (cs ! j)\<lparr>cPC := pc\<rparr>]) \<subseteq> result_contexts cs"
proof
  fix ctx
  assume "ctx \<in> result_contexts (cs[j := (cs ! j)\<lparr>cPC := pc\<rparr>])"
  then consider "ctx \<in> result_contexts cs" | r where "pc \<in> {PUnregister r, PBack r}" "rContext r = Some ctx"
    using result_contexts_upd by fastforce
  then show "ctx \<in> result_contexts cs"
  proof cases
    case 2
    then have "cPC (cs ! j) = PUnregister r" using assms(2) by auto
    then show ?thesis using 2(2) nth_mem [OF assms(1)] unfolding result_contexts_def by blast
  qed
qed

lemma map_cPub_move: "j < length cs \<Longrightarrow> map cPub (cs[j := (cs ! j)\<lparr>cPC := pc\<rparr>]) = map cPub cs"
  by (simp add: map_update list_update_same_conv)

lemma on_wireD: "(b', strm, m) \<in> set (on_wire cd p h b bk) \<Longrightarrow> GetEvent cd p h = Inr m"
  by (auto simp: on_wire_def split: sum.splits option.splits)

lemma replies_inv_move:
  assumes inv: "replies_inv sv" and step: "call_step cd strm j sv = Some sv'" and j: "j < length (callers sv)"
  shows "replies_inv sv'"
proof (cases "moved cd j sv sv'")
  case False
  then have "sv' = sv\<lparr>base := (base sv)\<lparr>down := True\<rparr>\<rparr>" using call_step_moved [OF step] by blast
  then show ?thesis using inv by (simp add: replies_inv_def handed_out_def)
next
  case True
  let ?p = "cPub (callers sv ! j)"
  obtain pc c w b where sv': "sv' = at_call j sv pc c (sent sv @ w)"
    and w: "w = [] \<or> w = on_wire cd ?p (heap (base sv)) b (clMem (client (base sv)) b)"
    and pc: "\<forall>r. pc \<in> {PUnregister r, PBack r} \<longrightarrow> rContext r = None \<or> cPC (callers sv ! j) = PUnregister r"
    using True unfolding moved_def by blast
  have ps: "map cPub (callers sv') = map cPub (callers sv)" by (simp add: sv' at_call_def put_call_def map_cPub_move [OF j])
  have rs: "result_contexts (callers sv') \<subseteq> result_contexts (callers sv)"
    using result_contexts_move [OF j pc] by (simp add: sv' at_call_def put_call_def)
  have same: "heap (base sv') = heap (base sv)" "handled (base sv') = handled (base sv)" "got sv' = got sv"
    "sent sv' = sent sv @ w" by (simp_all add: sv' at_call_def put_call_def)
  have hp: "heap_ok (got sv) (heap (base sv))" "md_allocated (pContext ?p) (heap (base sv))" "pProject ?p = []"
    using inv j by (simp_all add: replies_inv_def)
  have "authentic (got sv) (map cPub (callers sv)) m" if "(b', strm', m) \<in> set w" for b' strm' m
  proof (rule authentic_GetEvent [OF _ hp])
    show "GetEvent cd ?p (heap (base sv)) = Inr m" using w that by (auto dest: on_wireD)
    show "?p \<in> set (map cPub (callers sv))" using j by simp
  qed
  then show ?thesis
    using rs hp(1) by (intro replies_invI [OF inv]) (auto simp: ps same handed_out_def simp del: set_map list.set_map)
qed

lemma replies_inv_select:
  assumes inv: "replies_inv sv" and j: "j < length (callers sv)"
    and out: "\<And>msg. out = Received msg \<Longrightarrow> msg \<in> set (got sv)"
  shows "replies_inv (selected cd out j c sv)"
proof -
  let ?cl = "callers sv ! j" and ?h = "heap (base sv)"
  obtain r h where r: "Sub_select cd (pContext (cPub ?cl)) out ?h = (r, h)" by force
  have h: "heap_ok (got sv) ?h" and p: "md_allocated (pContext (cPub ?cl)) ?h"
    using inv j by (simp_all add: replies_inv_def)
  have "heap_ok (got sv) h \<and> fresh ?h \<le> fresh h \<and> (\<forall>c. rContext r = Some c \<longrightarrow> md_allocated c h)"
  proof (cases out)
    case (Received msg)
    from Sub_select_heap [OF r [unfolded Received] h p out [OF Received]] show ?thesis .
  next
    case (Cancelled e)
    with r h show ?thesis by (auto simp: Sub_select_def)
  qed
  moreover have "map cPub ((callers sv)[j := ?cl\<lparr>cPC := PUnregister r\<rparr>]) = map cPub (callers sv)"
    using j by (simp add: map_update list_update_same_conv)
  then have "cPub ` set ((callers sv)[j := ?cl\<lparr>cPC := PUnregister r\<rparr>]) = cPub ` set (callers sv)"
    by (metis set_map)
  ultimately show ?thesis
    by (intro replies_invI [OF inv]) (auto simp: selected_def r handed_out_def dest!: result_contexts_upd)
qed

lemma replies_inv_exec:
  assumes inv: "replies_inv sv" and svc: "svc_inv sv" and step: "pub_exec start cd ev sv = Some sv'"
  shows "replies_inv sv'"
proof (cases ev)
  case (PBase e)
  with step replies_inv_base [OF inv] show ?thesis by blast
next
  case (Publish ctx name payload uuid now event)
  with step replies_inv_publish [OF inv] show ?thesis by blast
next
  case (Move j strm)
  with step replies_inv_move [OF inv] show ?thesis by (auto split: if_splits)
next
  case (Meet i j)
  let ?ps = "cb_pending (Callbacks (client (base sv)))"
  from Meet step have i: "j < length (callers sv)" "i < length ?ps"
    and sv': "sv' = selected cd (Received (snd (?ps ! i))) j (take_pending i (client (base sv))) sv"
    by (auto simp: Let_def split: if_splits)
  have "calls_inv (Callbacks (client (base sv))) (callers sv) (sent sv) (got sv)" using svc by (simp add: svc_inv_def)
  from calls_invD(2) [OF this, of "fst (?ps ! i)"] nth_mem [OF i(2)] have "snd (?ps ! i) \<in> set (got sv)" by fastforce
  then show ?thesis unfolding sv' by (intro replies_inv_select [OF inv i(1)]) simp
next
  case (CtxDone j e)
  with step show ?thesis by (auto intro!: replies_inv_select [OF inv] split: if_splits)
next
  case (SetError ctx e)
  with step have "md_allocated ctx (heap (base sv))"
    and sv': "sv' = sv\<lparr>base := (base sv)\<lparr>heap := snd (WithError ctx e (heap (base sv)))\<rparr>\<rparr>" by (auto split: if_splits)
  with WithError_heap [of "got sv" "heap (base sv)" ctx e] inv show ?thesis
    by (intro replies_invI [OF inv]) (auto simp: sv' handed_out_def replies_inv_def)
qed

lemma preach_replies:
  "preach start cd c0 sv \<Longrightarrow> unbooted c0 \<Longrightarrow> Callbacks c0 = Callback_New \<Longrightarrow> sound_start start \<Longrightarrow> replies_inv sv"
proof (induction rule: preach.induct)
  case preach_init
  then show ?case
    by (simp add: replies_inv_def pub_init_def sys_init_def heap_ok_def empty_store_def handed_out_def result_contexts_def)
next
  case (preach_step sv ev sv')
  then show ?case using replies_inv_exec [OF _ preach_inv] by blast
qed

text \<open>Every context that the service hands out can be published in.\<close>

lemma handed_out_usable:
  assumes "preach start cd c0 sv" and "unbooted c0" and "Callbacks c0 = Callback_New" and "sound_start start"
    and "ctx \<in> handed_out sv"
  shows "\<exists>sv'. pub_exec start cd (Publish ctx name payload uuid now event) sv = Some sv'"
proof -
  have "md_allocated ctx (heap (base sv))" using preach_replies [OF assms(1-4)] assms(5) by (simp add: replies_inv_def)
  then show ?thesis by (simp add: Let_def split: prod.split)
qed

section \<open>A handler replies\<close>

definition request_q :: Message where
  "request_q = zero_message\<lparr>Id := ''q1'', Name := ''e'', Sub := True, SubPod := ''pod2'', SubModule := ''m2'',
     SubBroker := ''b2'', SubProject := ''root''\<rparr>"

lemma receive_client: "client (receive cd msg s) = (client s)\<lparr>Callbacks := Callback_Recv msg (Callbacks (client s))\<rparr>"
proof -
  obtain ctx msg' h where hr: "handleRecv cd msg (heap s) = ((ctx, msg'), h)" by (metis prod.collapse)
  then show ?thesis using handleRecv_meta [OF hr] by (simp add: receive_def Client_recv_def)
qed

lemma receive_rest [simp]: "threads (receive cd msg s) = threads s" "lock_held (receive cd msg s) = lock_held s"
proof -
  show t: "threads (receive cd msg s) = threads s" by (simp add: receive_def split: prod.split)
  have c: "callee (receive cd msg s) = callee s" by (simp add: receive_def split: prod.split)
  show "lock_held (receive cd msg s) = lock_held s" by (rule ext) (unfold lock_held_def t c receive_frame, rule refl)
qed

text \<open>A handler is subscribed and called with a request.\<close>

lemma subscribe_e:
  assumes "serving s"
  shows "srun start cd [SSub ''e'' 7 ''i'', SSubStep 0, SSubStep 0, SSubStep 0] s =
    Some (s\<lparr>client := (client s)\<lparr>SubsStore := snd (Store_Register ''e'' 7 ''i'' Store_New)\<rparr>, subs := [(''e'', Halt)]\<rparr>)"
  using assms by (simp add: serving_def sub_call_def sub_move_def store_ops Store_New_def)

lemma handler_called:
  "\<exists>sv ctx. preach demo_start unary_codec boot_cli sv \<and> \<not> down (base sv) \<and> callers sv = [] \<and> sent sv = [] \<and>
     (7, ctx, []) \<in> set (handled (base sv)) \<and> meta ctx (heap (base sv)) = FromRecv_MD request_q empty_MD \<and>
     onlineBrokers (client (base sv)) = [0] \<and> online (client (base sv)) \<and> currentSend (client (base sv)) = 0 \<and>
     connected (clMem (client (base sv)) 0) \<and> stream (clMem (client (base sv)) 0) = Some 0 \<and>
     can_read (threads (base sv)) \<and> (\<forall>b. \<not> lock_held (base sv) b)"
proof -
  obtain s where s: "prun demo_start unary_codec (map PBase (boot @ up_a)) (pub_init boot_cli) =
      Some \<lparr>base = s, callers = [], sent = [], got = []\<rparr>" "serving s"
    using service_up by blast
  let ?t = "s\<lparr>client := (client s)\<lparr>SubsStore := snd (Store_Register ''e'' 7 ''i'' Store_New)\<rparr>, subs := [(''e'', Halt)]\<rparr>"
  let ?sv = "\<lparr>base = ?t, callers = [], sent = [], got = []\<rparr>"
  obtain ctx msg' h where hr: "handleRecv unary_codec request_q (heap s) = ((ctx, msg'), h)" by (metis prod.collapse)
  have d: "\<not> down s" "\<not> down ?t" using s(2) by (simp_all add: serving_def)
  have "prun demo_start unary_codec (map PBase [SSub ''e'' 7 ''i'', SSubStep 0, SSubStep 0, SSubStep 0])
      \<lparr>base = s, callers = [], sent = [], got = []\<rparr> = Some ?sv"
    by (subst prun_base [of _ _ _ _ ?t])
      (use subscribe_e [OF s(2), of demo_start unary_codec] in \<open>simp_all add: registry_event_def received_def del: srun.simps\<close>)
  then have sv: "preach demo_start unary_codec boot_cli ?sv"
    by (rule prun_preach [OF prun_preach [OF preach_init s(1)]])
  let ?r = "receive unary_codec request_q ?t"
  have "pub_exec demo_start unary_codec (PBase (SBroker 0 (EvMessage 0 request_q))) ?sv =
      Some (?sv\<lparr>base := receive unary_codec request_q (base ?sv), got := got ?sv @ [request_q]\<rparr>)"
    by (rule reads)
      (use s(2) in \<open>simp_all add: serving_def free_def ended_def request_q_def cong: option.case_cong\<close>)
  then have "preach demo_start unary_codec boot_cli
      (?sv\<lparr>base := receive unary_codec request_q (base ?sv), got := got ?sv @ [request_q]\<rparr>)"
    by (rule preach_step [OF sv, rotated]) (use d(2) in simp)
  then have "preach demo_start unary_codec boot_cli \<lparr>base = ?r, callers = [], sent = [], got = [request_q]\<rparr>" by simp
  moreover have "handled ?r = [(7, ctx, [])]" "heap ?r = h"
    using s(2) hr handleRecv_meta [OF hr] router.table_register [OF store_inv_New, of "''e''" 7 "''i''"]
    by (simp_all add: receive_def Client_recv_def Store_Recv_routes serving_def request_q_def
        routes_New zero_message_def)
  moreover have "client ?r = (client ?t)\<lparr>Callbacks := Callback_Recv request_q (Callbacks (client s))\<rparr>"
    by (simp add: receive_client)
  moreover have "lock_held ?t b = lock_held s b" for b by (simp add: lock_held_def cong: option.case_cong)
  ultimately show ?thesis
    using s(2) handleRecv_meta [OF hr] d(2)
    by (intro exI [of _ "\<lparr>base = ?r, callers = [], sent = [], got = [request_q]\<rparr>"] exI [of _ ctx])
      (simp add: serving_def)
qed

section \<open>Properties\<close>

text \<open>
  C11. Nothing goes out that was not published, and no reply to where nobody asked: in every reachable
  state an event that a stream took has the identifier, name and payload of a call, no project and no
  error, and either no reply address at all, or the identifier, pod, module, broker and project of one
  and the same request that a connection received, however handlers, nested requests and \<open>WithError\<close> wrote
  to the metadata that contexts share.
\<close>

theorem replies_go_to_requesters:
  assumes "preach (start_in url_parse enc dec hostname envs uuid) cd c0 sv"
    and "unbooted c0" and "Callbacks c0 = Callback_New" and "decodes_fresh dec"
    and "(b, strm, m) \<in> set (sent sv)"
  shows "(\<exists>cl \<in> set (callers sv). Id m = pID (cPub cl) \<and> Name m = pName (cPub cl) \<and> Payload m = pPayload (cPub cl)) \<and>
    Project m = [] \<and> Error m = [] \<and>
    ((SubId m, SubPod m, SubModule m, SubBroker m, SubProject m) = ([], [], [], [], []) \<or>
     Sub m \<and> (\<exists>req \<in> set (got sv). Sub req \<and>
       (SubId m, SubPod m, SubModule m, SubBroker m, SubProject m) =
       (Id req, SubPod req, SubModule req, SubBroker req, SubProject req)))"
proof -
  have "authentic (got sv) (map cPub (callers sv)) m"
    using preach_replies [OF assms(1-3) Start_sound [OF assms(4)]] assms(5) by (auto simp: replies_inv_def)
  then show ?thesis by (auto simp: authentic_def reply_address_def requester_def)
qed

theorem replies_go_to_requesters_witness:
  "\<exists>sv b strm m. preach demo_start unary_codec boot_cli sv \<and> (b, strm, m) \<in> set (sent sv) \<and> SubId m = ''q1'' \<and>
     (\<exists>req \<in> set (got sv). Id req = ''q1'' \<and> SubPod req = ''pod2'')"
proof -
  obtain sv ctx where sv: "preach demo_start unary_codec boot_cli sv" "\<not> down (base sv)" "callers sv = []" "sent sv = []"
    "(7, ctx, []) \<in> set (handled (base sv))" "meta ctx (heap (base sv)) = FromRecv_MD request_q empty_MD"
    "onlineBrokers (client (base sv)) = [0]" "online (client (base sv))" "currentSend (client (base sv)) = 0"
    "connected (clMem (client (base sv)) 0)" "stream (clMem (client (base sv)) 0) = Some 0"
    "can_read (threads (base sv))" "\<forall>b. \<not> lock_held (base sv) b"
    using handler_called by blast
  let ?c = "client (base sv)" and ?ok = "Move 0 (\<lambda>strm msg. None)"
  let ?evs = "[Publish ctx ''r'' [9] ''i2'' demo_now None, ?ok, ?ok]"
  obtain p h where p: "Client_Pub ''i2'' demo_now ctx ''r'' [9] ?c (heap (base sv)) = (p, h)" by force
  obtain m where m: "GetEvent unary_codec p h = Inr m" using GetEvent_unary by blast
  have "md_allocated ctx (heap (base sv))"
    using preach_replies [OF sv(1) boot_cli boot_cli_calls demo_sound] sv(5)
    by (auto simp: replies_inv_def handed_out_def)
  moreover have "listed ?c" using sv(7,8) by (simp add: listed_def)
  then have n: "nextBroker ?c = (Inr 0, ?c\<lparr>currentSend := 1\<rparr>)" using sv(7,9) by (simp add: nextBroker_listed)
  moreover have "Broker_Send unary_codec (\<lambda>strm msg. None) p h (clMem ?c 0) = Returns None"
    using m sv(10,11) by (simp add: Broker_Send_def)
  ultimately obtain sv' where run: "prun demo_start unary_codec ?evs sv = Some sv'" and snt: "sent sv' = [(0, 0, m)]"
    using p m sv(2-4,11-13) by (simp add: call_step_def put_call_def Let_def on_wire_def)
  have r: "preach demo_start unary_codec boot_cli sv'" by (rule prun_preach [OF sv(1) run])
  have "reply_routed (meta (pContext p) h)" "mdSubId (meta (pContext p) h) = ''q1''" "mdSubPod (meta (pContext p) h) = ''pod2''"
    using Client_Pub_fields(7) [OF p] sv(6) by (simp_all add: FromRecv_MD_def request_q_def reply_routed_def Let_def)
  then have a: "SubId m = ''q1''" "SubPod m = ''pod2''" using GetEvent_routing [OF m] by (simp_all add: Let_def)
  have "(0, 0, m) \<in> set (sent sv')" by (simp add: snt)
  moreover from replies_go_to_requesters [OF r [unfolded demo_start_def] boot_cli boot_cli_calls demo_decodes this] a
  have "\<exists>req \<in> set (got sv'). Id req = ''q1'' \<and> SubPod req = ''pod2''" by force
  ultimately show ?thesis using r a by blast
qed

end
