(* ===== verification/Broker_Shutdown.thy ===== *)
theory Broker_Shutdown
  imports Broker_Lifecycle
begin

text \<open>
  What \<open>Broker.Done\<close> achieves (src/broker/broker.go): with the newest context cancelled, the
  goroutines of all sessions run to their end, unless a retry timer has already fired.
\<close>

section \<open>Waiting goroutines wait for something that exists\<close>

text \<open>
  A nested \<open>Start\<close> call is a later session, and the context of a sleep is that of some session.
\<close>

definition main_target :: "nat \<Rightarrow> nat \<Rightarrow> main_pc \<Rightarrow> bool" where
  "main_target k n m = (case m of MNested j \<Rightarrow> k < j \<and> j < n | MBackoff c \<Rightarrow> c < n | _ \<Rightarrow> True)"

definition reader_target :: "nat \<Rightarrow> nat \<Rightarrow> reader_pc \<Rightarrow> bool" where
  "reader_target k n r = (case r of RNested j \<Rightarrow> k < j \<and> j < n | RBackoff c \<Rightarrow> c < n | _ \<Rightarrow> True)"

definition targets_ok :: "bsys \<Rightarrow> bool" where
  "targets_ok y \<longleftrightarrow> (\<forall>k < length (sess y).
    main_target k (length (sess y)) (s_main (sess y ! k)) \<and>
    reader_target k (length (sess y)) (s_reader (sess y ! k)))"

lemma target_mono:
  "main_target k n m \<Longrightarrow> n \<le> n' \<Longrightarrow> main_target k n' m"
  "reader_target k n r \<Longrightarrow> n \<le> n' \<Longrightarrow> reader_target k n' r"
  by (auto simp: main_target_def reader_target_def split: main_pc.splits reader_pc.splits)

lemma target_simps [simp]:
  "main_target k n MDial" "main_target k n MWait" "main_target k n MEnd"
  "main_target k n (MNested j) \<longleftrightarrow> k < j \<and> j < n" "main_target k n (MBackoff c) \<longleftrightarrow> c < n"
  "reader_target k n RNone" "reader_target k n RReading" "reader_target k n REnd"
  "reader_target k n (RNested j) \<longleftrightarrow> k < j \<and> j < n" "reader_target k n (RBackoff c) \<longleftrightarrow> c < n"
  by (simp_all add: main_target_def reader_target_def)

lemma nth_update: "j < length xs \<Longrightarrow> xs[k := x] ! j = (if k = j then x else xs ! j)"
  by (cases "k = j") simp_all

lemma targets_set:
  "targets_ok y \<Longrightarrow> main_target k (length (sess y)) m \<Longrightarrow> targets_ok (set_main k m y)"
  "targets_ok y \<Longrightarrow> reader_target k (length (sess y)) r \<Longrightarrow> targets_ok (set_reader k r y)"
  unfolding targets_ok_def set_main_def set_reader_def
  by (auto simp: nth_update)

lemma targets_brk [simp]: "targets_ok (y\<lparr>brk := b\<rparr>) = targets_ok y" "targets_ok (y\<lparr>crashed := x\<rparr>) = targets_ok y"
  by (simp_all add: targets_ok_def)

lemma targets_begin: "targets_ok y \<Longrightarrow> targets_ok (begin_session y)"
  by (auto simp: targets_ok_def begin_session_def nth_append less_Suc_eq target_mono)

lemma targets_end: "targets_ok y \<Longrightarrow> targets_ok (end_reader k y)"
  by (simp add: end_reader_def targets_set)

lemma length_simps [simp]:
  "length (sess (set_main k m y)) = length (sess y)" "length (sess (set_reader k r y)) = length (sess y)"
  "length (sess (end_reader k y)) = length (sess y)"
  "length (sess (begin_session y)) = Suc (length (sess y))"
  by (simp_all add: set_main_def set_reader_def end_reader_def begin_session_def)

text \<open>The context a retry waits on is the newest session's.\<close>

lemma restart_ctx:
  "brk_inv n b \<Longrightarrow> restart over b = (b', WaitFor d c) \<Longrightarrow> c < n \<and> c \<notin> bCancelled b"
  by (auto simp: restart_def restart_tail_def brk_inv_def Let_def split: if_splits option.splits)

lemma handleError_ctx:
  "brk_inv n b \<Longrightarrow> handleError e over b = (b', Some (WaitFor d c)) \<Longrightarrow> c < n \<and> c \<notin> bCancelled b"
  by (auto simp: handleError_def split: code.splits prod.splits dest: restart_ctx)

lemma bexec_targets:
  assumes "bsys_inv y" and "targets_ok y" and "bexec ev y = Some (ls, y')"
  shows "targets_ok y'"
proof -
  have b: "brk_inv (length (sess y)) (brk y)" using assms(1) by (simp add: bsys_inv_def)
  show ?thesis
    using assms(2,3)
    by (cases ev)
      (auto simp: targets_set targets_end targets_begin Let_def
        split: if_splits prod.splits restart_result.splits option.splits main_pc.splits reader_pc.splits outcome.splits
        intro!: targets_set targets_end targets_begin dest: restart_ctx [OF b] handleError_ctx [OF b])
qed

lemma breach_targets: "breach b0 y \<Longrightarrow> unstarted b0 \<Longrightarrow> targets_ok y"
proof (induction rule: breach.induct)
  case breach_init
  then show ?case by (simp add: targets_ok_def bsys_init_def)
next
  case (breach_step y ev ls y')
  then show ?case using bexec_targets [OF breach_inv] by blast
qed

section \<open>Draining\<close>

text \<open>
  The moves of the connection's own goroutines: a dial or a stream that opens or fails, a receive that
  fails, a cancelled sleep that ends, a nested call that has returned, the end of a context that is
  noticed. Timers, messages of the server and further calls of \<open>Done\<close> are not among them.
\<close>

definition draining :: "bevent \<Rightarrow> bool" where
  "draining ev \<longleftrightarrow> (case ev of
     EvDialFailed k \<Rightarrow> True | EvChannelFailed k over \<Rightarrow> True | EvChannelOpen k \<Rightarrow> True
   | EvRecvError k c over \<Rightarrow> True | EvSleepCancelled k \<Rightarrow> True | EvReturned k \<Rightarrow> True
   | EvWake k \<Rightarrow> True | _ \<Rightarrow> False)"

definition all_cancelled :: "bsys \<Rightarrow> bool" where
  "all_cancelled y \<longleftrightarrow> (\<forall>k < length (sess y). k \<in> bCancelled (brk y))"

text \<open>
  How many moves a session can still make: a dialling goroutine may open the stream and so launch the
  read goroutine, everything else ends with the next move.
\<close>

definition weight :: "session \<Rightarrow> nat" where
  "weight x = (if s_main x = MDial then 3 else if s_main x = MEnd then 0 else 1) +
     of_bool (s_reader x \<noteq> RNone \<and> s_reader x \<noteq> REnd)"

definition remaining :: "bsys \<Rightarrow> nat" where
  "remaining y = sum_list (map weight (sess y))"

lemma sum_list_update_nat:
  "k < length xs \<Longrightarrow> sum_list (xs[k := x]) + xs ! k = sum_list xs + (x :: nat)"
  using elem_le_sum_list [of k xs] by (simp add: sum_list_update)

lemma remaining_set:
  assumes "k < length (sess y)"
  shows "remaining (set_main k m y) + weight (sess y ! k) = remaining y + weight ((sess y ! k)\<lparr>s_main := m\<rparr>)"
    and "remaining (set_reader k r y) + weight (sess y ! k) = remaining y + weight ((sess y ! k)\<lparr>s_reader := r\<rparr>)"
  using sum_list_update_nat [of k "map weight (sess y)"] assms
  by (simp_all add: remaining_def set_main_def set_reader_def map_update)

lemma remaining_brk [simp]: "remaining (y\<lparr>brk := b\<rparr>) = remaining y"
  by (simp add: remaining_def)

lemma remaining_main_end:
  "k < length (sess y) \<Longrightarrow> s_main (sess y ! k) \<noteq> MEnd \<Longrightarrow> remaining (set_main k MEnd y) < remaining y"
  using remaining_set(1) [of k y MEnd] by (simp add: weight_def split: if_splits)

lemma remaining_open:
  assumes "k < length (sess y)" and "s_main (sess y ! k) = MDial"
  shows "remaining (set_reader k RReading (set_main k MWait y)) < remaining y"
proof -
  have "sess (set_main k MWait y) ! k = (sess y ! k)\<lparr>s_main := MWait\<rparr>" using assms(1) by (simp add: set_main_def)
  with remaining_set(2) [of k "set_main k MWait y" RReading] remaining_set(1) [OF assms(1), of MWait] assms
  show ?thesis by (simp add: weight_def split: if_splits)
qed

lemma remaining_reader_end:
  assumes "k < length (sess y)" and "s_reader (sess y ! k) \<noteq> RNone" and "s_reader (sess y ! k) \<noteq> REnd"
  shows "remaining (end_reader k y) < remaining y"
  using remaining_set(2) [of k "y\<lparr>brk := cancel_ctx (Some k) (brk y)\<rparr>" REnd] assms
  by (simp add: weight_def end_reader_def split: if_splits)

text \<open>With every context cancelled \<open>restart\<close> does not sleep.\<close>

lemma restart_cancelled:
  assumes "brk_inv n b" and "0 < n" and "\<forall>k < n. k \<in> bCancelled b" and "restart over b = (b', r)"
  shows "bCancelled b' = bCancelled b \<and> (r = GaveUp \<or> r = Delegated \<or> r = Skipped)"
  using assms by (auto simp: restart_def restart_tail_def brk_inv_def Let_def split: if_splits option.splits)

lemma handleError_cancelled:
  assumes "brk_inv n b" and "0 < n" and "\<forall>k < n. k \<in> bCancelled b" and "handleError c over b = (b', r)"
  shows "bCancelled b' = bCancelled b \<and> (r = None \<or> r = Some GaveUp \<or> r = Some Delegated \<or> r = Some Skipped)"
proof -
  obtain d q where r: "restart over b = (d, q)" by force
  show ?thesis using restart_cancelled [OF assms(1-3) r] assms(4) r by (cases c) (auto simp: handleError_def)
qed

lemma cancelled_end_reader: "all_cancelled y \<Longrightarrow> all_cancelled (end_reader k y)"
  by (simp add: all_cancelled_def) (simp add: end_reader_def set_reader_def cancel_ctx_def)

lemma cancelled_brk: "all_cancelled y \<Longrightarrow> bCancelled b = bCancelled (brk y) \<Longrightarrow> all_cancelled (y\<lparr>brk := b\<rparr>)"
  by (simp add: all_cancelled_def)

lemma cancelled_set: "all_cancelled (set_main k m y) = all_cancelled y" "all_cancelled (set_reader k r y) = all_cancelled y"
  by (simp_all add: all_cancelled_def) (simp_all add: set_main_def set_reader_def)

text \<open>Such a move takes at least one from \<open>remaining\<close> and keeps all contexts cancelled.\<close>

definition one_ended :: "bsys \<Rightarrow> bsys \<Rightarrow> bool" where
  "one_ended y y' \<longleftrightarrow>
     remaining y' < remaining y \<and> all_cancelled y' \<and> length (sess y') = length (sess y) \<and> crashed y' = crashed y"

lemma main_ended:
  assumes "all_cancelled y" and "k < length (sess y)" and "s_main (sess y ! k) \<noteq> MEnd"
    and "bCancelled b = bCancelled (brk y)"
  shows "one_ended y (set_main k MEnd (y\<lparr>brk := b\<rparr>))"
  using remaining_main_end [of k "y\<lparr>brk := b\<rparr>"] assms cancelled_brk [OF assms(1,4)]
  by (simp add: one_ended_def cancelled_set) (simp add: set_main_def)

lemma reader_ended:
  assumes "all_cancelled y" and "k < length (sess y)"
    and "s_reader (sess y ! k) \<noteq> RNone" and "s_reader (sess y ! k) \<noteq> REnd"
    and "bCancelled b = bCancelled (brk y)"
  shows "one_ended y (end_reader k (y\<lparr>brk := b\<rparr>))"
  using remaining_reader_end [of k "y\<lparr>brk := b\<rparr>"] assms cancelled_end_reader [OF cancelled_brk [OF assms(1,5)]]
  by (simp add: one_ended_def) (simp add: end_reader_def set_reader_def)

lemma drain_step:
  assumes inv: "bsys_inv y" and c: "all_cancelled y" and d: "draining ev" and ex: "bexec ev y = Some (ls, y')"
  shows "one_ended y y'"
proof -
  have b: "brk_inv (length (sess y)) (brk y)" using inv by (simp add: bsys_inv_def)
  have all: "\<forall>k < length (sess y). k \<in> bCancelled (brk y)" using c by (simp add: all_cancelled_def)
  have fin: "bCancelled (Start_end b) = bCancelled b" for b by (simp add: Start_end_def)
  note main = main_ended [OF c] and reader = reader_ended [OF c]
  show ?thesis
  proof (cases ev)
    case (EvDialFailed k)
    with ex show ?thesis using main [of k "brk y"] by (auto split: if_splits)
  next
    case (EvChannelFailed k over)
    obtain b' r where r: "restart over (brk y) = (b', r)" by force
    from EvChannelFailed ex have k: "k < length (sess y)" "s_main (sess y ! k) = MDial" by (auto split: if_splits)
    then have "0 < length (sess y)" by auto
    from restart_cancelled [OF b this all r] main [of k b'] EvChannelFailed ex k r show ?thesis by auto
  next
    case (EvChannelOpen k)
    with ex have k: "k < length (sess y)" "s_main (sess y ! k) = MDial"
      and y': "y' = set_reader k RReading (set_main k MWait y)" by (auto split: if_splits)
    then show ?thesis using remaining_open [OF k] c
      by (simp add: one_ended_def cancelled_set) (simp add: set_main_def set_reader_def)
  next
    case (EvRecvError k e over)
    obtain b' r where r: "handleError e over (brk y) = (b', r)" by force
    from EvRecvError ex have k: "k < length (sess y)" "s_reader (sess y ! k) = RReading" by (auto split: if_splits)
    then have "0 < length (sess y)" by auto
    from handleError_cancelled [OF b this all r] reader [of k b'] EvRecvError ex k r show ?thesis by auto
  next
    case (EvSleepCancelled k)
    with ex have k: "k < length (sess y)" by (auto split: if_splits)
    from EvSleepCancelled ex k main [of k "brk y"] reader [of k "brk y"] show ?thesis
      by (auto split: main_pc.splits reader_pc.splits if_splits)
  next
    case (EvReturned k)
    with ex have k: "k < length (sess y)" by (auto split: if_splits)
    from EvReturned ex k main [of k "brk y"] reader [of k "brk y"] show ?thesis
      by (auto split: main_pc.splits reader_pc.splits if_splits)
  next
    case (EvWake k)
    with ex main [of k "Start_end (brk y)"] fin show ?thesis by (auto split: if_splits)
  qed (use d in \<open>simp_all add: draining_def\<close>)
qed

text \<open>The rest, timers apart, begins no session and ends none.\<close>

lemma other_step:
  assumes c: "all_cancelled y" and n: "sess y \<noteq> []" and "\<not> draining ev" and t: "\<And>k. ev \<noteq> EvTimer k"
    and ex: "bexec ev y = Some (ls, y')"
  shows "sess y' = sess y \<and> all_cancelled y'"
proof -
  have "sess y' = sess y"
    using assms by (cases ev) (auto simp: draining_def split: if_splits prod.splits outcome.splits)
  then show ?thesis using c cancelled_mono [OF ex] by (auto simp: all_cancelled_def)
qed

lemma drain_run:
  assumes "brun evs y = Some z" and "\<And>k. EvTimer k \<notin> set evs" and "bsys_inv y" and "all_cancelled y" and "sess y \<noteq> []"
  shows "length (filter draining evs) + remaining z \<le> remaining y \<and> all_cancelled z \<and>
    length (sess z) = length (sess y) \<and> bsys_inv z"
  using assms
proof (induction evs arbitrary: y)
  case (Cons ev evs)
  then obtain ls x where x: "bexec ev y = Some (ls, x)" "brun evs x = Some z"
    by (auto split: if_splits option.splits)
  have t: "ev \<noteq> EvTimer k" "EvTimer k \<notin> set evs" for k using Cons.prems(2) [of k] by auto
  have s: "all_cancelled x \<and> length (sess x) = length (sess y) \<and>
      of_bool (draining ev) + remaining x \<le> remaining y"
  proof (cases "draining ev")
    case True
    from drain_step [OF Cons.prems(3,4) this x(1)] True show ?thesis by (simp add: one_ended_def)
  next
    case False
    from other_step [OF Cons.prems(4,5) this t(1) x(1)] False show ?thesis by (simp add: remaining_def)
  qed
  then have "sess x \<noteq> []" using Cons.prems(5) by force
  from Cons.IH [OF x(2) t(2) bexec_inv [OF Cons.prems(3) x(1)] _ this] s show ?case by auto
qed simp

text \<open>The latest session that has not ended can go on.\<close>

lemma weight_0 [simp]: "weight x = 0 \<longleftrightarrow> s_main x = MEnd \<and> (s_reader x = RNone \<or> s_reader x = REnd)"
  by (auto simp: weight_def)

lemma remaining_0: "remaining y = 0 \<longleftrightarrow>
    (\<forall>x \<in> set (sess y). s_main x = MEnd \<and> (s_reader x = RNone \<or> s_reader x = REnd))"
  by (simp add: remaining_def)

lemma last_remaining:
  assumes "remaining y \<noteq> 0"
  obtains k where "k < length (sess y)" and "weight (sess y ! k) \<noteq> 0"
    and "\<And>n. k < n \<Longrightarrow> n < length (sess y) \<Longrightarrow> weight (sess y ! n) = 0"
proof -
  let ?live = "{k. k < length (sess y) \<and> weight (sess y ! k) \<noteq> 0}"
  have "\<exists>x \<in> set (sess y). weight x \<noteq> 0"
    using assms unfolding remaining_def by (auto simp del: weight_0)
  then have ne: "?live \<noteq> {}" by (auto simp: in_set_conv_nth simp del: weight_0)
  then have "Max ?live \<in> ?live" by (intro Max_in) simp_all
  then show ?thesis
  proof (intro that [of "Max ?live"])
    fix n
    assume n: "Max ?live < n" "n < length (sess y)"
    have "finite ?live" by simp
    from Max_ge [OF this, of n] n(1) have "n \<notin> ?live" by linarith
    with n(2) show "weight (sess y ! n) = 0" by blast
  qed blast+
qed

lemma drain_progress:
  assumes inv: "bsys_inv y" and t: "targets_ok y" and c: "all_cancelled y" and a: "remaining y \<noteq> 0"
  shows "\<exists>ev. draining ev \<and> bexec ev y \<noteq> None"
proof -
  obtain k where k: "k < length (sess y)" "weight (sess y ! k) \<noteq> 0"
    and later: "\<And>n. k < n \<Longrightarrow> n < length (sess y) \<Longrightarrow> weight (sess y ! n) = 0"
    using last_remaining [OF a] by blast
  have ended: "s_main (sess y ! n) = MEnd" if "k < n" "n < length (sess y)" for n
    using later [OF that] by simp
  note td = t [unfolded targets_ok_def, rule_format, OF k(1)]
  have can: "j \<in> bCancelled (brk y)" if "j < length (sess y)" for j using c that by (simp add: all_cancelled_def)
  have b: "brk_inv (length (sess y)) (brk y)" using inv by (simp add: bsys_inv_def)
  show ?thesis
  proof (cases "s_main (sess y ! k)")
    case MDial
    then show ?thesis using k(1) by (intro exI [of _ "EvDialFailed k"]) (simp add: draining_def)
  next
    case (MBackoff x)
    then show ?thesis using k(1) td can by (intro exI [of _ "EvSleepCancelled k"]) (simp add: draining_def)
  next
    case (MNested n)
    then show ?thesis using k(1) td ended by (intro exI [of _ "EvReturned k"]) (simp add: draining_def)
  next
    case MWait
    then show ?thesis using k(1) can by (intro exI [of _ "EvWake k"]) (simp add: draining_def)
  next
    case MEnd
    show ?thesis
    proof (cases "s_reader (sess y ! k)")
      case RReading
      obtain b' r where r: "handleError Unavailable False (brk y) = (b', r)" by force
      have "\<forall>j < length (sess y). j \<in> bCancelled (brk y)" using can by blast
      moreover have "0 < length (sess y)" using k(1) by auto
      ultimately have "r = None \<or> r = Some GaveUp \<or> r = Some Delegated \<or> r = Some Skipped"
        using handleError_cancelled [OF b _ _ r] by blast
      with k(1) RReading r
      show ?thesis by (intro exI [of _ "EvRecvError k Unavailable False"]) (auto simp: draining_def)
    next
      case (RBackoff x)
      then show ?thesis using MEnd k(1) td can by (intro exI [of _ "EvSleepCancelled k"]) (simp add: draining_def)
    next
      case (RNested n)
      then show ?thesis using MEnd k(1) td ended by (intro exI [of _ "EvReturned k"]) (simp add: draining_def)
    qed (use k(2) MEnd in simp_all)
  qed
qed

lemma targets_run:
  "brun evs y = Some z \<Longrightarrow> bsys_inv y \<Longrightarrow> targets_ok y \<Longrightarrow> targets_ok z"
proof (induction evs arbitrary: y)
  case (Cons ev evs)
  then obtain ls x where "bexec ev y = Some (ls, x)" "brun evs x = Some z"
    by (auto split: if_splits option.splits)
  then show ?case using Cons bexec_inv bexec_targets by blast
qed simp

text \<open>\<open>Done\<close> cancels the newest context; the older ones are cancelled already.\<close>

lemma Done_all_cancelled:
  assumes "bsys_inv y"
  shows "all_cancelled (y\<lparr>brk := Broker_Done (brk y)\<rparr>)"
proof -
  have "k \<in> bCancelled (Broker_Done (brk y))" if "k < length (sess y)" for k
  proof (cases "Suc k < length (sess y)")
    case True
    then have "k \<in> bCancelled (brk y)" using assms by (simp add: bsys_inv_def brk_inv_def)
    then show ?thesis by (simp add: Broker_Done_def cancel_ctx_def split: option.split)
  next
    case False
    then have "Suc k = length (sess y)" using that by simp
    then have "bCancel (brk y) = Some k" using assms by (auto simp: bsys_inv_def brk_inv_def)
    then show ?thesis by (simp add: Broker_Done_def cancel_ctx_def)
  qed
  then show ?thesis by (simp add: all_cancelled_def)
qed

section \<open>Properties\<close>

text \<open>
  C18. \<open>Done\<close> shuts a broker down that has begun its \<open>Start\<close>: from any reachable state, after \<open>Done\<close> and
  as long as no retry timer fires, whatever the network and the server do, no session is begun, the
  goroutines of all sessions make at most \<open>remaining\<close> moves between them (three for a dialling goroutine,
  which may still open its stream, one for every other), and unless the process panics such a move is
  possible until all of them have ended.
\<close>

theorem Done_drains:
  assumes "breach b0 y" and "unstarted b0" and "\<not> crashed y" and "sess y \<noteq> []"
    and "brun evs (y\<lparr>brk := Broker_Done (brk y)\<rparr>) = Some z" and "\<forall>k. EvTimer k \<notin> set evs"
  shows "length (filter draining evs) + remaining z \<le> remaining y \<and> length (sess z) = length (sess y) \<and>
    (crashed z \<or> (\<exists>ev ls z'. draining ev \<and> bexec ev z = Some (ls, z')) \<or>
     (\<forall>x \<in> set (sess z). s_main x = MEnd \<and> (s_reader x = RNone \<or> s_reader x = REnd)))"
proof -
  let ?y = "y\<lparr>brk := Broker_Done (brk y)\<rparr>"
  have inv: "bsys_inv ?y" using bexec_inv_rest(2) [OF breach_inv [OF assms(1,2)]] .
  from drain_run [OF assms(5) _ inv Done_all_cancelled [OF breach_inv [OF assms(1,2)]]] assms(4,6)
  have z: "length (filter draining evs) + remaining z \<le> remaining y" "length (sess z) = length (sess y)"
    "all_cancelled z" "bsys_inv z" by simp_all
  have "targets_ok z"
    using targets_run [OF assms(5) inv] breach_targets [OF assms(1,2)] by simp
  then have "remaining z \<noteq> 0 \<Longrightarrow> \<exists>ev. draining ev \<and> bexec ev z \<noteq> None"
    using drain_progress [OF z(4) _ z(3)] by blast
  then show ?thesis using z(1,2) remaining_0 [of z] by auto
qed

theorem Done_drains_witness:
  "\<exists>y z. breach demo_b0 y \<and> remaining y = 2 \<and> remaining z = 0 \<and>
     brun [EvReady 0, EvWake 0, EvRecvError 0 Unavailable False] (y\<lparr>brk := Broker_Done (brk y)\<rparr>) = Some z \<and>
     length (sess z) = length (sess y)"
proof -
  let ?evs = "[EvReady 0, EvWake 0, EvRecvError 0 Unavailable False]"
  obtain y where y: "brun ready_run (bsys_init demo_b0) = Some y" "\<not> crashed y" "remaining y = 2" "sess y \<noteq> []"
    and z: "\<exists>z. brun ?evs (y\<lparr>brk := Broker_Done (brk y)\<rparr>) = Some z"
    by (simp add: ready_run_def remaining_def weight_def run_simps)
  then obtain z where z: "brun ?evs (y\<lparr>brk := Broker_Done (brk y)\<rparr>) = Some z" by blast
  have r: "breach demo_b0 y" by (rule brun_breach [OF breach_init y(1)])
  have "remaining z = 0 \<and> length (sess z) = length (sess y)"
    using Done_drains [OF r demo_b0 y(2,4) z] y(3) by (simp add: draining_def)
  with r y(3) z show ?thesis by blast
qed

text \<open>
  \<open>Done\<close> does not prevent a retry whose timer has fired: there is a run in which a broker is sleeping
  before a retry, is told to stop, and then begins a new session on a context of its own, which becomes
  ready and connected; nothing will cancel it.
\<close>

lemma retry_survives_Done:
  "\<exists>y z. breach demo_b0 y \<and> s_reader (sess y ! 0) = RBackoff 0 \<and>
     brun [EvDone, EvTimer 0, EvChannelOpen 1, EvReady 1] y = Some z \<and>
     connected (brk z) \<and> s_reader (sess z ! 1) = RReading \<and> 1 \<notin> bCancelled (brk z)"
proof -
  obtain y where y: "brun (ready_run @ [EvRecvError 0 Unavailable False]) (bsys_init demo_b0) = Some y"
    "s_reader (sess y ! 0) = RBackoff 0"
    "\<exists>z. brun [EvDone, EvTimer 0, EvChannelOpen 1, EvReady 1] y = Some z \<and>
      connected (brk z) \<and> s_reader (sess z ! 1) = RReading \<and> 1 \<notin> bCancelled (brk z)"
    by (simp add: ready_run_def run_simps)
  have "breach demo_b0 y" by (rule brun_breach [OF breach_init y(1)])
  with y(2,3) show ?thesis by blast
qed

end
