(* ===== verification/Errors.thy ===== *)
theory Errors
  imports Go_Prelude
begin

text \<open>
  The texts of the program's sentinel errors, by package (src/httpclient/client.go,
  src/broker/broker.go, src/client/client.go, src/message/context.go), and \<open>Error()\<close> of an error value.
  \<open>broker.ErrInvalidResponseBody\<close>, which is never used, has the name and the text of the one of
  \<open>httpclient\<close>.
\<close>

fun httpclient_errors :: "err \<Rightarrow> string option" where
  "httpclient_errors ErrBaseURLRequired = Some ''base URL is required''"
| "httpclient_errors ErrAuthhmacRequired = Some ''authhmac is required''"
| "httpclient_errors ErrBodyRequired = Some ''body is required''"
| "httpclient_errors ErrFailedToParseURL = Some ''failed to parse URL''"
| "httpclient_errors ErrFailedToMarshalBody = Some ''failed to marshal body''"
| "httpclient_errors ErrInternalServerError = Some ''internal server error''"
| "httpclient_errors ErrRequestFailed = Some ''request failed''"
| "httpclient_errors ErrUnauthorized = Some ''unauthorized''"
| "httpclient_errors ErrPermissionDenied = Some ''permission denied''"
| "httpclient_errors ErrNotFound = Some ''request not found''"
| "httpclient_errors ErrModuleRequired = Some ''module is required''"
| "httpclient_errors ErrProjectRequired = Some ''project is required''"
| "httpclient_errors ErrInvalidResponseBody = Some ''invalid response body''"
| "httpclient_errors ErrInvalidRequestNonce = Some ''invalid request nonce''"
| "httpclient_errors _ = None"

fun broker_errors :: "err \<Rightarrow> string option" where
  "broker_errors ErrInvalidResponseBody = Some ''invalid response body''"
| "broker_errors ErrBrokerDisconnected = Some ''broker is disconnected''"
| "broker_errors ErrBrokerDialFailed = Some ''broker dial failed''"
| "broker_errors ErrBrokerCertFailed = Some ''broker cert failed''"
| "broker_errors _ = None"

fun client_errors :: "err \<Rightarrow> string option" where
  "client_errors ErrClientNotConnected = Some ''client is not connected''"
| "client_errors _ = None"

fun message_errors :: "err \<Rightarrow> string option" where
  "message_errors ErrMessageContextNotFound = Some ''message context not found''"
| "message_errors _ = None"

definition sentinel_text :: "err \<Rightarrow> string option" where
  "sentinel_text e =
     (case httpclient_errors e of
        Some t \<Rightarrow> Some t
      | None \<Rightarrow> (case broker_errors e of
          Some t \<Rightarrow> Some t
        | None \<Rightarrow> (case client_errors e of Some t \<Rightarrow> Some t | None \<Rightarrow> message_errors e)))"

definition Error :: "err \<Rightarrow> string" where
  "Error e = (case e of NewErr t \<Rightarrow> t | LibErr t \<Rightarrow> t | _ \<Rightarrow> (case sentinel_text e of
     Some t \<Rightarrow> t | None \<Rightarrow> ''invalid memory address or nil pointer dereference''))"

text \<open>A sentinel error is known by its text.\<close>

definition sentinels :: "err list" where
  "sentinels =
     [ErrBaseURLRequired, ErrAuthhmacRequired, ErrBodyRequired, ErrFailedToParseURL,
      ErrFailedToMarshalBody, ErrInternalServerError, ErrRequestFailed, ErrUnauthorized,
      ErrPermissionDenied, ErrNotFound, ErrModuleRequired, ErrProjectRequired,
      ErrInvalidResponseBody, ErrInvalidRequestNonce, ErrBrokerDisconnected, ErrBrokerDialFailed,
      ErrBrokerCertFailed, ErrClientNotConnected, ErrMessageContextNotFound]"

lemma sentinel_texts: "distinct (map Error sentinels)" "map sentinel_text sentinels = map (Some \<circ> Error) sentinels"
  by (simp_all add: sentinels_def Error_def sentinel_text_def)

lemma sentinel_iff: "sentinel_text e \<noteq> None \<longleftrightarrow> e \<in> set sentinels"
  by (cases e) (simp_all add: sentinel_text_def sentinels_def)

lemma sentinel_known:
  "e \<in> set sentinels \<Longrightarrow> e' \<in> set sentinels \<Longrightarrow> Error e = Error e' \<Longrightarrow> e = e'"
  using sentinel_texts(1) unfolding distinct_map by (auto dest: inj_onD)

end
