(* ===== verification/Spec2Isabelle.thy ===== *)
theory Spec2Isabelle
  imports Client_Progress Client_Boot Client_Replies Broker_Shutdown Errors Subs_Interleaving
begin

text \<open>
  A verification development for the Go client of the pub/sub broker in src/ (module
  \<open>glider-client-go\<close>). The program registers with a control server over signed HTTP, keeps one gRPC
  stream per broker it is assigned, and lets its user publish events, wait for responses and
  subscribe handlers.

  \<^bold>\<open>The program.\<close> \<open>pubsub.New\<close> builds a \<open>client.Client\<close> and launches its \<open>Start\<close>, which makes an
  \<open>authhmac.Authhmac\<close>, sends the \<open>broker.Request\<close> through an \<open>httpclient.Client\<close> until it is answered,
  stores the brokers of the answer in a \<open>broker.Store\<close> and launches \<open>Broker.Start\<close> on each. A broker
  reports back through callbacks: \<open>connect\<close> and \<open>disconnect\<close> maintain the client's online list, \<open>recv\<close>
  hands a message to the \<open>sub.Store\<close> (handlers by event) and to the \<open>callback.Callback\<close> (callers waiting
  for a response), \<open>reset\<close> and \<open>owerstaying\<close> start everything over. \<open>Client.Pub\<close> makes a \<open>pub.Pub\<close>,
  whose \<open>Do\<close> and \<open>Sub\<close> send through \<open>Client.send\<close>: the next broker in turn, its stream, and the message
  \<open>GetEvent\<close> builds. What links a response to its request travels in \<open>metadata.MD\<close>, which contexts
  carry by pointer.

  \<^bold>\<open>Theories\<close>, in the order of their imports, and the code they model:

  \<^item> \<open>Go_Prelude\<close>, \<open>Errors\<close>, \<open>Go_Stdlib\<close>, \<open>Go_Time\<close>, \<open>Sha256\<close>: Go's integers as words, errors as values
    with their texts, panics as outcomes; big-endian, hexadecimal and decimal codecs, times with
    saturating difference, and HMAC-SHA256, each with the round trips and bounds the components need.
  \<^item> \<open>Authhmac\<close> (src/authhmac): signing and validating. Payload format and injectivity, completeness
    of validation in the time window, its exact acceptance condition, binding of a signature up to a
    concrete HMAC collision. The locale \<open>envelope_auth\<close> is what the other packages use of it.
  \<^item> \<open>Backoff\<close> (src/httpclient/utils.go, src/broker/utils.go): the two Fibonacci delays, and the
    locale \<open>backoff\<close> of what retry loops rely on.
  \<^item> \<open>Wire\<close>, \<open>Metadata\<close>, \<open>Callback\<close>, \<open>Pub\<close> (src/proto, src/metadata, src/message, src/callback, src/pub
    and the root package's context helpers): messages, contexts with shared metadata, the registry of
    waiting callers (locale \<open>callback_registry\<close>) and the event descriptor (locale \<open>publisher_env\<close>).
  \<^item> \<open>Subs\<close>, \<open>Subs_Interleaving\<close> (src/sub): the subscription store, refined to an event router (locale
    \<open>event_router\<close>), and its operations cut at their locks, for any number of callers.
  \<^item> \<open>Broker\<close>, \<open>Broker_Lifecycle\<close>, \<open>Broker_Shutdown\<close> (src/broker/broker.go, file.go, interceptor.go): one
    connection, its operations, \<open>Start\<close> with its read goroutine as a state machine of nested sessions,
    and how those end after \<open>Done\<close>.
  \<^item> \<open>Httpclient\<close>, \<open>Broker_Request\<close> (src/httpclient, src/broker/request.go): the registration request.
  \<^item> \<open>Broker_Store\<close>, \<open>Client\<close>, \<open>Client_Send\<close>, \<open>Client_Start\<close>, \<open>Client_Reset\<close> (src/broker/store.go,
    src/client): the directory of brokers (locale \<open>broker_directory\<close>), the online list (locale
    \<open>broker_callbacks\<close>), publishing, starting, and every goroutine of the client in steps, \<open>Start\<close> and
    \<open>Done\<close> included: the function \<open>rstep\<close> and the relation \<open>rmove\<close>, proved the same.
  \<^item> \<open>Client_Boot\<close>: the steps of \<open>Client_Reset\<close>, undisturbed, are the functions of \<open>Client_Start\<close>; what a
    restart leaves of the brokers; what can disturb the first \<open>Start\<close>.
  \<^item> \<open>Client_System\<close>, \<open>Client_Service\<close>, \<open>Client_Races\<close>, \<open>Client_Progress\<close>: the whole, that is the goroutines
    of \<open>Client_Reset\<close>, for every broker the client launches the sessions of \<open>Broker_Lifecycle\<close>, and the calls
    of \<open>Subs_Interleaving\<close>, over one memory. Its invariant and what follows for every reachable state
    (well-formed pointers, no nil dereference), the routing of events, two races between a restart
    and a connection, and that the client halts in no other way than the known deadlocks.
  \<^item> \<open>Client_Calls\<close>, \<open>Client_Publish\<close>: that system with its publishers, every call of \<open>Sub\<close> and \<open>Do\<close> a
    goroutine cut where it takes a lock or waits, and the contexts they are made in, which share their
    metadata. The invariant of the registry of waiting calls; what \<open>send\<close> does in service, what a call is
    answered with, that a response reaches it, what becomes of one nobody takes; undisturbed, the steps
    are \<open>Pub_Sub\<close>.
  \<^item> \<open>Client_Replies\<close>: where the reply address of a sent event comes from, an invariant of the metadata
    that all contexts of the running service share.
  \<^item> This theory: \<open>pubsub.New\<close> (src/pubsub.go) and the properties that span components.

  \<^bold>\<open>Correspondence.\<close> Structs are records with the code's fields (prefixed where HOL or another record
  has the name); methods are functions from the receiver's state to its result and new state, with
  every early return a branch. Code that mutates through pointers has an explicit memory: \<open>MD\<close> structs
  (\<open>md_store\<close>), \<open>Sub\<close> structs (\<open>Store\<close>), brokers (\<open>clMem\<close>). An operation that holds its lock throughout
  is one step; where the code releases a lock or blocks in between, the pieces are steps of their own
  (\<open>sub_step\<close>, \<open>bexec\<close>, \<open>rexec\<close>, \<open>call_step\<close>) and any schedule is allowed; \<open>sys_exec\<close> and \<open>pub_exec\<close> are the
  schedulers and stand for no code of their own. In the composed system a
  broker's callback is a goroutine position of the client and blocks the session that called it; a
  session in \<open>connect\<close> keeps its broker's lock, as the \<open>_.ready\<close> handler does. Clocks, random sources, the network, JSON
  and protobuf codecs, the gRPC library and the file system are arguments.

  \<^bold>\<open>Termination.\<close> \<open>fib_loop\<close>, \<open>request_loop\<close> and \<open>send_from\<close> are partial functions whose \<open>None\<close> is a
  call that never returns. \<open>Fibo\<close> and \<open>fibo\<close> are proved to return below \<open>2 ^ 62\<close>; the retry loop to
  return after the first answered turn, with bounds on the time waited for fewer than \<open>2 ^ 61\<close> failures;
  \<open>send\<close>, as a function of a client that nobody changes meanwhile, to return within two rounds of the list when
  some broker accepts, and the steps of a call that finds the locks free to follow it; in service, where the locks
  may be held, each step of \<open>send\<close> is described instead; the goroutines of a broker to end
  after \<open>Done\<close> while no retry timer fires. No fuel is used.

  \<^bold>\<open>What the properties show.\<close> Most state what the components do and promise, in order of
  importance, among them those that break the intent most: after a \<open>connect\<close> the online list holds
  only the new broker, three ways in which a restart can block the client for good or lose a
  broker (a signal sent too late, a broker that becomes ready during it, an old connection that ends
  after it), that there is no other way for the client to halt, and a reset that \<open>Start\<close> forgets. The
  last ones are further deviations: reply addresses overwritten by nested requests, events that
  make \<open>send\<close> recurse for ever, surplus responses that block a goroutine for good, lost handlers, dead connections, far-future timestamps; more are lemmas
  of the components (a panic on an early reset, a stale session, a retry that survives \<open>Done\<close>, errors
  and projects that are never sent, ambiguous stream signatures).

  \<^bold>\<open>Not modelled.\<close> The generated gRPC stubs and the reflection part of the generated messages; printing;
  data races on fields the code accesses without a lock (each access is atomic here); the preference of
  Go's read-write lock for waiting writers, which only removes schedules (a reader it holds back waits for a
  writer, which waits for a holder of the lock, one of the cases of \<open>Client_Progress\<close>). In the composed system
  the registration request of \<open>Start\<close>, with all its
  retries, is one step, so is \<open>recv\<close> from the lookup of the event to the hand-over of its handlers and
  waiters, and so is \<open>restart\<close> between its waits; the handlers of a subscription are recorded, not run, and a \<open>Pub\<close> is used for
  one call only.
\<close>

section \<open>The constructor\<close>

text \<open>Package \<open>pubsub\<close> (src/pubsub.go): options and defaults. \<open>Signal\<close> is never read.\<close>

record PubSubOptions =
  psProject :: string
  psModule :: string
  psHost :: string
  psSecret :: string
  psSubs :: "string list"
  psPubs :: "string list"
  psAuthOptions :: "Options option"
  psCerts :: "string \<rightharpoonup> string"

text \<open>The client that \<open>New\<close> returns and on which it launches \<open>Start\<close>.\<close>

definition PubSub_New :: "PubSubOptions \<Rightarrow> Client" where
  "PubSub_New opts =
     (let opts = (if psAuthOptions opts = None
                  then opts\<lparr>psAuthOptions := Some \<lparr>Skew = seconds 30, TTL = seconds 60, Secret = []\<rparr>\<rparr>
                  else opts);
          opts = (if psProject opts = [] then opts\<lparr>psProject := ''root''\<rparr> else opts)
      in \<lparr>clProject = psProject opts, clModule = psModule opts, clPID = [], clSubs = psSubs opts,
          clPubs = psPubs opts, AuthSkew = Skew (the (psAuthOptions opts)),
          AuthTTL = TTL (the (psAuthOptions opts)), clSecret = psSecret opts, clHost = psHost opts,
          Certs = psCerts opts, Callbacks = Callback_New, SubsStore = Store_New, clBrokers = None,
          currentSend = 0, onlineBrokers = [], online = False, resetProcess = False,
          overstayProcess = False, stopResetProcess = 0,
          clMem = (\<lambda>p. new_broker [] [] 0 False), clFresh = 0\<rparr>)"

section \<open>Lemmas\<close>

lemma handleRecv_pointer:
  "handleRecv cd msg h = ((ctx, msg'), h') \<Longrightarrow> \<exists>q. Value ctx metadata_key = Some (VMD q)"
  using FromRecv_ctx [of Background msg h]
  by (fastforce simp: handleRecv_def Let_def message_FromRecv_def ctx_defs split: prod.splits option.splits sum.splits)

text \<open>Publishing in a context that has a metadata pointer writes through it and passes it on.\<close>

lemma Client_Pub_pointer:
  assumes "Client_Pub uuid now ctx name payload c h = (p, h')"
    and "Value ctx metadata_key = Some (VMD q)"
  shows "Value (pContext p) metadata_key = Some (VMD q)" and "cell h' q = (cell h q)\<lparr>mdID := uuid\<rparr>"
  using assms by (auto simp: Client_Pub_def MetaFromContext_def md_WithContext_def)

section \<open>Properties across components\<close>

text \<open>
  \<open>New\<close> never leaves authentication open: without authentication options the limits are 30
  and 60 seconds, an empty project becomes \<open>root\<close>, the secret is always the client's own (that of the
  authentication options is ignored), and the new client is offline with empty registries.
\<close>

lemma New_defaults:
  "let c = PubSub_New opts; a = Client_auth c
   in clProject c = (if psProject opts = [] then ''root'' else psProject opts) \<and> clProject c \<noteq> [] \<and>
      secret a = psSecret opts \<and>
      (case psAuthOptions opts of
         None \<Rightarrow> sint (skew a) = 30 * nanos \<and> sint (ttl a) = 60 * nanos
       | Some ao \<Rightarrow> skew a = Skew ao \<and> ttl a = TTL ao) \<and>
      client_inv c \<and> store_inv (SubsStore c) \<and> \<not> online c \<and>
      routes (SubsStore c) event = [] \<and> waiting (Callbacks c) event i = None"
  by (auto simp: PubSub_New_def Client_auth_def NewAuth_def Let_def sint_seconds client_inv_def
      store_inv_New routes_New waiting_def Callback_New_def split: option.split)

text \<open>The composed system starts from such a client.\<close>

lemma New_unbooted: "unbooted (PubSub_New opts)" "SubsStore (PubSub_New opts) = Store_New"
  by (auto simp: PubSub_New_def unbooted_def Let_def store_inv_New)

text \<open>
  C6. A reply finds the caller that asked. Client A publishes a request and waits; the server
  delivers it to client B with A's address filled in; the handler of B publishes a reply in the
  context it was called with. Then the reply carries A's address and the identifier of A's request,
  and when A receives it, it goes to the channel that A registered under the reply's name.
\<close>

theorem reply_reaches_caller:
  assumes "Client_Pub uuidA nowA ctxA name dataA cA hA = (p, hA1)"
    and "GetEvent cd (p\<lparr>pSubscribed := True\<rparr>) hA1 = Inr m"
    and "req = m\<lparr>SubPod := pod, SubModule := mdl, SubBroker := gw, SubProject := prj\<rparr>"
    and "pod \<noteq> []" and "mdl \<noteq> []" and "gw \<noteq> []" and "prj \<noteq> []"
    and "handleRecv cd req hB = ((ctxB, req'), hB1)"
    and "Client_Pub uuidB nowB ctxB event dataB cB hB1 = (q, hB2)"
    and "GetEvent cd q hB2 = Inr reply"
    and "plain_id uuidA"
  shows "Name reply = event \<and> Payload reply = dataB \<and> SubId reply = uuidA \<and> Sub reply \<and>
    (SubPod reply, SubModule reply, SubBroker reply, SubProject reply) = (pod, mdl, gw, prj) \<and>
    cb_pending (Callbacks (snd (Client_recv ctx reply (RegisterCb event uuidA ch cA)))) =
      cb_pending (Callbacks cA) @ [(ch, reply)]"
proof -
  note pf = Client_Pub_fields [OF assms(1)] and qf = Client_Pub_fields [OF assms(9)]
  have req: "Id req = uuidA" "Sub req" using GetEvent_Inr [OF assms(2)] pf by (simp_all add: assms(3))
  have md: "meta (pContext q) hB2 = (FromRecv_MD req empty_MD)\<lparr>mdID := uuidB\<rparr>"
    using qf(7) handleRecv_meta [OF assms(8)] by simp
  have "reply_routed (meta (pContext q) hB2)"
    using req assms(4-7) by (simp add: md FromRecv_MD_def Let_def reply_routed_def assms(3))
  then have "(SubId reply, SubPod reply, SubModule reply, SubBroker reply, SubProject reply) =
      (uuidA, pod, mdl, gw, prj)" "Sub reply"
    using GetEvent_routing [OF assms(10)] GetEvent_Inr [OF assms(10)] req
    by (simp_all add: md FromRecv_MD_def Let_def assms(3))
  moreover have "Name reply = event" "Payload reply = dataB"
    using GetEvent_Inr [OF assms(10)] qf by simp_all
  ultimately show ?thesis
    using cb.deliver_registered [OF assms(11), of reply event ch "Callbacks cA"] assms(11)
    by (simp add: Client_recv_def RegisterCb_def)
qed

theorem reply_reaches_caller_witness:
  "\<exists>reply. SubId reply = ''a-1'' \<and>
     cb_pending (Callbacks (snd (Client_recv (Background :: nat ctx) reply
       (RegisterCb ''res'' ''a-1'' 7 demo_cli)))) = [(7, reply)]"
proof -
  obtain p hA1 where a: "Client_Pub ''a-1'' demo_now (Background :: nat ctx) ''req'' [1] demo_cli empty_store = (p, hA1)"
    by force
  obtain m where m: "GetEvent unary_codec (p\<lparr>pSubscribed := True\<rparr>) hA1 = Inr m"
    using GetEvent_unary by blast
  let ?req = "m\<lparr>SubPod := ''pod'', SubModule := ''m'', SubBroker := ''b'', SubProject := ''root''\<rparr>"
  obtain ctxB req' hB1 where b: "handleRecv unary_codec ?req empty_store = ((ctxB, req'), hB1)"
    by (metis prod.collapse)
  obtain q hB2 where q: "Client_Pub ''b-2'' demo_now ctxB ''res'' [2] demo_cli hB1 = (q, hB2)" by force
  obtain reply where r: "GetEvent unary_codec q hB2 = Inr reply" using GetEvent_unary by blast
  have "cb_pending (Callbacks demo_cli) = []" by (simp add: demo_cli_def Callback_New_def)
  then show ?thesis
    using reply_reaches_caller [OF a m refl _ _ _ _ b q r, of Background 7] by (auto simp: plain_id_def)
qed

text \<open>
  C30. Nested requests and replies share one metadata struct. A handler was called with a request that wants
  a response. If, in the context it was called with, it publishes a request of its own, that
  one already goes out with the address of the handler's requester; and if the response to it wants a
  response itself and names a complete address, then what the handler replies afterwards in its original
  context carries the identifier and the address of that response, and no longer those of its requester.
\<close>

theorem nested_request_redirects_reply:
  assumes "handleRecv cd req h0 = ((ctx, req'), h1)"
    and "Sub req" and "SubPod req \<noteq> []" and "SubModule req \<noteq> []" and "SubBroker req \<noteq> []" and "SubProject req \<noteq> []"
    and "Client_Pub uuid2 now2 ctx name2 data2 c h1 = (p, h2)"
    and "GetEvent cd (p\<lparr>pSubscribed := True\<rparr>) h2 = Inr nested"
    and "Sub_select cd (pContext p) (Received resp) h2 = (r, h3)"
    and "Sub resp" and "SubPod resp \<noteq> []" and "SubModule resp \<noteq> []" and "SubBroker resp \<noteq> []"
    and "SubProject resp \<noteq> []"
    and "Client_Pub uuid3 now3 ctx event data3 c h3 = (q, h4)"
    and "GetEvent cd q h4 = Inr reply"
  shows "(SubId nested, SubPod nested, SubModule nested, SubBroker nested, SubProject nested) =
      (Id req, SubPod req, SubModule req, SubBroker req, SubProject req) \<and>
    (SubId reply, SubPod reply, SubModule reply, SubBroker reply, SubProject reply) =
      (Id resp, SubPod resp, SubModule resp, SubBroker resp, SubProject resp)"
proof -
  have m2: "meta (pContext p) h2 = (FromRecv_MD req empty_MD)\<lparr>mdID := uuid2\<rparr>"
    using Client_Pub_fields(7) [OF assms(7)] handleRecv_meta [OF assms(1)] by simp
  then have "reply_routed (meta (pContext p) h2)"
    using assms(2-6) by (simp add: FromRecv_MD_def Let_def reply_routed_def)
  then have nested: "(SubId nested, SubPod nested, SubModule nested, SubBroker nested, SubProject nested) =
      (Id req, SubPod req, SubModule req, SubBroker req, SubProject req)"
    using GetEvent_routing [OF assms(8)] assms(2) by (simp add: m2 FromRecv_MD_def Let_def)
  obtain a where a: "Value ctx metadata_key = Some (VMD a)" using handleRecv_pointer [OF assms(1)] by blast
  have pa: "Value (pContext p) metadata_key = Some (VMD a)" by (rule Client_Pub_pointer [OF assms(7) a])
  have "h3 = snd (FromRecv (pContext p) resp h2)"
    using Sub_select_store [of cd "pContext p" resp h2] assms(9) by simp
  then obtain ctx' where f: "FromRecv (pContext p) resp h2 = (ctx', h3)" by (metis prod.collapse)
  have "meta ctx h3 = FromRecv_MD resp (meta ctx h2)" by (rule FromRecv_shared [OF pa a f])
  then have md: "meta (pContext q) h4 = (FromRecv_MD resp (meta ctx h2))\<lparr>mdID := uuid3\<rparr>"
    using Client_Pub_fields(7) [OF assms(15)] by simp
  then have "reply_routed (meta (pContext q) h4)"
    using assms(10-14) by (simp add: FromRecv_MD_def Let_def reply_routed_def)
  then show ?thesis
    using nested GetEvent_routing [OF assms(16)] assms(10) by (simp add: md FromRecv_MD_def Let_def)
qed

theorem nested_request_redirects_reply_witness:
  "\<exists>req ctx req' h1 p h2 nested q h3 h4 reply. handleRecv unary_codec req empty_store = ((ctx, req'), h1) \<and>
     Id req = ''a-1'' \<and> Client_Pub ''b-2'' demo_now ctx ''ask'' [1] demo_cli h1 = (p, h2) \<and>
     GetEvent unary_codec (p\<lparr>pSubscribed := True\<rparr>) h2 = Inr nested \<and> SubPod nested = ''p1'' \<and> Client_Pub ''c-3'' demo_now ctx ''res'' [2] demo_cli h3 = (q, h4) \<and>
     GetEvent unary_codec q h4 = Inr reply \<and> SubId reply = ''n-2'' \<and> SubPod reply = ''p2''"
proof -
  let ?req = "zero_message\<lparr>Id := ''a-1'', Sub := True, SubPod := ''p1'', SubModule := ''m1'',
    SubBroker := ''b1'', SubProject := ''root''\<rparr>"
  let ?resp = "zero_message\<lparr>Id := ''n-2'', Sub := True, SubPod := ''p2'', SubModule := ''m2'',
    SubBroker := ''b2'', SubProject := ''root''\<rparr>"
  obtain ctx req' h1 where h: "handleRecv unary_codec ?req empty_store = ((ctx, req'), h1)"
    by (metis prod.collapse)
  obtain p h2 where p: "Client_Pub ''b-2'' demo_now ctx ''ask'' [1] demo_cli h1 = (p, h2)" by force
  obtain nested where n: "GetEvent unary_codec (p\<lparr>pSubscribed := True\<rparr>) h2 = Inr nested" using GetEvent_unary by blast
  obtain r h3 where s: "Sub_select unary_codec (pContext p) (Received ?resp) h2 = (r, h3)" by force
  obtain q h4 where q: "Client_Pub ''c-3'' demo_now ctx ''res'' [2] demo_cli h3 = (q, h4)" by force
  obtain reply where g: "GetEvent unary_codec q h4 = Inr reply" using GetEvent_unary by blast
  have "Id ?req = ''a-1''" by simp
  moreover have "SubPod nested = ''p1'' \<and> SubId reply = ''n-2'' \<and> SubPod reply = ''p2''"
    using nested_request_redirects_reply [OF h _ _ _ _ _ p n s _ _ _ _ _ q g] by simp
  ultimately show ?thesis using h p n q g
    by (intro exI [of _ ?req] exI [of _ ctx] exI [of _ req'] exI [of _ h1] exI [of _ p] exI [of _ h2] exI [of _ nested]
        exI [of _ q] exI [of _ h3] exI [of _ h4] exI [of _ reply]) blast
qed

text \<open>
  \<open>send\<close> over live connections: if every online broker is in a state that its connection's
  goroutines can reach, and one of them takes the event at every attempt, then \<open>send\<close> returns
  without error and without panic, after fewer failed attempts than twice the length of the list
  (wrap-around of the counter included), and changes nothing but the counter.
\<close>

lemma send_over_live_brokers:
  assumes "listed c" and "b \<in> set (onlineBrokers c)"
    and "\<And>i. Broker_Send cd (ss i b) p h (clMem c b) = Returns None"
    and "\<And>b'. b' \<in> set (onlineBrokers c) \<Longrightarrow>
      \<exists>b0 y. unstarted b0 \<and> breach b0 y \<and> clMem c b' = brk y"
  shows "\<exists>n < 2 * length (onlineBrokers c). Client_send cd ss p h c =
    Some (Returns None, c\<lparr>currentSend := currentSend c + of_nat (Suc n)\<rparr>)"
proof (rule send_delivers [where ss = ss and b = b])
  fix i b' assume "b' \<in> set (onlineBrokers c)"
  then obtain b0 y where "unstarted b0" "breach b0 y" "clMem c b' = brk y" using assms(4) by blast
  then show "\<exists>e. Broker_Send cd (ss i b') p h (clMem c b') = Returns e"
    using reachable_Send_returns by metis
qed (use assms(1-3) in simp_all)

text \<open>
  Its concrete setting: the brokers of \<open>demo_on\<close> have each opened a stream and become ready.
\<close>

definition ready_mem :: broker_mem where
  "ready_mem b = brk (the (brun ready_run (bsys_init demo_b0)))"

lemma ready_mem: "breach demo_b0 (the (brun ready_run (bsys_init demo_b0)))"
  "connected (ready_mem b)" "stream (ready_mem b) = Some 0"
proof -
  obtain y where y: "brun ready_run (bsys_init demo_b0) = Some y" "connected (brk y)" "stream (brk y) = Some 0"
    by (simp add: ready_run_def run_simps)
  have "breach demo_b0 y" by (rule brun_breach [OF breach_init y(1)])
  then show "breach demo_b0 (the (brun ready_run (bsys_init demo_b0)))" "connected (ready_mem b)"
    "stream (ready_mem b) = Some 0"
    using y by (simp_all add: ready_mem_def)
qed

lemma send_over_live_brokers_witness:
  "\<exists>n < 4. Client_send unary_codec demo_ss (demo_pub Background) empty_store (demo_on\<lparr>clMem := ready_mem\<rparr>) =
     Some (Returns None, demo_on\<lparr>clMem := ready_mem, currentSend := of_nat (Suc n)\<rparr>)"
proof -
  let ?c = "demo_on\<lparr>clMem := ready_mem\<rparr>"
  have l: "listed ?c" using demo_on(1) by (simp add: listed_def)
  have s: "Broker_Send unary_codec (demo_ss i 1) (demo_pub Background) empty_store (clMem ?c 1) = Returns None" for i
    using GetEvent_unary [of "demo_pub Background" empty_store] ready_mem by (auto simp: Broker_Send_def demo_ss_def)
  have r: "\<exists>b0 y. unstarted b0 \<and> breach b0 y \<and> clMem ?c b' = brk y" for b'
    using demo_b0 ready_mem(1) by (auto simp: ready_mem_def)
  show ?thesis
    using send_over_live_brokers [of ?c 1 unary_codec demo_ss, OF l _ s r] by simp
qed

end
